(* ===== verification/Prelude.thy ===== *)
theory Prelude
  imports Main "HOL-Library.Word" "HOL-Library.Monad_Syntax"
begin

text \<open>
  Shared vocabulary of the development: the machine-integer types of the C++ sources, the
  wrap-around of \<open>size_t\<close> subtraction, big-endian byte strings, and the theorem
  collections the component theories add to.

  Conventions used throughout.
  \<^item> \<open>uint8_t\<close>, \<open>uint16_t\<close>, \<open>uint32_t\<close> and \<open>uint64_t\<close> values are words of that width;
    arithmetic on them wraps as it does in C++.
  \<^item> \<open>std::vector<uint8_t>\<close> and \<open>std::span\<close> are lists of bytes; container sizes and offsets
    (\<open>size_t\<close>) are natural numbers, and where the code subtracts two of them the
    wrap-around modulo \<open>2 ^ 64\<close> is written out with \<open>size_sub\<close>.
  \<^item> A C++ \<open>std::string\<close> is a string of byte-sized characters; \<open>string_bytes\<close> and
    \<open>bytes_string\<close> are the two \<open>reinterpret_cast\<close> views of it.
\<close>

unbundle bit_operations_syntax

named_theorems wire_simps \<open>normal forms of the byte-level encoders\<close>
named_theorems inv_intros \<open>operations that keep a component's invariant\<close>

type_synonym byte = "8 word"
type_synonym bytes = "8 word list"
type_synonym u16 = "16 word"
type_synonym u32 = "32 word"
type_synonym u64 = "64 word"

section \<open>Sizes\<close>

definition size_sub :: "nat \<Rightarrow> nat \<Rightarrow> nat" where
  "size_sub a b = (a + 2 ^ 64 - b mod 2 ^ 64) mod 2 ^ 64"

lemma size_sub_exact: "b \<le> a \<Longrightarrow> a < 2 ^ 64 \<Longrightarrow> size_sub a b = a - b"
proof -
  assume le: "b \<le> a" and bound: "a < 2 ^ 64"
  then have "b mod 2 ^ 64 = b" by simp
  with le have "a + 2 ^ 64 - b mod 2 ^ 64 = (a - b) + 2 ^ 64" by simp
  with bound show ?thesis by (simp add: size_sub_def)
qed

section \<open>Big-endian byte strings\<close>

text \<open>
  The shift-and-truncate loops of the sources all produce \<open>be_bytes n v\<close>, the low \<open>n\<close>
  bytes of \<open>v\<close> with the most significant first, and their inverses all fold
  \<open>(acc << 8) | b\<close> over the bytes.
\<close>

fun be_bytes :: "nat \<Rightarrow> 'a::len word \<Rightarrow> bytes" where
  "be_bytes 0 v = []"
| "be_bytes (Suc n) v = be_bytes n (drop_bit 8 v) @ [ucast v]"

definition be_fold :: "'a::len word \<Rightarrow> bytes \<Rightarrow> 'a word" where
  "be_fold a bs = foldl (\<lambda>acc b. push_bit 8 acc OR ucast b) a bs"

lemma length_be_bytes [simp]: "length (be_bytes n v) = n"
  by (induction n arbitrary: v) simp_all

lemma be_fold_Nil [simp]: "be_fold a [] = a"
  by (simp add: be_fold_def)

lemma be_fold_Cons: "be_fold a (b # bs) = be_fold (push_bit 8 a OR ucast b) bs"
  by (simp add: be_fold_def)

lemma be_fold_append: "be_fold a (xs @ ys) = be_fold (be_fold a xs) ys"
  by (simp add: be_fold_def)

lemma be_fold_snoc: "be_fold a (xs @ [b]) = push_bit 8 (be_fold a xs) OR ucast b"
  by (simp add: be_fold_def)

lemma push_drop_ucast8:
  fixes v :: "'a::len word"
  shows "push_bit 8 (push_bit (8 * n) a OR take_bit (8 * n) (drop_bit 8 v)) OR ucast (ucast v :: byte)
       = push_bit (8 + 8 * n) a OR take_bit (8 + 8 * n) v"
  by (rule bit_word_eqI) (auto simp: bit_simps algebra_simps)

lemma be_fold_be_bytes:
  "be_fold a (be_bytes n v) = push_bit (8 * n) a OR take_bit (8 * n) v"
proof (induction n arbitrary: v)
  case 0
  show ?case by simp
next
  case (Suc n)
  have "be_fold a (be_bytes (Suc n) v) =
      push_bit 8 (push_bit (8 * n) a OR take_bit (8 * n) (drop_bit 8 v)) OR ucast (ucast v :: byte)"
    by (simp only: be_bytes.simps be_fold_snoc Suc.IH)
  then show ?case by (simp only: push_drop_ucast8 mult_Suc_right)
qed

lemma be_fold_be_bytes_full:
  fixes v :: "'a::len word"
  shows "8 * n = LENGTH('a) \<Longrightarrow> be_fold 0 (be_bytes n v) = v"
  by (simp add: be_fold_be_bytes)

lemma be_bytes_Suc_front:
  "be_bytes (Suc n) v = ucast (drop_bit (8 * n) v) # be_bytes n v"
proof (induction n arbitrary: v)
  case 0
  show ?case by simp
next
  case (Suc n)
  have "be_bytes (Suc (Suc n)) v = be_bytes (Suc n) (drop_bit 8 v) @ [ucast v]" by simp
  also have "\<dots> = ucast (drop_bit (8 * n) (drop_bit 8 v)) # be_bytes n (drop_bit 8 v) @ [ucast v]"
    by (simp only: Suc.IH append_Cons)
  finally show ?case by (simp add: drop_bit_drop_bit algebra_simps)
qed

lemma be_bytes_unrolled:
  fixes v :: "'a::len word"
  shows "be_bytes 2 v = [ucast (drop_bit 8 v), ucast v]"
    and "be_bytes 3 v = [ucast (drop_bit 16 v), ucast (drop_bit 8 v), ucast v]"
    and "be_bytes 4 v = [ucast (drop_bit 24 v), ucast (drop_bit 16 v), ucast (drop_bit 8 v), ucast v]"
proof -
  have "be_bytes (Suc (Suc 0)) v = [ucast (drop_bit 8 v), ucast v]" by simp
  then show "be_bytes 2 v = [ucast (drop_bit 8 v), ucast v]" by (simp only: numeral_2_eq_2)
  have "be_bytes (Suc (Suc (Suc 0))) v = [ucast (drop_bit 16 v), ucast (drop_bit 8 v), ucast v]"
    by (simp add: drop_bit_drop_bit)
  then show "be_bytes 3 v = [ucast (drop_bit 16 v), ucast (drop_bit 8 v), ucast v]"
    by (simp only: numeral_3_eq_3)
  have four: "4 = Suc (Suc (Suc (Suc 0)))" by simp
  have "be_bytes (Suc (Suc (Suc (Suc 0)))) v
      = [ucast (drop_bit 24 v), ucast (drop_bit 16 v), ucast (drop_bit 8 v), ucast v]"
    by (simp add: drop_bit_drop_bit)
  then show "be_bytes 4 v = [ucast (drop_bit 24 v), ucast (drop_bit 16 v), ucast (drop_bit 8 v), ucast v]"
    by (simp only: four)
qed

lemma and_255_ucast: "ucast (v AND 0xFF) = (ucast v :: byte)"
proof -
  have m: "(0xFF :: 'a::len word) = mask 8" by (simp add: mask_numeral)
  show ?thesis
    unfolding m by (rule bit_word_eqI) (auto simp: bit_simps dest: bit_imp_le_length)
qed

lemma take_bit_word_self: "unat w < 2 ^ n \<Longrightarrow> take_bit n w = w"
proof -
  assume "unat w < 2 ^ n"
  then have "unat (take_bit n w) = unat w"
    by (simp add: unsigned_take_bit_eq take_bit_nat_eq_self)
  then show ?thesis by (rule unsigned_word_eqI)
qed

lemma take_or_push_drop: "push_bit n (drop_bit n v) OR take_bit n v = (v :: 'a::len word)"
  by (rule bit_word_eqI) (auto simp: bit_simps)

lemma ucast_ucast_byte: "ucast (ucast w :: byte) = (take_bit 8 w :: 'a::len word)"
  by (rule bit_word_eqI) (auto simp: bit_simps dest: bit_imp_le_length)

lemma take_bit_self_bound: "take_bit n w = w \<Longrightarrow> unat w < 2 ^ n"
  by (metis take_bit_nat_less_exp unsigned_take_bit_eq)

lemma take_bit_be_fold:
  "take_bit k a = a \<Longrightarrow> take_bit (k + 8 * length bs) (be_fold a bs) = be_fold a bs"
proof (induction bs arbitrary: k a)
  case Nil
  then show ?case by simp
next
  case (Cons b bs)
  have "take_bit (k + 8) (push_bit 8 a OR ucast b) = push_bit 8 (take_bit k a) OR ucast b"
    by (rule bit_word_eqI) (auto simp: bit_simps dest: bit_imp_le_length)
  with Cons.prems Cons.IH [of "k + 8" "push_bit 8 a OR ucast b"] show ?case
    by (simp add: be_fold_Cons add.assoc)
qed

section \<open>Lists\<close>

lemma list_update_append_eq: "n = length xs \<Longrightarrow> (xs @ y # ys)[n := z] = xs @ z # ys"
  by simp

lemma take_append_exact: "length xs = n \<Longrightarrow> take n (xs @ ys) = xs"
  by simp

lemma drop_append_exact: "length xs = n \<Longrightarrow> drop n (xs @ ys) = ys"
  by simp

section \<open>Totals over maps\<close>

definition map_total :: "('v \<Rightarrow> nat) \<Rightarrow> ('k \<rightharpoonup> 'v) \<Rightarrow> nat" where
  "map_total g m = (\<Sum>k \<in> dom m. g (the (m k)))"

definition map_weight :: "('v \<Rightarrow> nat) \<Rightarrow> ('k \<rightharpoonup> 'v) \<Rightarrow> 'k \<Rightarrow> nat" where
  "map_weight g m k = (case m k of None \<Rightarrow> 0 | Some v \<Rightarrow> g v)"

lemma map_total_empty [simp]: "map_total g Map.empty = 0"
  by (simp add: map_total_def)

lemma map_total_remove:
  assumes "finite (dom m)"
  shows "map_total g m = map_weight g m k + (\<Sum>i \<in> dom m - {k}. g (the (m i)))"
proof (cases "m k")
  case None
  then have "dom m - {k} = dom m" by auto
  with None show ?thesis by (simp add: map_total_def map_weight_def)
next
  case (Some v)
  then have "k \<in> dom m" by auto
  from sum.remove [OF assms this, of "\<lambda>i. g (the (m i))"] Some show ?thesis
    by (simp add: map_total_def map_weight_def)
qed

lemma map_total_upd:
  assumes "finite (dom m)"
  shows "map_total g (m(k \<mapsto> v)) + map_weight g m k = map_total g m + g v"
proof -
  have "(\<Sum>i \<in> dom m - {k}. g (the ((m(k \<mapsto> v)) i))) = (\<Sum>i \<in> dom m - {k}. g (the (m i)))"
    by (rule sum.cong) auto
  moreover have "dom (m(k \<mapsto> v)) - {k} = dom m - {k}" by auto
  ultimately show ?thesis
    using assms map_total_remove [of "m(k \<mapsto> v)" g k] map_total_remove [of m g k]
    by (simp add: map_weight_def)
qed

lemma map_weight_le_total: "finite (dom m) \<Longrightarrow> map_weight g m k \<le> map_total g m"
  using map_total_remove [of m g k] by simp

section \<open>Short-circuit conjunction over an output buffer\<close>

text \<open>
  C++ \<^verbatim>\<open>f(out) && g(out)\<close> where both calls append to \<open>out\<close> and return whether they
  succeeded: the second call runs only when the first returned true.
\<close>

definition and_also :: "bool \<times> 'o \<Rightarrow> ('o \<Rightarrow> bool \<times> 'o) \<Rightarrow> bool \<times> 'o" where
  "and_also r k = (if fst r then k (snd r) else r)"

lemma and_also_True [simp]: "and_also (True, out) k = k out"
  by (simp add: and_also_def)

lemma and_also_False [simp]: "and_also (False, out) k = (False, out)"
  by (simp add: and_also_def)

section \<open>Strings as bytes\<close>

definition string_bytes :: "string \<Rightarrow> bytes" where
  "string_bytes s = map (\<lambda>c. of_nat (of_char c)) s"

definition bytes_string :: "bytes \<Rightarrow> string" where
  "bytes_string bs = map (\<lambda>b. char_of (unat b)) bs"

lemma length_string_bytes [simp]: "length (string_bytes s) = length s"
  by (simp add: string_bytes_def)

lemma length_bytes_string [simp]: "length (bytes_string bs) = length bs"
  by (simp add: bytes_string_def)

lemma unat_of_char [simp]: "unat (of_nat (of_char c) :: byte) = of_char c"
  by (simp add: unat_of_nat take_bit_eq_mod)

lemma string_bytes_inverse [simp]: "bytes_string (string_bytes s) = s"
  by (simp add: string_bytes_def bytes_string_def o_def)

lemma byte_mod_256 [simp]: "word_of_nat (unat (b :: byte) mod 256) = b"
proof -
  have "unat b < 256" using unsigned_less [of b] by simp
  then show ?thesis by simp
qed

lemma bytes_string_inverse [simp]: "string_bytes (bytes_string bs) = bs"
  by (simp add: string_bytes_def bytes_string_def o_def)

end
