(* ===== verification/Interfaces.thy ===== *)
theory Interfaces
  imports Prelude
begin

text \<open>
  The contracts several components share, as locales. Each one is interpreted on the
  model's own definitions in the theory of the component that provides them.

  \<^item> \<open>prefix_codec\<close>: an encoder and a decoder that peels one value off the front of a
    byte string (QUIC varints, RoQR frames, AMF0 values).
  \<^item> \<open>list_codec\<close>: a prefix codec with the loop that decodes values until the input is
    exhausted (\<open>amf0_decode_all\<close>).
  \<^item> \<open>incremental_parser\<close>: a parser object that buffers fragments and runs a parse loop
    after each \<open>feed\<close> (\<open>FrameDecoder\<close>, \<open>ChunkReader\<close>).
  \<^item> \<open>draining\<close>: such a parser whose finished messages are taken away between the \<open>feed\<close> calls.
  \<^item> \<open>fifo\<close>: a queue with push at the back and an optional pop at the front.
  \<^item> \<open>guarded_ops\<close>: a family of operations that keep an invariant, lifted to sequences of
    operations.
  \<^item> \<open>ordered_cache\<close>: the latest value per key, replayed in the order the keys first came (the
    init-frame caches of the relay and of the egress gateway).
  \<^item> \<open>ending_reporter\<close>: an object whose handler is invoked when it ends, as its owner relies on it.
\<close>

section \<open>Prefix codecs\<close>

locale prefix_codec =
  fixes enc :: "'v \<Rightarrow> bytes"
    and dec :: "bytes \<Rightarrow> ('v \<times> bytes) option"
    and valid :: "'v \<Rightarrow> bool"
  assumes dec_enc: "valid v \<Longrightarrow> dec (enc v @ rest) = Some (v, rest)"
    and dec_shrinks: "dec bs = Some (v, rest) \<Longrightarrow> length rest < length bs"
begin

lemma enc_nonempty: "valid v \<Longrightarrow> enc v \<noteq> []"
  using dec_enc [of v "[]"] dec_shrinks [of "[]" v "[]"] by fastforce

lemma enc_unambiguous:
  assumes "valid v" and "valid w" and eq: "enc v @ r = enc w @ s"
  shows "v = w \<and> r = s"
proof -
  from assms have "Some (v, r) = Some (w, s)" by (metis dec_enc)
  then show ?thesis by simp
qed

end

locale list_codec = prefix_codec enc dec valid
  for enc :: "'v \<Rightarrow> bytes"
    and dec :: "bytes \<Rightarrow> ('v \<times> bytes) option"
    and valid :: "'v \<Rightarrow> bool" +
  fixes dec_all :: "bytes \<Rightarrow> 'v list option"
  assumes dec_all_unfold:
    "dec_all bs = (if bs = [] then Some []
       else case dec bs of None \<Rightarrow> None
            | Some (v, rest) \<Rightarrow> map_option (Cons v) (dec_all rest))"
begin

lemma dec_all_concat:
  "list_all valid vs \<Longrightarrow> dec_all (concat (map enc vs)) = Some vs"
proof (induction vs)
  case Nil
  show ?case by (simp add: dec_all_unfold [of "[]"])
next
  case (Cons v vs)
  then have "valid v" and ih: "dec_all (concat (map enc vs)) = Some vs" by simp_all
  then have "enc v \<noteq> []" using enc_nonempty by blast
  with ih \<open>valid v\<close> show ?case
    by (simp add: dec_all_unfold [of "enc v @ concat (map enc vs)"] dec_enc)
qed

end

section \<open>Incremental parsers\<close>

text \<open>
  One iteration of the parse loop is \<open>step\<close>: it returns the object after the iteration and
  whether the loop goes on. A parser that has given up (\<open>dead\<close>: \<open>malformed_\<close>, \<open>failed_\<close>)
  ignores further input; what its buffer then holds is invisible, and \<open>view\<close> forgets it.
\<close>

locale incremental_parser =
  fixes step :: "'s \<Rightarrow> 's \<times> bool"
    and parse :: "'s \<Rightarrow> 's"
    and feed :: "bytes \<Rightarrow> 's \<Rightarrow> 's"
    and buf :: "'s \<Rightarrow> bytes"
    and extend :: "bytes \<Rightarrow> 's \<Rightarrow> 's"
    and dead :: "'s \<Rightarrow> bool"
    and view :: "'s \<Rightarrow> 's"
  assumes parse_unfold: "parse s = (if snd (step s) then parse (fst (step s)) else fst (step s))"
    and feed_unfold: "feed d s = (if dead s then s else parse (extend d s))"
    and extend_extend: "extend d2 (extend d1 s) = extend (d1 @ d2) s"
    and extend_Nil: "extend [] s = s"
    and dead_extend: "dead (extend d s) = dead s"
    and view_dead: "dead (view s) = dead s"
    and progress: "step s = (s', True) \<Longrightarrow> length (buf s') < length (buf s)"
    and step_go: "\<not> dead s \<Longrightarrow> step s = (s', True) \<Longrightarrow> step (extend d s) = (extend d s', True)"
    and go_dead: "\<not> dead s \<Longrightarrow> step s = (s', True) \<Longrightarrow> dead s' \<Longrightarrow>
          step (extend d s') = (extend d s', False) \<and> view (extend d s') = view s'"
    and step_wait: "\<not> dead s \<Longrightarrow> step s = (s', False) \<Longrightarrow> \<not> dead s' \<Longrightarrow>
          step (extend d s') = step (extend d s)"
    and step_dead: "\<not> dead s \<Longrightarrow> step s = (s', False) \<Longrightarrow> dead s' \<Longrightarrow>
          \<exists>s''. step (extend d s) = (s'', False) \<and> view s'' = view s'"
begin

lemma feed_after_go:
  assumes "\<not> dead s" and go: "step s = (s', True)"
    and ih: "\<not> dead s' \<Longrightarrow> view (feed d (parse s')) = view (parse (extend d s'))"
  shows "view (feed d (parse s)) = view (parse (extend d s))"
proof -
  have p: "parse s = parse s'" using parse_unfold [of s] go by simp
  have e: "parse (extend d s) = parse (extend d s')"
    using parse_unfold [of "extend d s"] step_go [OF assms(1) go] by simp
  show ?thesis
  proof (cases "dead s'")
    case True
    note stuck = go_dead [OF assms(1) go True]
    have "parse s' = s'"
      using stuck [of "[]"] parse_unfold [of s'] by (simp add: extend_Nil)
    moreover have "parse (extend d s') = extend d s'"
      using stuck [of d] parse_unfold [of "extend d s'"] by simp
    ultimately show ?thesis using stuck [of d] True p e by (simp add: feed_unfold)
  next
    case False
    with ih p e show ?thesis by simp
  qed
qed

lemma feed_after_stop:
  assumes "\<not> dead s" and stop: "step s = (s', False)"
  shows "view (feed d (parse s)) = view (parse (extend d s))"
proof -
  have ps: "parse s = s'" using parse_unfold [of s] stop by simp
  show ?thesis
  proof (cases "dead s'")
    case True
    then obtain s'' where "step (extend d s) = (s'', False)" and "view s'' = view s'"
      using step_dead [OF assms] by blast
    then show ?thesis
      using True ps parse_unfold [of "extend d s"] by (simp add: feed_unfold)
  next
    case False
    then have "step (extend d s') = step (extend d s)" by (rule step_wait [OF assms])
    then have "parse (extend d s') = parse (extend d s)"
      using parse_unfold [of "extend d s'"] parse_unfold [of "extend d s"] by simp
    with False ps show ?thesis by (simp add: feed_unfold)
  qed
qed

lemma feed_after_parse: "\<not> dead s \<Longrightarrow> view (feed d (parse s)) = view (parse (extend d s))"
proof (induction "length (buf s)" arbitrary: s rule: less_induct)
  case less
  obtain s' go where st: "step s = (s', go)" by (cases "step s")
  show ?case
  proof (cases go)
    case True
    with st have go: "step s = (s', True)" by simp
    from less.prems go show ?thesis
      by (rule feed_after_go) (rule less.hyps [OF progress [OF go]])
  next
    case False
    with st less.prems show ?thesis by (auto intro: feed_after_stop)
  qed
qed

lemma feed_feed: "view (feed d2 (feed d1 s)) = view (feed (d1 @ d2) s)"
proof (cases "dead s")
  case True
  then show ?thesis by (simp add: feed_unfold)
next
  case False
  then show ?thesis
    by (simp add: feed_unfold [of d1] feed_unfold [of "d1 @ d2"] feed_after_parse extend_extend
        dead_extend)
qed

end

text \<open>
  Feeding respects \<open>view\<close> when the loop does; a parser object then sees only the
  concatenation of its fragments.
\<close>

locale incremental_stream = incremental_parser +
  assumes feed_view: "view s = view t \<Longrightarrow> view (feed d s) = view (feed d t)"
begin

lemma feed_fragments:
  "ds \<noteq> [] \<Longrightarrow> view (fold feed ds s) = view (feed (concat ds) s)"
proof (induction ds arbitrary: s rule: rev_induct)
  case Nil
  then show ?case by simp
next
  case (snoc d ds)
  show ?case
  proof (cases "ds = []")
    case True
    then show ?thesis by simp
  next
    case False
    then have "view (fold feed ds s) = view (feed (concat ds) s)" by (rule snoc.IH)
    then have "view (feed d (fold feed ds s)) = view (feed d (feed (concat ds) s))"
      by (rule feed_view)
    then show ?thesis by (simp add: feed_feed)
  qed
qed

end

section \<open>Queues\<close>

locale draining =
  fixes feed :: "bytes \<Rightarrow> 's \<Rightarrow> 's"
    and ready :: "'s \<Rightarrow> 'm list"
    and set_ready :: "'m list \<Rightarrow> 's \<Rightarrow> 's"
  assumes ready_set: "ready (set_ready ms s) = ms"
    and set_set: "set_ready ms (set_ready ns s) = set_ready ms s"
    and set_same: "set_ready (ready s) s = s"
    and feed_set: "feed b (set_ready (ms @ ready s) s) = set_ready (ms @ ready (feed b s)) (feed b s)"
begin

lemma fold_set:
  "fold feed bs (set_ready (ms @ ready s) s) = set_ready (ms @ ready (fold feed bs s)) (fold feed bs s)"
proof (induction bs arbitrary: s)
  case (Cons b bs)
  have "fold feed (b # bs) (set_ready (ms @ ready s) s) = fold feed bs (set_ready (ms @ ready (feed b s)) (feed b s))"
    by (simp add: feed_set)
  then show ?case by (simp add: Cons.IH)
qed simp

lemma fold_drained:
  "fold feed bs s = set_ready (ready s @ ready (fold feed bs (set_ready [] s))) (fold feed bs (set_ready [] s))"
  using fold_set [of bs "ready s" "set_ready [] s"] by (simp add: ready_set set_set set_same)

text \<open>Taking the messages away after every feed loses none and changes nothing else.\<close>

fun drain_run :: "bytes list \<Rightarrow> 's \<Rightarrow> 'm list \<times> 's" where
  "drain_run [] s = ([], s)"
| "drain_run (b # bs) s =
     (case drain_run bs (set_ready [] (feed b s)) of (ms, s') \<Rightarrow> (ready (feed b s) @ ms, s'))"

lemma drain_run_eq:
  "ready s = [] \<Longrightarrow> drain_run bs s = (ready (fold feed bs s), set_ready [] (fold feed bs s))"
proof (induction bs arbitrary: s)
  case Nil
  then show ?case using set_same [of s] by simp
next
  case (Cons b bs)
  have "drain_run bs (set_ready [] (feed b s))
      = (ready (fold feed bs (set_ready [] (feed b s))), set_ready [] (fold feed bs (set_ready [] (feed b s))))"
    by (rule Cons.IH) (simp add: ready_set)
  with fold_drained [of bs "feed b s"] show ?case by (simp add: ready_set set_set)
qed

end

locale fifo =
  fixes push :: "'a \<Rightarrow> 'q \<Rightarrow> 'q"
    and pop :: "'q \<Rightarrow> 'a option \<times> 'q"
    and items :: "'q \<Rightarrow> 'a list"
  assumes items_push: "items (push x q) = items q @ [x]"
    and pop_empty: "items q = [] \<Longrightarrow> pop q = (None, q)"
    and pop_front: "items q = x # xs \<Longrightarrow> \<exists>q'. pop q = (Some x, q') \<and> items q' = xs"
begin

fun drain :: "nat \<Rightarrow> 'q \<Rightarrow> 'a list \<times> 'q" where
  "drain 0 q = ([], q)"
| "drain (Suc n) q = (case pop q of (None, q') \<Rightarrow> ([], q')
     | (Some x, q') \<Rightarrow> (case drain n q' of (xs, q'') \<Rightarrow> (x # xs, q'')))"

lemma items_push_all: "items (fold push xs q) = items q @ xs"
  by (induction xs arbitrary: q) (simp_all add: items_push)

lemma drain_items:
  "length (items q) \<le> n \<Longrightarrow> \<exists>q'. drain n q = (items q, q') \<and> items q' = []"
proof (induction n arbitrary: q)
  case 0
  then show ?case by simp
next
  case (Suc n)
  show ?case
  proof (cases "items q")
    case Nil
    then show ?thesis by (simp add: pop_empty)
  next
    case (Cons x xs)
    then obtain q' where q': "pop q = (Some x, q')" "items q' = xs" using pop_front by blast
    with Suc.prems Cons have "length (items q') \<le> n" by simp
    then obtain q'' where "drain n q' = (items q', q'')" "items q'' = []" using Suc.IH by blast
    with q' Cons show ?thesis by simp
  qed
qed

end

section \<open>Operations that keep an invariant\<close>

locale guarded_ops =
  fixes apply_op :: "'op \<Rightarrow> 's \<Rightarrow> 's"
    and inv :: "'s \<Rightarrow> bool"
  assumes op_keeps: "inv s \<Longrightarrow> inv (apply_op a s)"
begin

lemma ops_keep: "inv s \<Longrightarrow> inv (fold apply_op as s)"
  by (induction as arbitrary: s) (simp_all add: op_keeps)

end

locale ending_reporter =
  fixes act :: "'e \<Rightarrow> 'c \<Rightarrow> 'c"
    and armed ended asked :: "'c \<Rightarrow> bool"
    and reports :: "'c \<Rightarrow> nat"
  assumes armed_act: "armed c \<Longrightarrow> armed (act e c)"
    and asked_act: "asked c \<Longrightarrow> asked (act e c)"
    and end_reported: "armed c \<Longrightarrow> \<not> ended c \<Longrightarrow> ended (act e c) \<Longrightarrow> reports c < reports (act e c)"
    and reports_mono: "reports c \<le> reports (act e c)"
begin

text \<open>A flag raised at every report knows whether the object has ended, whatever it does.\<close>

lemma flag_knows_end:
  "armed c \<Longrightarrow> (ended c \<Longrightarrow> flag) \<Longrightarrow> ended (act e c) \<Longrightarrow> flag \<or> reports c < reports (act e c)"
  using end_reported [of c e] by blast

lemma history_knows_end:
  assumes "armed c" and "\<not> ended c" and "ended (fold act es c)"
  shows "reports c < reports (fold act es c)"
  using assms
proof (induction es arbitrary: c)
  case (Cons e es)
  have mono: "reports d \<le> reports (fold act es d)" for d
    by (induction es arbitrary: d) (use reports_mono order_trans in fastforce)+
  show ?case
  proof (cases "ended (act e c)")
    case True
    with Cons.prems have "reports c < reports (act e c)" by (intro end_reported)
    with mono [of "act e c"] show ?thesis by simp
  next
    case False
    have "reports (act e c) < reports (fold act es (act e c))"
      by (rule Cons.IH) (use Cons.prems False armed_act in simp_all)
    with reports_mono [of c e] show ?thesis by simp
  qed
qed simp

end

definition first_seen :: "'k list \<Rightarrow> 'k list" where
  "first_seen ks = rev (remdups (rev ks))"

lemma first_seen_simps [simp]:
  "first_seen [] = []"
  "first_seen (ks @ [k]) = (if k \<in> set ks then first_seen ks else first_seen ks @ [k])"
  "set (first_seen ks) = set ks"
  by (simp_all add: first_seen_def)

text \<open>What a cache holds after a history of puts: the last value of every key, in first-put order.\<close>

definition latest_values :: "('k \<times> 'v) list \<Rightarrow> 'v list" where
  "latest_values h = map (\<lambda>k. the (map_of (rev h) k)) (first_seen (map fst h))"

lemma latest_values_sub: "set (latest_values h) \<subseteq> snd ` set h"
proof
  fix v
  assume "v \<in> set (latest_values h)"
  then obtain k where "k \<in> fst ` set h" and v: "v = the (map_of (rev h) k)"
    by (auto simp: latest_values_def)
  then have "map_of (rev h) k \<noteq> None" by (simp add: map_of_eq_None_iff)
  with v have "(k, v) \<in> set h" using map_of_SomeD [of "rev h" k v] by auto
  then show "v \<in> snd ` set h" by force
qed

locale ordered_cache =
  fixes put :: "'k \<Rightarrow> 'v \<Rightarrow> 's \<Rightarrow> 's"
    and keys :: "'s \<Rightarrow> 'k list"
    and lookup :: "'s \<Rightarrow> 'k \<rightharpoonup> 'v"
  assumes keys_put: "keys (put k v s) = (if lookup s k = None then keys s @ [k] else keys s)"
    and lookup_put: "lookup (put k v s) = (lookup s)(k \<mapsto> v)"
begin

definition holds :: "('k \<times> 'v) list \<Rightarrow> 's \<Rightarrow> bool" where
  "holds h s \<longleftrightarrow> keys s = first_seen (map fst h) \<and> lookup s = map_of (rev h)"

lemma holds_put: "holds h s \<Longrightarrow> holds (h @ [(k, v)]) (put k v s)"
proof -
  assume h: "holds h s"
  then have "(lookup s k = None) = (k \<notin> fst ` set h)"
    by (simp add: holds_def map_of_eq_None_iff)
  with h show ?thesis by (simp add: holds_def keys_put lookup_put)
qed

lemma replay: "holds h s \<Longrightarrow> those (map (lookup s) (keys s)) = Some (latest_values h)"
proof -
  assume h: "holds h s"
  have "those (map (map_of (rev h)) ks) = Some (map (\<lambda>k. the (map_of (rev h) k)) ks)" if "set ks \<subseteq> fst ` set h" for ks
    using that
  proof (induction ks)
    case (Cons k ks)
    then have "map_of (rev h) k \<noteq> None" by (simp add: map_of_eq_None_iff)
    with Cons show ?case by auto
  qed simp
  with h show ?thesis by (simp add: holds_def latest_values_def)
qed

end

end
