(* ===== verification/Varint.thy ===== *)
theory Varint
  imports Interfaces
begin

text \<open>
  \<^verbatim>\<open>core/src/varint.cpp\<close>: QUIC variable-length integers. The encoder writes into a caller's
  buffer through a span (here a list that is updated in place) and returns the number of
  bytes written, 0 for failure; the decoder returns the value and the bytes consumed, or
  \<open>None\<close> where the encoding is not complete yet.
\<close>

section \<open>The code\<close>

definition kVarintMax :: u64 where
  "kVarintMax = push_bit 62 1 - 1"

definition varint_size :: "u64 \<Rightarrow> nat" where
  "varint_size v =
     (if v \<le> 63 then 1
      else if v \<le> 16383 then 2
      else if v \<le> 1073741823 then 4
      else if v \<le> kVarintMax then 8
      else 0)"

text \<open>The loop \<^verbatim>\<open>for (i = len; i-- > 0;) { out[i] = v & 0xFF; v >>= 8; }\<close>.\<close>

fun varint_encode_loop :: "nat \<Rightarrow> u64 \<Rightarrow> bytes \<Rightarrow> bytes" where
  "varint_encode_loop 0 v out = out"
| "varint_encode_loop (Suc i) v out =
     varint_encode_loop i (drop_bit 8 v) (out[i := ucast (v AND 0xFF)])"

definition varint_prefix :: "nat \<Rightarrow> byte" where
  "varint_prefix len =
     (if len = 1 then 0x00 else if len = 2 then 0x40 else if len = 4 then 0x80 else 0xC0)"

definition varint_encode :: "u64 \<Rightarrow> bytes \<Rightarrow> nat \<times> bytes" where
  "varint_encode v out =
     (let len = varint_size v in
      if len = 0 \<or> length out < len then (0, out)
      else let out' = varint_encode_loop len v out
           in (len, out'[0 := (out' ! 0) OR varint_prefix len]))"

definition varint_decode :: "bytes \<Rightarrow> (u64 \<times> nat) option" where
  "varint_decode inp =
     (if inp = [] then None
      else let len = 2 ^ unat (drop_bit 6 (inp ! 0)) in
        if length inp < len then None
        else Some (foldl (\<lambda>v i. push_bit 8 v OR ucast (inp ! i))
                     (ucast (inp ! 0 AND 0x3F)) [1..<len], len))"

section \<open>The encoder\<close>

lemma kVarintMax_eq: "kVarintMax = 4611686018427387903"
  by (simp add: kVarintMax_def)

lemma varint_size_cases:
  "v \<le> kVarintMax \<Longrightarrow> varint_size v = 1 \<or> varint_size v = 2 \<or> varint_size v = 4 \<or> varint_size v = 8"
  by (simp add: varint_size_def)

lemma varint_size_0_iff: "varint_size v = 0 \<longleftrightarrow> kVarintMax < v"
proof -
  have "(63::u64) \<le> kVarintMax" "(16383::u64) \<le> kVarintMax" "(1073741823::u64) \<le> kVarintMax"
    by (simp_all add: kVarintMax_eq)
  then show ?thesis by (auto simp: varint_size_def not_le)
qed

lemma varint_size_le_8: "varint_size v \<le> 8"
  by (simp add: varint_size_def)

text \<open>A value fits the bits its encoding leaves beside the two-bit length prefix.\<close>

lemma varint_size_fits:
  assumes "v \<le> kVarintMax"
  shows "unat v < 2 ^ (8 * varint_size v - 2)"
proof -
  have m: "unat v \<le> 4611686018427387903"
    using assms by (simp add: kVarintMax_eq word_le_nat_alt)
  show ?thesis
    using m by (auto simp: varint_size_def kVarintMax_eq word_le_nat_alt)
qed

lemma varint_encode_loop_bytes:
  "n \<le> length out \<Longrightarrow> varint_encode_loop n v out = be_bytes n v @ drop n out"
proof (induction n arbitrary: v out)
  case 0
  show ?case by simp
next
  case (Suc i)
  then have "i < length out" by simp
  then have "drop i (out[i := ucast v]) = ucast v # drop (Suc i) out"
    by (metis (no_types, opaque_lifting) Cons_nth_drop_Suc drop_update_cancel length_list_update
        lessI nth_list_update_eq)
  with Suc.IH [of "out[i := ucast v]" "drop_bit 8 v"] Suc.prems show ?case
    by (simp add: and_255_ucast)
qed

definition varint_bytes :: "u64 \<Rightarrow> bytes" where
  "varint_bytes v = take (varint_size v) (snd (varint_encode v (replicate 8 0)))"

lemma varint_encode_fails:
  "kVarintMax < v \<or> length out < varint_size v \<Longrightarrow> varint_encode v out = (0, out)"
  by (auto simp: varint_encode_def Let_def varint_size_0_iff)

lemma varint_encode_shape:
  assumes "v \<le> kVarintMax" and "varint_size v \<le> length out" and n: "varint_size v = Suc n"
  shows "varint_encode v out =
    (Suc n, ((ucast (drop_bit (8 * n) v) OR varint_prefix (Suc n)) # be_bytes n v) @ drop (Suc n) out)"
proof -
  have "varint_encode_loop (Suc n) v out
      = ucast (drop_bit (8 * n) v) # be_bytes n v @ drop (Suc n) out"
    using assms varint_encode_loop_bytes [of "Suc n" out v] be_bytes_Suc_front [of n v] by simp
  with assms show ?thesis
    unfolding varint_encode_def by (simp add: Let_def del: varint_encode_loop.simps)
qed

lemma varint_size_Suc: "v \<le> kVarintMax \<Longrightarrow> \<exists>n. varint_size v = Suc n"
  using varint_size_cases [of v] by auto

lemma varint_bytes_shape:
  assumes "v \<le> kVarintMax" and "varint_size v = Suc n"
  shows "varint_bytes v = (ucast (drop_bit (8 * n) v) OR varint_prefix (Suc n)) # be_bytes n v"
  using assms varint_encode_shape [of v "replicate 8 0" n] varint_size_le_8 [of v]
  by (simp add: varint_bytes_def)

lemma varint_encode_bytes:
  assumes "v \<le> kVarintMax" and "varint_size v \<le> length out"
  shows "varint_encode v out = (varint_size v, varint_bytes v @ drop (varint_size v) out)"
proof -
  obtain n where "varint_size v = Suc n" using varint_size_Suc [OF assms(1)] by blast
  with assms show ?thesis using varint_encode_shape varint_bytes_shape by simp
qed

lemma length_varint_bytes [simp]: "v \<le> kVarintMax \<Longrightarrow> length (varint_bytes v) = varint_size v"
  using varint_size_Suc [of v] varint_bytes_shape [of v] by auto

section \<open>The decoder\<close>

lemma varint_decode_loop_fold:
  assumes "n < length inp"
  shows "foldl (\<lambda>v i. push_bit 8 v OR ucast (inp ! i)) a [1..<Suc n] = be_fold a (take n (tl inp))"
  using assms
proof (induction n)
  case 0
  show ?case by simp
next
  case (Suc n)
  then have "n < length (tl inp)" by simp
  then have "take (Suc n) (tl inp) = take n (tl inp) @ [tl inp ! n]"
    by (simp add: take_Suc_conv_app_nth)
  moreover have "tl inp ! n = inp ! Suc n" using Suc.prems by (simp add: nth_tl)
  ultimately show ?case using Suc by (simp add: be_fold_snoc)
qed

lemma varint_decode_Cons:
  assumes "2 ^ unat (drop_bit 6 b0) = Suc n"
  shows "varint_decode (b0 # bs) =
    (if length bs < n then None else Some (be_fold (ucast (b0 AND 0x3F)) (take n bs), Suc n))"
proof (cases "length bs < n")
  case True
  with assms show ?thesis by (simp add: varint_decode_def)
next
  case False
  then have "n < length (b0 # bs)" by simp
  from varint_decode_loop_fold [OF this] have
    "foldl (\<lambda>v i. push_bit 8 v OR ucast ((b0 # bs) ! i)) (ucast (b0 AND 0x3F)) [1..<Suc n]
      = (be_fold (ucast (b0 AND 0x3F)) (take n bs) :: u64)"
    by (simp del: upt_Suc)
  with False assms show ?thesis by (simp add: varint_decode_def del: upt_Suc)
qed

text \<open>The first byte: the length prefix and the top bits of the value do not overlap.\<close>

lemma byte_low6:
  fixes b :: byte
  assumes "unat b < 64"
  shows "drop_bit 6 b = 0" and "b AND 0x3F = b"
proof -
  have t: "take_bit 6 b = b"
    using assms by (simp add: take_bit_word_self)
  then show "b AND 0x3F = b" by (simp add: take_bit_eq_mask mask_numeral)
  show "drop_bit 6 b = 0"
    by (subst t [symmetric]) (simp add: drop_bit_take_bit)
qed

lemma varint_prefix_split:
  fixes b :: byte
  assumes "unat b < 64" and "len = 1 \<or> len = 2 \<or> len = 4 \<or> len = 8"
  shows "2 ^ unat (drop_bit 6 (b OR varint_prefix len)) = len"
    and "(b OR varint_prefix len) AND 0x3F = b"
  using assms byte_low6 [OF assms(1)]
  by (auto simp: varint_prefix_def drop_bit_or bit.conj_disj_distrib2)

lemma varint_first_byte:
  assumes "v \<le> kVarintMax" and n: "varint_size v = Suc n"
  shows "unat (ucast (drop_bit (8 * n) v) :: byte) < 64"
    and "ucast (ucast (drop_bit (8 * n) v) :: byte) = (drop_bit (8 * n) v :: u64)"
proof -
  have fits: "unat v < 2 ^ (8 * Suc n - 2)" using varint_size_fits assms by fastforce
  have "unat (drop_bit (8 * n) v) = unat v div 2 ^ (8 * n)"
    by (simp only: unat_drop_bit_eq drop_bit_eq_div [where 'a = nat])
  also have "\<dots> < 64"
  proof -
    have "(2::nat) ^ (8 * Suc n - 2) = 64 * 2 ^ (8 * n)"
      by (simp add: power_add)
    with fits show ?thesis by (simp add: less_mult_imp_div_less)
  qed
  finally have lt: "unat (drop_bit (8 * n) v) < 64" .
  then show "unat (ucast (drop_bit (8 * n) v) :: byte) < 64"
    by (simp add: unsigned_ucast_eq take_bit_eq_mod)
  have "take_bit 8 (drop_bit (8 * n) v) = drop_bit (8 * n) v"
    using lt by (simp add: take_bit_word_self)
  then show "ucast (ucast (drop_bit (8 * n) v) :: byte) = (drop_bit (8 * n) v :: u64)"
    by (simp add: ucast_ucast_byte)
qed

lemma varint_decode_bytes:
  assumes v: "v \<le> kVarintMax"
  shows "varint_decode (varint_bytes v @ rest) = Some (v, varint_size v)"
proof -
  obtain n where n: "varint_size v = Suc n" using varint_size_Suc [OF v] by blast
  let ?b = "ucast (drop_bit (8 * n) v) :: byte"
  have cases: "Suc n = 1 \<or> Suc n = 2 \<or> Suc n = 4 \<or> Suc n = 8"
    using varint_size_cases [OF v] n by simp
  note first = varint_first_byte [OF v n]
  note split = varint_prefix_split [OF first(1) cases]
  have "varint_decode (varint_bytes v @ rest)
      = Some (be_fold (ucast ?b) (be_bytes n v), Suc n)"
    using varint_bytes_shape [OF v n] varint_decode_Cons [OF split(1)] split(2) by simp
  also have "be_fold (ucast ?b) (be_bytes n v) = v"
    using first(2) by (simp add: be_fold_be_bytes take_or_push_drop)
  finally show ?thesis by (simp add: n)
qed

section \<open>Properties\<close>

lemma varint_decode_append:
  assumes "varint_decode inp = Some (v, n)"
  shows "varint_decode (inp @ more) = Some (v, n)"
proof -
  have "inp \<noteq> []" and len: "n = 2 ^ unat (drop_bit 6 (inp ! 0))" "n \<le> length inp"
    using assms by (auto simp: varint_decode_def Let_def split: if_splits)
  then have "(inp @ more) ! 0 = inp ! 0" by (simp add: nth_append)
  moreover have "foldl (\<lambda>v i. push_bit 8 v OR ucast ((inp @ more) ! i)) a [1..<n]
      = foldl (\<lambda>v i. push_bit 8 v OR ucast (inp ! i)) a [1..<n]" for a :: u64
    using len by (intro foldl_cong) (auto simp: nth_append)
  ultimately show ?thesis
    using assms \<open>inp \<noteq> []\<close> len by (auto simp: varint_decode_def Let_def split: if_splits)
qed

lemma varint_len_cases:
  "2 ^ unat (drop_bit 6 (b :: byte)) \<in> {1, 2, 4, 8 :: nat}"
proof -
  have "unat (drop_bit 6 b) = unat b div 2 ^ 6"
    by (simp only: unat_drop_bit_eq drop_bit_eq_div [where 'a = nat])
  moreover have "unat b < 256" using unsigned_less [of b] by simp
  ultimately have "unat (drop_bit 6 b) < 4" by simp
  then have "unat (drop_bit 6 b) \<in> {0, 1, 2, 3}" by auto
  then show ?thesis by auto
qed

lemma varint_decode_value:
  assumes "varint_decode inp = Some (v, n)"
  shows "n \<in> {1, 2, 4, 8}" and "n \<le> length inp" and "unat v < 2 ^ (8 * n - 2)"
proof -
  obtain b0 bs where inp: "inp = b0 # bs"
    using assms by (cases inp) (auto simp: varint_decode_def)
  obtain m where m: "2 ^ unat (drop_bit 6 b0) = Suc m"
    using varint_len_cases [of b0] by (auto simp: numeral_eq_Suc)
  from assms have n: "n = Suc m" and len: "m \<le> length bs"
    and v: "v = be_fold (ucast (b0 AND 0x3F)) (take m bs)"
    by (simp_all add: inp varint_decode_Cons [OF m] split: if_splits)
  show "n \<in> {1, 2, 4, 8}" using varint_len_cases [of b0] m n by simp
  show "n \<le> length inp" using n len inp by simp
  have "take_bit 6 (ucast (b0 AND 0x3F) :: u64) = ucast (b0 AND 0x3F)"
  proof -
    have m: "(0x3F :: byte) = mask 6" by (simp add: mask_numeral)
    show ?thesis unfolding m by (rule bit_word_eqI) (auto simp: bit_simps)
  qed
  then have "unat v < 2 ^ (6 + 8 * length (take m bs))"
    unfolding v by (intro take_bit_self_bound take_bit_be_fold)
  then show "unat v < 2 ^ (8 * n - 2)" using n len by simp
qed

interpretation varint: prefix_codec varint_bytes
  "\<lambda>bs. map_option (\<lambda>(v, n). (v, drop n bs)) (varint_decode bs)" "\<lambda>v. v \<le> kVarintMax"
proof
  fix v :: u64 and rest :: bytes
  assume "v \<le> kVarintMax"
  then show "map_option (\<lambda>(w, n). (w, drop n (varint_bytes v @ rest)))
      (varint_decode (varint_bytes v @ rest)) = Some (v, rest)"
    by (simp add: varint_decode_bytes)
next
  fix bs v rest
  assume "map_option (\<lambda>(v, n). (v, drop n bs)) (varint_decode bs) = Some (v, rest)"
  then obtain n where "varint_decode bs = Some (v, n)" and rest: "rest = drop n bs" by auto
  with varint_decode_value [of bs v n] show "length rest < length bs" by auto
qed

text \<open>
  Encoding any value up to \<open>kVarintMax\<close> into a large enough buffer writes exactly
  \<open>varint_size\<close> bytes, leaves the rest of the buffer alone, and decoding those bytes,
  whatever follows them, returns the value and consumes exactly those bytes.
\<close>

theorem varint_roundtrip:
  assumes "v \<le> kVarintMax" and "varint_size v \<le> length out"
  shows "\<exists>bs. length bs = varint_size v
     \<and> varint_encode v out = (varint_size v, bs @ drop (varint_size v) out)
     \<and> varint_decode (bs @ rest) = Some (v, varint_size v)"
  using assms varint_encode_bytes varint_decode_bytes length_varint_bytes by blast

text \<open>
  Whatever bytes arrive, a decoded varint is at most \<open>kVarintMax\<close>, consumes 1, 2, 4 or
  8 bytes that are really there, never fewer than the canonical encoding of its value needs,
  and more input after it does not change the result.
\<close>

theorem varint_decode_sound:
  assumes "varint_decode inp = Some (v, n)"
  shows "v \<le> kVarintMax \<and> n \<in> {1, 2, 4, 8} \<and> n \<le> length inp \<and> varint_size v \<le> n
     \<and> varint_decode (inp @ more) = Some (v, n)"
proof -
  note dec = varint_decode_value [OF assms]
  then have "varint_size v \<le> n \<and> v \<le> kVarintMax"
    by (auto simp: varint_size_def kVarintMax_eq word_le_nat_alt not_le word_less_nat_alt)
  with dec varint_decode_append [OF assms] show ?thesis by blast
qed

end
