(* ===== verification/Frame_Codec.thy ===== *)
theory Frame_Codec
  imports Varint
begin

text \<open>
  \<^verbatim>\<open>core/include/roqr/frame.hpp\<close> and \<^verbatim>\<open>core/src/frame.cpp\<close>: the RoQR frame, its encoder, the
  DATAGRAM decoder (exactly one frame per datagram) and \<open>FrameDecoder\<close>, the incremental
  decoder for stream-carried frames.

  Record fields carry a prefix (\<open>f_\<close>, \<open>h_\<close>, \<open>fd_\<close>) because the sources use the same member
  names in several structs. \<open>parse_header\<close> returns \<open>None\<close> for \<^verbatim>\<open>NeedMoreData\<close>, the only
  status beside \<^verbatim>\<open>Ok\<close> it can return.
\<close>

section \<open>The code\<close>

record Frame =
  f_flow_id :: u64
  f_timestamp :: u64
  f_message_type :: byte
  f_message_stream_id :: u64
  f_chunk_stream_id :: u64
  f_payload :: bytes

definition empty_frame :: Frame where
  "empty_frame = \<lparr>f_flow_id = 0, f_timestamp = 0, f_message_type = 0,
     f_message_stream_id = 0, f_chunk_stream_id = 0, f_payload = []\<rparr>"

datatype DecodeStatus = Ok | NeedMoreData | Malformed

definition append_varint :: "u64 \<Rightarrow> bytes \<Rightarrow> bool \<times> bytes" where
  "append_varint v out =
     (let (n, tmp) = varint_encode v (replicate 8 0)
      in if n = 0 then (False, out) else (True, out @ take n tmp))"

record Header =
  h_flow_id :: u64
  h_timestamp :: u64
  h_message_stream_id :: u64
  h_chunk_stream_id :: u64
  h_payload_length :: u64
  h_message_type :: byte
  h_consumed :: nat

text \<open>The lambda \<open>take\<close> of \<open>parse_header\<close>: one varint at the running offset.\<close>

definition take_varint :: "bytes \<Rightarrow> nat \<Rightarrow> (u64 \<times> nat) option" where
  "take_varint data off =
     (case varint_decode (drop off data) of None \<Rightarrow> None | Some (v, n) \<Rightarrow> Some (v, off + n))"

definition parse_header :: "bytes \<Rightarrow> Header option" where
  "parse_header data = do {
     (fid, off1) \<leftarrow> take_varint data 0;
     (ts, off2) \<leftarrow> take_varint data off1;
     if length data \<le> off2 then None
     else do {
       (msid, off3) \<leftarrow> take_varint data (Suc off2);
       (csid, off4) \<leftarrow> take_varint data off3;
       (plen, off5) \<leftarrow> take_varint data off4;
       Some \<lparr>h_flow_id = fid, h_timestamp = ts, h_message_stream_id = msid,
             h_chunk_stream_id = csid, h_payload_length = plen,
             h_message_type = data ! off2, h_consumed = off5\<rparr>
     }
   }"

definition header_to_frame :: "Header \<Rightarrow> Frame \<Rightarrow> Frame" where
  "header_to_frame h f = f\<lparr>f_flow_id := h_flow_id h, f_timestamp := h_timestamp h,
     f_message_type := h_message_type h, f_message_stream_id := h_message_stream_id h,
     f_chunk_stream_id := h_chunk_stream_id h\<rparr>"

definition frame_encode :: "Frame \<Rightarrow> bytes \<Rightarrow> bool \<times> bytes" where
  "frame_encode f out =
     (if f_payload f = [] then (False, out)
      else let start = length out;
        r = and_also (append_varint (f_flow_id f) out) (\<lambda>out.
            and_also (append_varint (f_timestamp f) out) (\<lambda>out.
            and_also (True, out @ [f_message_type f]) (\<lambda>out.
            and_also (append_varint (f_message_stream_id f) out) (\<lambda>out.
            and_also (append_varint (f_chunk_stream_id f) out) (\<lambda>out.
            append_varint (of_nat (length (f_payload f))) out)))))
        in if \<not> fst r then (False, take start (snd r))
           else (True, snd r @ f_payload f))"

definition datagram_decode :: "bytes \<Rightarrow> Frame \<Rightarrow> DecodeStatus \<times> Frame" where
  "datagram_decode data out =
     (case parse_header data of
        None \<Rightarrow> (Malformed, out)
      | Some h \<Rightarrow>
          if h_payload_length h = 0 then (Malformed, out)
          else if length data - h_consumed h \<noteq> unat (h_payload_length h) then (Malformed, out)
          else (Ok, (header_to_frame h out)\<lparr>f_payload := drop (h_consumed h) data\<rparr>))"

record FrameDecoder =
  fd_buffer :: bytes
  fd_ready :: "Frame list"
  fd_max_payload :: u64
  fd_malformed :: bool

definition kDefaultMaxPayload :: u64 where
  "kDefaultMaxPayload = 16 * 1024 * 1024"

definition FrameDecoder_new :: "u64 \<Rightarrow> FrameDecoder" where
  "FrameDecoder_new max_payload =
     \<lparr>fd_buffer = [], fd_ready = [], fd_max_payload = max_payload, fd_malformed = False\<rparr>"

text \<open>One iteration of the \<^verbatim>\<open>for (;;)\<close> loop of \<open>FrameDecoder::parse\<close>; the flag says whether
  the loop goes on.\<close>

definition FrameDecoder_step :: "FrameDecoder \<Rightarrow> FrameDecoder \<times> bool" where
  "FrameDecoder_step d =
     (case parse_header (fd_buffer d) of
        None \<Rightarrow> (d, False)
      | Some h \<Rightarrow>
          if h_payload_length h = 0 \<or> fd_max_payload d < h_payload_length h
          then (d\<lparr>fd_malformed := True, fd_buffer := []\<rparr>, False)
          else if length (fd_buffer d) - h_consumed h < unat (h_payload_length h) then (d, False)
          else let len = unat (h_payload_length h);
                   f = (header_to_frame h empty_frame)
                         \<lparr>f_payload := take len (drop (h_consumed h) (fd_buffer d))\<rparr>
               in (d\<lparr>fd_ready := fd_ready d @ [f],
                     fd_buffer := drop (h_consumed h + len) (fd_buffer d)\<rparr>, True))"

lemma take_varint_bounds:
  "take_varint data off = Some (v, off') \<Longrightarrow> off < off' \<and> off' \<le> length data"
  using varint_decode_value [of "drop off data" v "off' - off"]
  by (auto simp: take_varint_def split: option.splits)

lemma parse_header_bounds:
  "parse_header data = Some h \<Longrightarrow> 0 < h_consumed h \<and> h_consumed h \<le> length data"
  by (auto simp: parse_header_def bind_eq_Some_conv dest!: take_varint_bounds split: if_splits)

lemma FrameDecoder_step_progress:
  "FrameDecoder_step d = (d', True) \<Longrightarrow> length (fd_buffer d') < length (fd_buffer d)"
  by (auto simp: FrameDecoder_step_def Let_def dest!: parse_header_bounds
      split: option.splits if_splits)

function FrameDecoder_parse :: "FrameDecoder \<Rightarrow> FrameDecoder" where
  "FrameDecoder_parse d =
     (if snd (FrameDecoder_step d) then FrameDecoder_parse (fst (FrameDecoder_step d))
      else fst (FrameDecoder_step d))"
  by pat_completeness auto
termination
  by (relation "measure (\<lambda>d. length (fd_buffer d))")
    (auto intro: FrameDecoder_step_progress simp: prod_eq_iff)

declare FrameDecoder_parse.simps [simp del]

definition FrameDecoder_feed :: "bytes \<Rightarrow> FrameDecoder \<Rightarrow> FrameDecoder" where
  "FrameDecoder_feed data d =
     (if fd_malformed d then d
      else FrameDecoder_parse (d\<lparr>fd_buffer := fd_buffer d @ data\<rparr>))"

definition FrameDecoder_next :: "FrameDecoder \<Rightarrow> Frame option \<times> FrameDecoder" where
  "FrameDecoder_next d =
     (case fd_ready d of [] \<Rightarrow> (None, d) | f # fs \<Rightarrow> (Some f, d\<lparr>fd_ready := fs\<rparr>))"

section \<open>The encoder\<close>

lemma append_varint_eq:
  "append_varint v out = (if v \<le> kVarintMax then (True, out @ varint_bytes v) else (False, out))"
proof (cases "v \<le> kVarintMax")
  case True
  then have "varint_size v \<noteq> 0" using varint_size_0_iff [of v] by simp
  with True varint_size_le_8 [of v] show ?thesis
    by (simp add: append_varint_def varint_encode_bytes)
next
  case False
  then show ?thesis by (simp add: append_varint_def varint_encode_fails not_le)
qed

text \<open>The wire image of a frame, and when there is one.\<close>

definition header_bytes :: "Frame \<Rightarrow> bytes" where
  "header_bytes f = varint_bytes (f_flow_id f) @ varint_bytes (f_timestamp f) @ [f_message_type f]
     @ varint_bytes (f_message_stream_id f) @ varint_bytes (f_chunk_stream_id f)
     @ varint_bytes (of_nat (length (f_payload f)))"

definition frame_bytes :: "Frame \<Rightarrow> bytes" where
  "frame_bytes f = header_bytes f @ f_payload f"

definition frame_ok :: "Frame \<Rightarrow> bool" where
  "frame_ok f \<longleftrightarrow> f_payload f \<noteq> [] \<and> f_flow_id f \<le> kVarintMax \<and> f_timestamp f \<le> kVarintMax
     \<and> f_message_stream_id f \<le> kVarintMax \<and> f_chunk_stream_id f \<le> kVarintMax
     \<and> length (f_payload f) \<le> unat kVarintMax"

lemma size_le_kVarintMax:
  "n < 2 ^ 64 \<Longrightarrow> (of_nat n \<le> kVarintMax) = (n \<le> unat kVarintMax)"
  by (simp add: word_le_nat_alt unat_of_nat take_bit_nat_eq_self)

lemma frame_encode_eq:
  assumes "length (f_payload f) < 2 ^ 64"
  shows "frame_encode f out =
    (if frame_ok f then (True, out @ frame_bytes f) else (False, out))"
  using assms
  by (simp add: frame_encode_def append_varint_eq frame_ok_def frame_bytes_def header_bytes_def
      size_le_kVarintMax)

lemma frame_ok_length: "frame_ok f \<Longrightarrow> length (f_payload f) < 2 ^ 64"
  by (simp add: frame_ok_def kVarintMax_eq)

lemma frame_encode_ok: "frame_ok f \<Longrightarrow> frame_encode f out = (True, out @ frame_bytes f)"
  by (simp add: frame_encode_eq [OF frame_ok_length])

lemma frame_encode_all:
  "list_all frame_ok fs \<Longrightarrow>
     fold (\<lambda>f out. snd (frame_encode f out)) fs out = out @ concat (map frame_bytes fs)"
  by (induction fs arbitrary: out) (simp_all add: frame_encode_ok)

section \<open>The header parser\<close>

lemma take_varint_here:
  "v \<le> kVarintMax \<Longrightarrow> drop off data = varint_bytes v @ rest \<Longrightarrow>
     take_varint data off = Some (v, off + varint_size v)"
  by (simp add: take_varint_def varint_decode_bytes)

lemma take_varint_append:
  "take_varint data off = Some r \<Longrightarrow> take_varint (data @ ext) off = Some r"
proof -
  assume some: "take_varint data off = Some r"
  then obtain v n where dec: "varint_decode (drop off data) = Some (v, n)" and r: "r = (v, off + n)"
    by (auto simp: take_varint_def split: option.splits)
  then have "off < length data" using varint_decode_value(1,2) [OF dec] by auto
  with dec r show ?thesis by (simp add: take_varint_def varint_decode_append)
qed

lemma parse_header_append:
  assumes "parse_header data = Some h"
  shows "parse_header (data @ ext) = Some h"
proof -
  from assms obtain fid o1 ts o2 msid o3 csid o4 plen o5 where
    t: "take_varint data 0 = Some (fid, o1)" "take_varint data o1 = Some (ts, o2)"
      "take_varint data (Suc o2) = Some (msid, o3)" "take_varint data o3 = Some (csid, o4)"
      "take_varint data o4 = Some (plen, o5)" and len: "o2 < length data"
    and h: "h = \<lparr>h_flow_id = fid, h_timestamp = ts, h_message_stream_id = msid,
             h_chunk_stream_id = csid, h_payload_length = plen,
             h_message_type = data ! o2, h_consumed = o5\<rparr>"
    by (auto simp: parse_header_def bind_eq_Some_conv split: if_splits)
  then show ?thesis
    by (simp add: parse_header_def t [THEN take_varint_append] nth_append)
qed

definition frame_header :: "Frame \<Rightarrow> Header" where
  "frame_header f = \<lparr>h_flow_id = f_flow_id f, h_timestamp = f_timestamp f,
     h_message_stream_id = f_message_stream_id f, h_chunk_stream_id = f_chunk_stream_id f,
     h_payload_length = of_nat (length (f_payload f)), h_message_type = f_message_type f,
     h_consumed = length (header_bytes f)\<rparr>"

lemma parse_header_bytes:
  assumes "frame_ok f"
  shows "parse_header (header_bytes f @ rest) = Some (frame_header f)"
proof -
  have ok: "f_flow_id f \<le> kVarintMax" "f_timestamp f \<le> kVarintMax"
    "f_message_stream_id f \<le> kVarintMax" "f_chunk_stream_id f \<le> kVarintMax"
    "word_of_nat (length (f_payload f)) \<le> kVarintMax"
    using assms size_le_kVarintMax [OF frame_ok_length [OF assms]] by (simp_all add: frame_ok_def)
  then show ?thesis
    by (simp add: parse_header_def frame_header_def header_bytes_def take_varint_def
        varint_decode_bytes nth_append)
qed

lemma unat_payload_length:
  "frame_ok f \<Longrightarrow> unat (word_of_nat (length (f_payload f)) :: u64) = length (f_payload f)"
  using frame_ok_length [of f] by (simp add: unat_of_nat take_bit_nat_eq_self)

lemma header_to_frame_header:
  "(header_to_frame (frame_header f) g)\<lparr>f_payload := f_payload f\<rparr> = f"
  by (simp add: header_to_frame_def frame_header_def)

lemma frame_bytes_longer: "frame_ok f \<Longrightarrow> h_consumed (frame_header f) < length (frame_bytes f)"
  by (simp add: frame_header_def frame_bytes_def frame_ok_def)

section \<open>The incremental decoder\<close>

abbreviation FrameDecoder_extend :: "bytes \<Rightarrow> FrameDecoder \<Rightarrow> FrameDecoder" where
  "FrameDecoder_extend data d \<equiv> d\<lparr>fd_buffer := fd_buffer d @ data\<rparr>"

lemma FrameDecoder_step_go:
  assumes "FrameDecoder_step d = (d', True)"
  shows "FrameDecoder_step (FrameDecoder_extend data d) = (FrameDecoder_extend data d', True)"
proof -
  obtain h where h: "parse_header (fd_buffer d) = Some h"
    and plen: "h_payload_length h \<noteq> 0" "\<not> fd_max_payload d < h_payload_length h"
    and len: "unat (h_payload_length h) \<le> length (fd_buffer d) - h_consumed h"
    and d': "d' = d\<lparr>fd_ready := fd_ready d @ [(header_to_frame h empty_frame)
             \<lparr>f_payload := take (unat (h_payload_length h)) (drop (h_consumed h) (fd_buffer d))\<rparr>],
           fd_buffer := drop (h_consumed h + unat (h_payload_length h)) (fd_buffer d)\<rparr>"
    using assms by (auto simp: FrameDecoder_step_def Let_def split: option.splits if_splits)
  have "h_consumed h + unat (h_payload_length h) \<le> length (fd_buffer d)"
    using parse_header_bounds [OF h] len by linarith
  with h plen len d' show ?thesis
    by (simp add: FrameDecoder_step_def parse_header_append Let_def)
qed

lemma FrameDecoder_step_stop:
  assumes "FrameDecoder_step d = (d', False)" and "\<not> fd_malformed d"
  shows "d' = d \<or> d' = d\<lparr>fd_malformed := True, fd_buffer := []\<rparr>
     \<and> FrameDecoder_step (FrameDecoder_extend data d) = (d', False)"
  using assms
  by (auto simp: FrameDecoder_step_def Let_def parse_header_append split: option.splits if_splits)

interpretation frame_decoder: incremental_stream FrameDecoder_step FrameDecoder_parse
  FrameDecoder_feed fd_buffer FrameDecoder_extend fd_malformed "\<lambda>d. d"
proof
  fix d d' :: FrameDecoder and data :: bytes
  assume alive: "\<not> fd_malformed d"
  {
    assume go: "FrameDecoder_step d = (d', True)"
    show "FrameDecoder_step (FrameDecoder_extend data d) = (FrameDecoder_extend data d', True)"
      by (rule FrameDecoder_step_go [OF go])
    assume "fd_malformed d'"
    with go alive show "FrameDecoder_step (FrameDecoder_extend data d') = (FrameDecoder_extend data d', False)
        \<and> FrameDecoder_extend data d' = d'"
      by (auto simp: FrameDecoder_step_def Let_def split: option.splits if_splits)
  next
    assume stop: "FrameDecoder_step d = (d', False)" and "\<not> fd_malformed d'"
    then show "FrameDecoder_step (FrameDecoder_extend data d') = FrameDecoder_step (FrameDecoder_extend data d)"
      using FrameDecoder_step_stop [OF stop alive, of data] by (elim disjE) simp_all
  next
    assume stop: "FrameDecoder_step d = (d', False)" and "fd_malformed d'"
    then show "\<exists>e. FrameDecoder_step (FrameDecoder_extend data d) = (e, False) \<and> e = d'"
      using FrameDecoder_step_stop [OF stop alive, of data] alive by auto
  }
qed (simp_all add: FrameDecoder_parse.simps [symmetric] FrameDecoder_feed_def
      FrameDecoder_step_progress)

interpretation frame_ready: fifo "\<lambda>f d. d\<lparr>fd_ready := fd_ready d @ [f]\<rparr>"
  FrameDecoder_next fd_ready
  by unfold_locales (simp_all add: FrameDecoder_next_def)

lemma FrameDecoder_step_frame:
  assumes ok: "frame_ok f" and "length (f_payload f) \<le> unat (fd_max_payload d)"
    and buf: "fd_buffer d = frame_bytes f @ rest"
  shows "FrameDecoder_step d = (d\<lparr>fd_ready := fd_ready d @ [f], fd_buffer := rest\<rparr>, True)"
proof -
  have h: "parse_header (fd_buffer d) = Some (frame_header f)"
    using parse_header_bytes [OF ok] by (simp add: buf frame_bytes_def)
  have len: "unat (h_payload_length (frame_header f)) = length (f_payload f)"
    using unat_payload_length [OF ok] by (simp add: frame_header_def)
  have "h_payload_length (frame_header f) \<noteq> 0"
    using len ok by (metis frame_ok_def length_0_conv unsigned_0)
  moreover have "\<not> fd_max_payload d < h_payload_length (frame_header f)"
    using assms(2) len by (simp add: word_less_nat_alt)
  moreover have "h_consumed (frame_header f) = length (header_bytes f)"
    by (simp add: frame_header_def)
  ultimately show ?thesis
    using h len header_to_frame_header [of f]
    by (simp add: FrameDecoder_step_def buf frame_bytes_def Let_def)
qed

lemma FrameDecoder_parse_frames:
  assumes "list_all frame_ok fs" and "\<forall>f \<in> set fs. length (f_payload f) \<le> unat (fd_max_payload d)"
    and "fd_buffer d = concat (map frame_bytes fs)"
  shows "FrameDecoder_parse d = d\<lparr>fd_ready := fd_ready d @ fs, fd_buffer := []\<rparr>"
  using assms
proof (induction fs arbitrary: d)
  case Nil
  then have "FrameDecoder_step d = (d, False)"
    by (simp add: FrameDecoder_step_def parse_header_def take_varint_def varint_decode_def)
  with Nil.prems show ?case
    by (simp add: FrameDecoder_parse.simps [of d])
next
  case (Cons f fs)
  let ?d = "d\<lparr>fd_ready := fd_ready d @ [f], fd_buffer := concat (map frame_bytes fs)\<rparr>"
  have "FrameDecoder_step d = (?d, True)"
    using Cons.prems by (intro FrameDecoder_step_frame) simp_all
  moreover have "FrameDecoder_parse ?d = ?d\<lparr>fd_ready := fd_ready ?d @ fs, fd_buffer := []\<rparr>"
    using Cons.prems by (intro Cons.IH) simp_all
  ultimately show ?case by (simp add: FrameDecoder_parse.simps [of d])
qed

text \<open>What a header that is not complete yet says about the length of the input.\<close>

lemma varint_decode_None: "varint_decode inp = None \<Longrightarrow> length inp < 8"
  using varint_len_cases [of "inp ! 0"]
  by (auto simp: varint_decode_def Let_def split: if_splits)

lemma take_varint_None: "take_varint data off = None \<Longrightarrow> length data < off + 8"
  using varint_decode_None [of "drop off data"] by (auto simp: take_varint_def split: option.splits)

lemma take_varint_step: "take_varint data off = Some (v, off') \<Longrightarrow> off' \<le> off + 8"
  using varint_decode_value(1) [of "drop off data" v "off' - off"]
  by (auto simp: take_varint_def split: option.splits)

lemma parse_header_None: "parse_header data = None \<Longrightarrow> length data \<le> 40"
  by (auto simp: parse_header_def dest!: take_varint_None take_varint_step
      split: Option.bind_splits if_splits)

lemma parse_header_consumed: "parse_header data = Some h \<Longrightarrow> h_consumed h \<le> 41"
  by (auto simp: parse_header_def bind_eq_Some_conv dest!: take_varint_step split: if_splits)

section \<open>The decoder's invariant\<close>

definition FrameDecoder_inv :: "FrameDecoder \<Rightarrow> bool" where
  "FrameDecoder_inv d \<longleftrightarrow>
     (\<forall>f \<in> set (fd_ready d). f_payload f \<noteq> [] \<and> length (f_payload f) \<le> unat (fd_max_payload d))
     \<and> (fd_malformed d \<longrightarrow> fd_buffer d = [])
     \<and> length (fd_buffer d) \<le> 40 + unat (fd_max_payload d)"

lemma FrameDecoder_step_max [simp]: "fd_max_payload (fst (FrameDecoder_step d)) = fd_max_payload d"
  by (auto simp: FrameDecoder_step_def Let_def split: option.splits)

lemma FrameDecoder_parse_inv:
  assumes "\<forall>f \<in> set (fd_ready d). f_payload f \<noteq> [] \<and> length (f_payload f) \<le> unat (fd_max_payload d)"
    and "\<not> fd_malformed d"
  shows "FrameDecoder_inv (FrameDecoder_parse d) \<and> fd_max_payload (FrameDecoder_parse d) = fd_max_payload d"
  using assms
proof (induction d rule: FrameDecoder_parse.induct)
  case (1 d)
  obtain d' go where st: "FrameDecoder_step d = (d', go)" by (cases "FrameDecoder_step d")
  show ?case
  proof (cases go)
    case True
    have "\<forall>f \<in> set (fd_ready d'). f_payload f \<noteq> [] \<and> length (f_payload f) \<le> unat (fd_max_payload d')"
      and "\<not> fd_malformed d'" and "fd_max_payload d' = fd_max_payload d"
      using st True "1.prems"
      by (auto simp: FrameDecoder_step_def Let_def not_less word_le_nat_alt unat_eq_zero
          split: option.splits if_splits)
    with "1.IH" st True show ?thesis by (simp add: FrameDecoder_parse.simps [of d])
  next
    case False
    have "FrameDecoder_inv d' \<and> fd_max_payload d' = fd_max_payload d"
      using st False "1.prems"
      by (auto simp: FrameDecoder_inv_def FrameDecoder_step_def Let_def word_le_nat_alt not_less
          dest: parse_header_None parse_header_consumed split: option.splits if_splits)
    with st False show ?thesis by (simp add: FrameDecoder_parse.simps [of d])
  qed
qed

lemma FrameDecoder_feed_inv [inv_intros]:
  "FrameDecoder_inv d \<Longrightarrow> FrameDecoder_inv (FrameDecoder_feed data d)"
  using FrameDecoder_parse_inv [of "FrameDecoder_extend data d"]
  by (auto simp: FrameDecoder_feed_def FrameDecoder_inv_def)

lemma FrameDecoder_next_inv [inv_intros]:
  "FrameDecoder_inv d \<Longrightarrow> FrameDecoder_inv (snd (FrameDecoder_next d))"
  by (auto simp: FrameDecoder_next_def FrameDecoder_inv_def split: list.splits)

lemma FrameDecoder_new_inv [inv_intros]: "FrameDecoder_inv (FrameDecoder_new m)"
  by (simp add: FrameDecoder_inv_def FrameDecoder_new_def)

section \<open>Properties\<close>

text \<open>A concrete frame for the witnesses.\<close>

definition sample_frame :: Frame where
  "sample_frame = \<lparr>f_flow_id = 1, f_timestamp = 70000, f_message_type = 9,
     f_message_stream_id = 1, f_chunk_stream_id = 6, f_payload = [0x17, 0x01, 0x42]\<rparr>"

lemma sample_frame_ok: "frame_ok sample_frame"
  by (simp add: frame_ok_def sample_frame_def kVarintMax_eq)

text \<open>
  \<open>frame_encode\<close> succeeds exactly when the payload is not empty and every varint field
  (the payload length included) is at most \<open>kVarintMax\<close>; it then appends to the output, and
  otherwise it leaves the output untouched.
\<close>

theorem frame_encode_total:
  assumes "length (f_payload f) < 2 ^ 64"
  shows "(if frame_ok f then \<exists>bs. bs \<noteq> [] \<and> frame_encode f out = (True, out @ bs)
          else frame_encode f out = (False, out))"
  using frame_encode_eq [OF assms] by (auto simp: frame_bytes_def frame_ok_def)

text \<open>
  Datagram round trip: what \<open>frame_encode\<close> appends decodes as a datagram to the same
  frame, whatever the output frame held before; cut short anywhere, or followed by further
  bytes, it is malformed and the output frame is untouched.
\<close>

lemma datagram_roundtrip:
  assumes ok: "frame_ok f"
  shows "\<exists>bs. frame_encode f out = (True, out @ bs) \<and> datagram_decode bs g = (Ok, f)
     \<and> (\<forall>k < length bs. datagram_decode (take k bs) g = (Malformed, g))
     \<and> (\<forall>x xs. datagram_decode (bs @ x # xs) g = (Malformed, g))"
proof (intro exI [of _ "frame_bytes f"] conjI allI impI)
  show "frame_encode f out = (True, out @ frame_bytes f)" by (rule frame_encode_ok [OF ok])
  have len: "unat (h_payload_length (frame_header f)) = length (f_payload f)"
    using unat_payload_length [OF ok] by (simp add: frame_header_def)
  then have nz: "h_payload_length (frame_header f) \<noteq> 0"
    using ok by (metis frame_ok_def length_0_conv unsigned_0)
  have c: "h_consumed (frame_header f) = length (header_bytes f)" by (simp add: frame_header_def)
  have h: "parse_header (frame_bytes f @ ext) = Some (frame_header f)" for ext
    using parse_header_bytes [OF ok] by (simp add: frame_bytes_def)
  show "datagram_decode (frame_bytes f) g = (Ok, f)"
    using h [of "[]"] nz len c header_to_frame_header [of f g]
    by (simp add: datagram_decode_def frame_bytes_def)
  show "datagram_decode (frame_bytes f @ x # xs) g = (Malformed, g)" for x xs
    using h [of "x # xs"] nz len c by (simp add: datagram_decode_def frame_bytes_def)
  show "datagram_decode (take k (frame_bytes f)) g = (Malformed, g)" if "k < length (frame_bytes f)" for k
  proof (cases "parse_header (take k (frame_bytes f))")
    case None
    then show ?thesis by (simp add: datagram_decode_def)
  next
    case (Some h')
    then have "parse_header (take k (frame_bytes f) @ drop k (frame_bytes f)) = Some h'"
      by (rule parse_header_append)
    then have "h' = frame_header f" using h [of "[]"] by simp
    moreover have "h_consumed h' \<le> k"
      using parse_header_bounds [OF Some] that by simp
    ultimately show ?thesis
      using Some that len c nz by (auto simp: datagram_decode_def frame_bytes_def)
  qed
qed

lemma feed_encoded_frames:
  assumes ok: "list_all frame_ok fs" and max: "\<forall>f \<in> set fs. length (f_payload f) \<le> unat m"
    and enc: "concat ds = fold (\<lambda>f out. snd (frame_encode f out)) fs []"
  shows "fold FrameDecoder_feed ds (FrameDecoder_new m)
     = \<lparr>fd_buffer = [], fd_ready = fs, fd_max_payload = m, fd_malformed = False\<rparr>"
proof -
  have cut: "concat ds = concat (map frame_bytes fs)"
    using enc ok by (simp add: frame_encode_all)
  have feed: "FrameDecoder_feed (concat ds) (FrameDecoder_new m)
      = \<lparr>fd_buffer = [], fd_ready = fs, fd_max_payload = m, fd_malformed = False\<rparr>"
    using ok max cut
    by (simp add: FrameDecoder_feed_def FrameDecoder_new_def FrameDecoder_parse_frames)
  show ?thesis
  proof (cases "ds = []")
    case True
    with cut have "concat (map frame_bytes fs) = []" by simp
    with ok have "fs = []" by (cases fs) (auto simp: frame_bytes_def frame_ok_def)
    with True show ?thesis by (simp add: FrameDecoder_new_def)
  next
    case False
    with feed show ?thesis by (simp add: frame_decoder.feed_fragments)
  qed
qed

text \<open>
  C4. Stream round trip under any fragmentation: however the bytes of a sequence of encoded
  frames (\<open>frame_encode\<close> appending one after the other to the same output) are cut into
  \<open>feed\<close> calls, the decoder ends with exactly those frames ready, in order, with an empty
  buffer and not malformed.
\<close>

theorem stream_roundtrip:
  assumes "list_all frame_ok fs" and "\<forall>f \<in> set fs. length (f_payload f) \<le> unat m"
    and "concat ds = fold (\<lambda>f out. snd (frame_encode f out)) fs []"
  shows "fold FrameDecoder_feed ds (FrameDecoder_new m)
     = \<lparr>fd_buffer = [], fd_ready = fs, fd_max_payload = m, fd_malformed = False\<rparr>"
  using assms by (rule feed_encoded_frames)

theorem stream_roundtrip_witness:
  "fold FrameDecoder_feed [take 3 (frame_bytes sample_frame), drop 3 (frame_bytes sample_frame)]
     (FrameDecoder_new kDefaultMaxPayload)
   = \<lparr>fd_buffer = [], fd_ready = [sample_frame], fd_max_payload = kDefaultMaxPayload, fd_malformed = False\<rparr>"
  by (rule stream_roundtrip)
    (simp_all add: sample_frame_ok frame_encode_ok, simp add: sample_frame_def kDefaultMaxPayload_def)

datatype decoder_call = Feed bytes | Next

fun run_decoder_call :: "decoder_call \<Rightarrow> FrameDecoder \<Rightarrow> FrameDecoder" where
  "run_decoder_call (Feed data) d = FrameDecoder_feed data d"
| "run_decoder_call Next d = snd (FrameDecoder_next d)"

interpretation decoder_calls: guarded_ops run_decoder_call FrameDecoder_inv
proof
  fix d c assume "FrameDecoder_inv d"
  then show "FrameDecoder_inv (run_decoder_call c d)" by (cases c) (simp_all add: inv_intros)
qed

text \<open>
  C36. Resource guard: through any sequence of \<open>feed\<close> and \<open>next\<close> calls, every frame ready for
  delivery has a payload of 1 to \<open>max_payload\<close> bytes, a malformed decoder holds no bytes, and
  the reassembly buffer never holds more than the largest header prefix (40 bytes) plus
  \<open>max_payload\<close> bytes after a call.
\<close>

theorem frame_decoder_bounded: "FrameDecoder_inv (fold run_decoder_call cs (FrameDecoder_new m))"
  by (rule decoder_calls.ops_keep) (rule FrameDecoder_new_inv)

end
