(* ===== verification/Flow_Table.thy ===== *)
theory Flow_Table
  imports Frame_Codec
begin

text \<open>
  \<^verbatim>\<open>core/include/roqr/flow_table.hpp\<close> and \<^verbatim>\<open>core/src/flow_table.cpp\<close>: the life cycle of Flow
  IDs and the bounded buffer for frames of flows that are not active yet. The octet counter
  is a \<open>size_t\<close>: its arithmetic is written with the wrap-around of the machine, and the
  invariant shows that it never wraps.
\<close>

section \<open>The code\<close>

datatype FlowState = Unknown | Active | Retired

record FlowTableLimits =
  max_unknown_frames :: nat
  max_unknown_octets :: nat

definition default_flow_limits :: FlowTableLimits where
  "default_flow_limits = \<lparr>max_unknown_frames = 32, max_unknown_octets = 256 * 1024\<rparr>"

record FlowTable =
  ft_limits :: FlowTableLimits
  ft_states :: "u64 \<rightharpoonup> FlowState"
  ft_unknown :: "Frame list"
  ft_unknown_octets :: nat

definition FlowTable_new :: "FlowTableLimits \<Rightarrow> FlowTable" where
  "FlowTable_new limits =
     \<lparr>ft_limits = limits, ft_states = [0 \<mapsto> Active], ft_unknown = [], ft_unknown_octets = 0\<rparr>"

definition flow_activate :: "u64 \<Rightarrow> FlowTable \<Rightarrow> bool \<times> FlowTable" where
  "flow_activate fid t =
     (if ft_states t fid = Some Retired then (False, t)
      else (True, t\<lparr>ft_states := (ft_states t)(fid \<mapsto> Active)\<rparr>))"

definition flow_state :: "FlowTable \<Rightarrow> u64 \<Rightarrow> FlowState" where
  "flow_state t fid = (case ft_states t fid of None \<Rightarrow> Unknown | Some s \<Rightarrow> s)"

datatype BufferResult = Buffered | LimitExceeded

definition buffer_unknown :: "Frame \<Rightarrow> FlowTable \<Rightarrow> BufferResult \<times> FlowTable" where
  "buffer_unknown f t =
     (if max_unknown_frames (ft_limits t) \<le> length (ft_unknown t)
       \<or> size_sub (max_unknown_octets (ft_limits t)) (ft_unknown_octets t) < length (f_payload f)
      then (LimitExceeded, t)
      else (Buffered, t\<lparr>ft_unknown_octets := (ft_unknown_octets t + length (f_payload f)) mod 2 ^ 64,
                        ft_unknown := ft_unknown t @ [f]\<rparr>))"

text \<open>The iterator loop of \<open>take_buffered\<close>: frames taken, frames kept, octets left.\<close>

fun take_buffered_loop :: "u64 \<Rightarrow> Frame list \<Rightarrow> nat \<Rightarrow> Frame list \<times> Frame list \<times> nat" where
  "take_buffered_loop fid [] octets = ([], [], octets)"
| "take_buffered_loop fid (f # fs) octets =
     (if f_flow_id f = fid
      then (case take_buffered_loop fid fs (size_sub octets (length (f_payload f))) of
              (out, kept, left) \<Rightarrow> (f # out, kept, left))
      else (case take_buffered_loop fid fs octets of
              (out, kept, left) \<Rightarrow> (out, f # kept, left)))"

definition take_buffered :: "u64 \<Rightarrow> FlowTable \<Rightarrow> Frame list \<times> FlowTable" where
  "take_buffered fid t =
     (case take_buffered_loop fid (ft_unknown t) (ft_unknown_octets t) of
        (out, kept, left) \<Rightarrow> (out, t\<lparr>ft_unknown := kept, ft_unknown_octets := left\<rparr>))"

definition flow_retire :: "u64 \<Rightarrow> FlowTable \<Rightarrow> FlowTable" where
  "flow_retire fid t = snd (take_buffered fid (t\<lparr>ft_states := (ft_states t)(fid \<mapsto> Retired)\<rparr>))"

text \<open>The calls a transport makes on the table, for statements about whole histories.\<close>

datatype flow_call = Activate u64 | Retire u64 | Buffer Frame | Take u64

fun run_flow_call :: "flow_call \<Rightarrow> FlowTable \<Rightarrow> FlowTable" where
  "run_flow_call (Activate fid) t = snd (flow_activate fid t)"
| "run_flow_call (Retire fid) t = flow_retire fid t"
| "run_flow_call (Buffer f) t = snd (buffer_unknown f t)"
| "run_flow_call (Take fid) t = snd (take_buffered fid t)"

section \<open>The invariant\<close>

definition buffered_octets :: "Frame list \<Rightarrow> nat" where
  "buffered_octets fs = sum_list (map (\<lambda>f. length (f_payload f)) fs)"

lemma buffered_octets_simps [simp]:
  "buffered_octets [] = 0"
  "buffered_octets (f # fs) = length (f_payload f) + buffered_octets fs"
  "buffered_octets (fs @ gs) = buffered_octets fs + buffered_octets gs"
  by (simp_all add: buffered_octets_def)

definition flow_table_inv :: "FlowTable \<Rightarrow> bool" where
  "flow_table_inv t \<longleftrightarrow>
     ft_unknown_octets t = buffered_octets (ft_unknown t)
     \<and> ft_unknown_octets t \<le> max_unknown_octets (ft_limits t)
     \<and> max_unknown_octets (ft_limits t) < 2 ^ 64
     \<and> length (ft_unknown t) \<le> max_unknown_frames (ft_limits t)"

lemma buffered_octets_filter_le: "buffered_octets (filter P fs) \<le> buffered_octets fs"
  by (induction fs) simp_all

lemma take_buffered_loop_spec:
  assumes "rest + buffered_octets fs < 2 ^ 64"
  shows "take_buffered_loop fid fs (rest + buffered_octets fs) =
    (filter (\<lambda>f. f_flow_id f = fid) fs, filter (\<lambda>f. f_flow_id f \<noteq> fid) fs,
     rest + buffered_octets (filter (\<lambda>f. f_flow_id f \<noteq> fid) fs))"
  using assms
proof (induction fs arbitrary: rest)
  case Nil
  show ?case by simp
next
  case (Cons f fs)
  have "size_sub (rest + buffered_octets (f # fs)) (length (f_payload f)) = rest + buffered_octets fs"
    using Cons.prems by (subst size_sub_exact) simp_all
  with Cons.IH [of rest] Cons.IH [of "rest + length (f_payload f)"] Cons.prems show ?case
    by (simp add: add.assoc)
qed

lemma take_buffered_spec:
  assumes "flow_table_inv t"
  shows "take_buffered fid t =
    (filter (\<lambda>f. f_flow_id f = fid) (ft_unknown t),
     t\<lparr>ft_unknown := filter (\<lambda>f. f_flow_id f \<noteq> fid) (ft_unknown t),
       ft_unknown_octets := buffered_octets (filter (\<lambda>f. f_flow_id f \<noteq> fid) (ft_unknown t))\<rparr>)"
proof -
  have "ft_unknown_octets t = 0 + buffered_octets (ft_unknown t)"
    and "0 + buffered_octets (ft_unknown t) < 2 ^ 64"
    using assms unfolding flow_table_inv_def by linarith+
  with take_buffered_loop_spec [of 0 "ft_unknown t" fid] show ?thesis
    by (simp add: take_buffered_def)
qed

lemma buffer_unknown_spec:
  assumes "flow_table_inv t"
  shows "buffer_unknown f t =
    (if length (ft_unknown t) < max_unknown_frames (ft_limits t)
      \<and> ft_unknown_octets t + length (f_payload f) \<le> max_unknown_octets (ft_limits t)
     then (Buffered, t\<lparr>ft_unknown_octets := ft_unknown_octets t + length (f_payload f),
                       ft_unknown := ft_unknown t @ [f]\<rparr>)
     else (LimitExceeded, t))"
proof -
  have "size_sub (max_unknown_octets (ft_limits t)) (ft_unknown_octets t)
      = max_unknown_octets (ft_limits t) - ft_unknown_octets t"
    using assms by (intro size_sub_exact) (simp_all add: flow_table_inv_def)
  then show ?thesis
    using assms by (auto simp: buffer_unknown_def flow_table_inv_def)
qed

lemma flow_activate_inv [inv_intros]: "flow_table_inv t \<Longrightarrow> flow_table_inv (snd (flow_activate fid t))"
  by (simp add: flow_activate_def flow_table_inv_def)

lemma buffer_unknown_inv [inv_intros]: "flow_table_inv t \<Longrightarrow> flow_table_inv (snd (buffer_unknown f t))"
  by (auto simp: buffer_unknown_spec flow_table_inv_def)

lemma take_buffered_inv [inv_intros]: "flow_table_inv t \<Longrightarrow> flow_table_inv (snd (take_buffered fid t))"
  using buffered_octets_filter_le [of "\<lambda>f. f_flow_id f \<noteq> fid" "ft_unknown t"]
  by (auto simp: take_buffered_spec flow_table_inv_def intro: le_trans [OF length_filter_le])

lemma flow_retire_inv [inv_intros]: "flow_table_inv t \<Longrightarrow> flow_table_inv (flow_retire fid t)"
  unfolding flow_retire_def by (rule take_buffered_inv) (simp add: flow_table_inv_def)

lemma FlowTable_new_inv [inv_intros]:
  "max_unknown_octets l < 2 ^ 64 \<Longrightarrow> flow_table_inv (FlowTable_new l)"
  by (simp add: flow_table_inv_def FlowTable_new_def)

interpretation flow_calls: guarded_ops run_flow_call flow_table_inv
proof
  fix t c assume "flow_table_inv t"
  then show "flow_table_inv (run_flow_call c t)" by (cases c) (simp_all add: inv_intros)
qed

section \<open>States\<close>

lemma take_buffered_states [simp]: "ft_states (snd (take_buffered fid t)) = ft_states t"
  by (simp add: take_buffered_def split: prod.splits)

lemma flow_retire_state [simp]: "ft_states (flow_retire fid t) = (ft_states t)(fid \<mapsto> Retired)"
  by (simp add: flow_retire_def)

lemma buffer_unknown_states [simp]: "ft_states (snd (buffer_unknown f t)) = ft_states t"
  by (simp add: buffer_unknown_def)

lemma run_flow_call_retired:
  "ft_states t fid = Some Retired \<Longrightarrow> ft_states (run_flow_call c t) fid = Some Retired"
  by (cases c) (auto simp: flow_activate_def)

interpretation retired_flow: guarded_ops run_flow_call "\<lambda>t. ft_states t fid = Some Retired" for fid
  by unfold_locales (rule run_flow_call_retired)

section \<open>Properties\<close>



text \<open>
  Flow IDs are never reused: once a flow has been retired it stays retired through every
  later sequence of calls, and activating it again is refused and changes nothing.
\<close>

theorem flow_never_reused:
  "flow_state (fold run_flow_call cs (flow_retire fid t)) fid = Retired
   \<and> flow_activate fid (fold run_flow_call cs (flow_retire fid t))
       = (False, fold run_flow_call cs (flow_retire fid t))"
proof -
  have "ft_states (fold run_flow_call cs (flow_retire fid t)) fid = Some Retired"
    by (rule retired_flow.ops_keep) simp
  then show ?thesis by (simp add: flow_state_def flow_activate_def)
qed

lemma fold_buffer_unknown:
  assumes "flow_table_inv t"
    and "length (ft_unknown t) + length fs \<le> max_unknown_frames (ft_limits t)"
    and "ft_unknown_octets t + buffered_octets fs \<le> max_unknown_octets (ft_limits t)"
  shows "fold (\<lambda>f t. snd (buffer_unknown f t)) fs t =
    t\<lparr>ft_unknown := ft_unknown t @ fs, ft_unknown_octets := ft_unknown_octets t + buffered_octets fs\<rparr>"
  using assms
proof (induction fs arbitrary: t)
  case Nil
  show ?case by simp
next
  case (Cons f fs)
  let ?t = "snd (buffer_unknown f t)"
  have t: "?t = t\<lparr>ft_unknown_octets := ft_unknown_octets t + length (f_payload f),
                  ft_unknown := ft_unknown t @ [f]\<rparr>"
    using Cons.prems by (simp add: buffer_unknown_spec)
  have "flow_table_inv ?t" using Cons.prems(1) by (rule buffer_unknown_inv)
  from Cons.IH [OF this] Cons.prems t show ?case by (simp add: add.assoc)
qed

text \<open>
  Buffered frames come back complete and in arrival order: if a run of frames was
  accepted into the buffer, taking a flow returns what was buffered for it before followed by
  exactly its frames of the run, keeps every other flow's frames in order, and gives back
  their octets.
\<close>

theorem buffered_frames_order:
  assumes "flow_table_inv t"
    and "length (ft_unknown t) + length fs \<le> max_unknown_frames (ft_limits t)"
    and "ft_unknown_octets t + buffered_octets fs \<le> max_unknown_octets (ft_limits t)"
  shows "take_buffered fid (fold (\<lambda>f t. snd (buffer_unknown f t)) fs t) =
    (filter (\<lambda>f. f_flow_id f = fid) (ft_unknown t) @ filter (\<lambda>f. f_flow_id f = fid) fs,
     t\<lparr>ft_unknown := filter (\<lambda>f. f_flow_id f \<noteq> fid) (ft_unknown t @ fs),
       ft_unknown_octets := buffered_octets (filter (\<lambda>f. f_flow_id f \<noteq> fid) (ft_unknown t @ fs))\<rparr>)"
proof -
  have "flow_table_inv (t\<lparr>ft_unknown := ft_unknown t @ fs,
      ft_unknown_octets := ft_unknown_octets t + buffered_octets fs\<rparr>)"
    using assms by (simp add: flow_table_inv_def)
  from take_buffered_spec [OF this] show ?thesis
    by (simp add: fold_buffer_unknown [OF assms])
qed

end
