(* ===== verification/Delivery.thy ===== *)
theory Delivery
  imports Frame_Codec
begin

text \<open>
  \<^verbatim>\<open>quic/src/delivery.cpp\<close> and \<^verbatim>\<open>quic/include/roqr/quic/outbound_queue.hpp\<close>: the choice between
  stream and DATAGRAM carriage, and the queue between the application threads and the
  network thread. The mutex of \<open>OutboundQueue\<close> makes each operation atomic; the model has
  one definition per operation.
\<close>

section \<open>The code\<close>

datatype DeliveryMode = Mode_Stream | Mode_Datagram | Mode_Auto

datatype DatagramFallback = Fallback_Stream | Fallback_Drop

datatype ResolvedMode = Resolved_Stream | Resolved_Datagram | Resolved_Dropped

definition is_media_type :: "byte \<Rightarrow> bool" where
  "is_media_type message_type \<longleftrightarrow> message_type = 8 \<or> message_type = 9 \<or> message_type = 22"

definition resolve_delivery ::
  "byte \<Rightarrow> DeliveryMode \<Rightarrow> bool \<Rightarrow> nat \<Rightarrow> nat \<Rightarrow> DatagramFallback \<Rightarrow> ResolvedMode" where
  "resolve_delivery message_type requested negotiated encoded_size max_datagram_size fallback =
     (if requested = Mode_Stream then Resolved_Stream
      else let fits = (negotiated \<and> encoded_size \<le> max_datagram_size) in
        if requested = Mode_Datagram then
          (if fits then Resolved_Datagram
           else if fallback = Fallback_Stream then Resolved_Stream else Resolved_Dropped)
        else if is_media_type message_type \<and> fits then Resolved_Datagram
        else Resolved_Stream)"

record Outbound =
  ob_frame :: Frame
  ob_mode :: DeliveryMode

record OutboundQueue =
  oq_items :: "Outbound list"

definition outbound_push :: "Outbound \<Rightarrow> OutboundQueue \<Rightarrow> OutboundQueue" where
  "outbound_push item q = q\<lparr>oq_items := oq_items q @ [item]\<rparr>"

definition outbound_pop :: "OutboundQueue \<Rightarrow> Outbound option \<times> OutboundQueue" where
  "outbound_pop q =
     (case oq_items q of [] \<Rightarrow> (None, q) | item # rest \<Rightarrow> (Some item, q\<lparr>oq_items := rest\<rparr>))"

definition outbound_size :: "OutboundQueue \<Rightarrow> nat" where
  "outbound_size q = length (oq_items q)"

section \<open>Properties\<close>

interpretation outbound_queue: fifo outbound_push outbound_pop oq_items
  by unfold_locales (simp_all add: outbound_push_def outbound_pop_def)

text \<open>
  The carriage policy: a frame goes in a datagram only if the extension was negotiated,
  the encoded frame fits, and it was asked for or is media sent in Auto mode; it is dropped
  exactly when Datagram mode was asked for, it does not fit and the fallback says so; in
  every other case, and always for Auto messages that are not audio, video or aggregate, it
  goes on a stream.
\<close>

theorem resolve_delivery_policy:
  "(resolve_delivery ty req neg sz mx fb = Resolved_Datagram) =
     (neg \<and> sz \<le> mx \<and> (req = Mode_Datagram \<or> req = Mode_Auto \<and> is_media_type ty))
   \<and> (resolve_delivery ty req neg sz mx fb = Resolved_Dropped) =
     (req = Mode_Datagram \<and> \<not> (neg \<and> sz \<le> mx) \<and> fb = Fallback_Drop)
   \<and> (resolve_delivery ty req neg sz mx fb = Resolved_Stream) =
     (req = Mode_Stream
      \<or> req = Mode_Datagram \<and> \<not> (neg \<and> sz \<le> mx) \<and> fb = Fallback_Stream
      \<or> req = Mode_Auto \<and> \<not> (ty \<in> {8, 9, 22} \<and> neg \<and> sz \<le> mx))"
  by (cases req; cases fb) (auto simp: resolve_delivery_def is_media_type_def Let_def)

end
