(* ===== verification/Client.thy ===== *)
theory Client
  imports Flow_Table Delivery
begin

text \<open>
  \<^verbatim>\<open>quic/src/client.cpp\<close> with \<^verbatim>\<open>core/src/error.cpp\<close>: the RoQR client over picoquic.

  The client's object is one record. The calls it makes on picoquic and the handlers it invokes
  are appended to a log of effects, \<open>qc_log\<close>. What picoquic answers is a parameter of the
  operations that ask (record \<open>pico\<close>): the id of the \<open>k\<close>-th stream it opens and whether the \<open>k\<close>-th
  datagram could be queued; the counters of these calls are kept beside the log. Pointers are
  whether they are set. The network thread's callbacks and the application's calls each are one
  step: they touch shared fields only under the mutex, and the application's calls only append
  to queues that the network thread empties.
\<close>

section \<open>Error codes\<close>

text \<open>The enumerators; any other value of the underlying type is \<open>OtherError\<close>.\<close>

datatype ErrorCode = NoError | GeneralError | InternalError | FrameEncodingError
  | StreamCreationError | FrameCancelled | UnknownFlowId | ExpectationUnmet | OtherError u64

fun error_value :: "ErrorCode \<Rightarrow> u64" where
  "error_value NoError = 0x00"
| "error_value GeneralError = 0x01"
| "error_value InternalError = 0x02"
| "error_value FrameEncodingError = 0x03"
| "error_value StreamCreationError = 0x04"
| "error_value FrameCancelled = 0x05"
| "error_value UnknownFlowId = 0x06"
| "error_value ExpectationUnmet = 0x07"
| "error_value (OtherError v) = v"

fun error_to_string :: "ErrorCode \<Rightarrow> string" where
  "error_to_string NoError = ''NO_ERROR''"
| "error_to_string GeneralError = ''GENERAL_ERROR''"
| "error_to_string InternalError = ''INTERNAL_ERROR''"
| "error_to_string FrameEncodingError = ''FRAME_ENCODING_ERROR''"
| "error_to_string StreamCreationError = ''STREAM_CREATION_ERROR''"
| "error_to_string FrameCancelled = ''FRAME_CANCELLED''"
| "error_to_string UnknownFlowId = ''UNKNOWN_FLOW_ID''"
| "error_to_string ExpectationUnmet = ''EXPECTATION_UNMET''"
| "error_to_string (OtherError v) = ''UNKNOWN''"

section \<open>The object\<close>

datatype effect =
    Eff_Deliver Frame               \<comment> \<open>\<^verbatim>\<open>message_handler(frame)\<close>\<close>
  | Eff_Closed u64                  \<comment> \<open>\<^verbatim>\<open>closed_handler(code)\<close>\<close>
  | Eff_Close u64                   \<comment> \<open>\<^verbatim>\<open>picoquic_close\<close>\<close>
  | Eff_Reset_Stream u64 u64        \<comment> \<open>\<^verbatim>\<open>picoquic_reset_stream\<close>\<close>
  | Eff_Add_To_Stream u64 bytes     \<comment> \<open>\<^verbatim>\<open>picoquic_add_to_stream\<close>\<close>
  | Eff_Datagram bytes              \<comment> \<open>\<^verbatim>\<open>picoquic_queue_datagram_frame\<close> returned 0\<close>
  | Eff_Datagram_Refused bytes      \<comment> \<open>it returned something else\<close>
  | Eff_Null_Verifier               \<comment> \<open>\<^verbatim>\<open>picoquic_set_null_verifier\<close>\<close>
  | Eff_Idle_Timeout u64            \<comment> \<open>\<^verbatim>\<open>picoquic_set_default_idle_timeout\<close>, ms\<close>
  | Eff_Handshake_Timeout u64       \<comment> \<open>\<^verbatim>\<open>picoquic_set_default_handshake_timeout\<close>, us\<close>
  | Eff_Keep_Alive u64              \<comment> \<open>\<^verbatim>\<open>picoquic_enable_keep_alive\<close>\<close>
  | Eff_Wake                        \<comment> \<open>\<^verbatim>\<open>picoquic_wake_up_network_thread\<close>\<close>

record pico =
  pico_stream_id :: "nat \<Rightarrow> u64"
  pico_datagram_ok :: "nat \<Rightarrow> bool"

record ClientOptions =
  co_alpn :: string
  co_insecure_skip_verify :: bool
  co_datagram_fallback :: DatagramFallback
  co_flow_limits :: FlowTableLimits
  co_idle_timeout :: int
  co_handshake_timeout :: int

definition default_client_options :: ClientOptions where
  "default_client_options = \<lparr>co_alpn = ''roqr'', co_insecure_skip_verify = True,
     co_datagram_fallback = Fallback_Stream, co_flow_limits = default_flow_limits,
     co_idle_timeout = 15000, co_handshake_timeout = 10000\<rparr>"

record Client =
  qc_options :: ClientOptions
  qc_quic :: bool
  qc_cnx :: bool
  qc_thread_ctx :: bool
  qc_message_handler :: bool
  qc_closed_handler :: bool
  qc_connected :: bool
  qc_closing :: bool
  qc_closed :: bool
  qc_close_code :: u64
  qc_outbound :: OutboundQueue
  qc_close_requested :: bool
  qc_requested_close_code :: u64
  qc_flow_requests :: "(u64 \<times> bool) list"
  qc_reset_requests :: "u64 list"
  qc_flows :: FlowTable
  qc_decoders :: "u64 \<rightharpoonup> FrameDecoder"
  qc_flow_streams :: "u64 \<rightharpoonup> u64"
  qc_started :: bool
  qc_close_performed :: bool
  qc_datagrams_ok :: bool
  qc_max_datagram :: nat
  qc_datagrams_sent :: u64
  qc_dropped_datagrams :: u64
  qc_log :: "effect list"
  qc_opened :: nat
  qc_queued :: nat

definition Client_new :: Client where
  "Client_new = \<lparr>qc_options = default_client_options, qc_quic = False, qc_cnx = False, qc_thread_ctx = False,
     qc_message_handler = False, qc_closed_handler = False,
     qc_connected = False, qc_closing = False, qc_closed = False, qc_close_code = 0,
     qc_outbound = \<lparr>oq_items = []\<rparr>, qc_close_requested = False, qc_requested_close_code = 0,
     qc_flow_requests = [], qc_reset_requests = [], qc_flows = FlowTable_new default_flow_limits,
     qc_decoders = Map.empty, qc_flow_streams = Map.empty, qc_started = False,
     qc_close_performed = False, qc_datagrams_ok = False, qc_max_datagram = 0,
     qc_datagrams_sent = 0, qc_dropped_datagrams = 0, qc_log = [], qc_opened = 0, qc_queued = 0\<rparr>"

definition emit :: "effect \<Rightarrow> Client \<Rightarrow> Client" where
  "emit e c = c\<lparr>qc_log := qc_log c @ [e]\<rparr>"

section \<open>Receiving\<close>

definition stream_for_flow :: "pico \<Rightarrow> u64 \<Rightarrow> Client \<Rightarrow> u64 \<times> Client" where
  "stream_for_flow p flow_id c =
     (case qc_flow_streams c flow_id of
        Some sid \<Rightarrow> (sid, c)
      | None \<Rightarrow>
          (let sid = pico_stream_id p (qc_opened c)
           in (sid, c\<lparr>qc_flow_streams := (qc_flow_streams c)(flow_id \<mapsto> sid), qc_opened := Suc (qc_opened c)\<rparr>)))"

definition deliver :: "Frame \<Rightarrow> Client \<Rightarrow> Client" where
  "deliver frame c = (if qc_message_handler c then emit (Eff_Deliver frame) c else c)"

definition fail_connection :: "ErrorCode \<Rightarrow> Client \<Rightarrow> Client" where
  "fail_connection code c = (if qc_cnx c then emit (Eff_Close (error_value code)) c else c)"

definition gate_and_deliver :: "Frame \<Rightarrow> bool \<Rightarrow> Client \<Rightarrow> Client" where
  "gate_and_deliver frame from_stream c =
     (case flow_state (qc_flows c) (f_flow_id frame) of
        Active \<Rightarrow> deliver frame c
      | Retired \<Rightarrow> c
      | Unknown \<Rightarrow>
          (case buffer_unknown frame (qc_flows c) of
             (res, flows) \<Rightarrow>
               (let c = c\<lparr>qc_flows := flows\<rparr> in
                if res = LimitExceeded \<and> from_stream then fail_connection UnknownFlowId c else c)))"

text \<open>The \<^verbatim>\<open>while (auto frame = decoder.next())\<close> loop.\<close>

function drain_decoder :: "FrameDecoder \<Rightarrow> Client \<Rightarrow> FrameDecoder \<times> Client" where
  "drain_decoder d c =
     (case FrameDecoder_next d of
        (None, d') \<Rightarrow> (d', c)
      | (Some frame, d') \<Rightarrow> drain_decoder d' (gate_and_deliver frame True c))"
  by pat_completeness auto
termination
  by (relation "measure (\<lambda>(d, c). length (fd_ready d))")
    (auto simp: FrameDecoder_next_def split: list.splits)

declare drain_decoder.simps [simp del]

definition on_stream_data :: "u64 \<Rightarrow> bytes \<Rightarrow> bool \<Rightarrow> Client \<Rightarrow> Client" where
  "on_stream_data stream_id bytes fin c =
     (let d = (case qc_decoders c stream_id of Some d \<Rightarrow> d | None \<Rightarrow> FrameDecoder_new kDefaultMaxPayload);
          d = FrameDecoder_feed bytes d
      in case drain_decoder d c of
           (d, c) \<Rightarrow>
             (let c = c\<lparr>qc_decoders := (qc_decoders c)(stream_id \<mapsto> d)\<rparr>;
                  c = (if fd_malformed d then fail_connection FrameEncodingError c else c)
              in if fin then c\<lparr>qc_decoders := (qc_decoders c)(stream_id := None)\<rparr> else c))"

definition signal_connected :: "Client \<Rightarrow> Client" where
  "signal_connected c = c\<lparr>qc_connected := True\<rparr>"

definition signal_closed :: "u64 \<Rightarrow> Client \<Rightarrow> Client" where
  "signal_closed code c =
     (if qc_closed c \<or> qc_closing c then c
      else let c = c\<lparr>qc_closing := True\<rparr>;
               c = (if qc_closed_handler c then emit (Eff_Closed code) c else c)
           in c\<lparr>qc_closed := True, qc_close_code := code\<rparr>)"

text \<open>
  The events of \<open>connection_callback\<close>; with the ready event comes the peer's
  \<open>max_datagram_frame_size\<close>, if its transport parameters are known, and with an application
  close the error picoquic reports.
\<close>

datatype cnx_event =
    Ev_Ready "u64 option"
  | Ev_Close
  | Ev_Application_Close u64
  | Ev_Stream_Data u64 bytes
  | Ev_Stream_Fin u64 bytes
  | Ev_Stream_Reset u64
  | Ev_Stop_Sending u64
  | Ev_Datagram bytes
  | Ev_Other

fun connection_callback :: "cnx_event \<Rightarrow> Client \<Rightarrow> Client" where
  "connection_callback (Ev_Ready tp) c =
     (case tp of
        Some n \<Rightarrow> signal_connected (if 0 < n then c\<lparr>qc_datagrams_ok := True, qc_max_datagram := unat n\<rparr> else c)
      | None \<Rightarrow> signal_connected c)"
| "connection_callback Ev_Close c = signal_closed 0 c"
| "connection_callback (Ev_Application_Close code) c = signal_closed code c"
| "connection_callback (Ev_Stream_Data sid bytes) c = on_stream_data sid bytes False c"
| "connection_callback (Ev_Stream_Fin sid bytes) c = on_stream_data sid bytes True c"
| "connection_callback (Ev_Stream_Reset sid) c = c\<lparr>qc_decoders := (qc_decoders c)(sid := None)\<rparr>"
| "connection_callback (Ev_Stop_Sending sid) c = c\<lparr>qc_decoders := (qc_decoders c)(sid := None)\<rparr>"
| "connection_callback (Ev_Datagram bytes) c =
     (case datagram_decode bytes empty_frame of
        (Ok, frame) \<Rightarrow> gate_and_deliver frame False c
      | _ \<Rightarrow> c)"
| "connection_callback Ev_Other c = c"

section \<open>Sending\<close>

definition service_flow_request :: "u64 \<times> bool \<Rightarrow> Client \<Rightarrow> Client" where
  "service_flow_request req c =
     (if snd req then
        (case flow_activate (fst req) (qc_flows c) of
           (True, flows) \<Rightarrow>
             (case take_buffered (fst req) flows of
                (frames, flows) \<Rightarrow> fold deliver frames (c\<lparr>qc_flows := flows\<rparr>))
         | (False, flows) \<Rightarrow> c\<lparr>qc_flows := flows\<rparr>)
      else c\<lparr>qc_flows := flow_retire (fst req) (qc_flows c)\<rparr>)"

definition service_reset :: "u64 \<Rightarrow> Client \<Rightarrow> Client" where
  "service_reset flow_id c =
     (case qc_flow_streams c flow_id of
        None \<Rightarrow> c
      | Some sid \<Rightarrow>
          (emit (Eff_Reset_Stream sid (error_value FrameCancelled)) c)
            \<lparr>qc_flow_streams := (qc_flow_streams c)(flow_id := None)\<rparr>)"

definition send_on_stream :: "pico \<Rightarrow> u64 \<Rightarrow> bytes \<Rightarrow> Client \<Rightarrow> Client" where
  "send_on_stream p flow_id wire c =
     (case stream_for_flow p flow_id c of (sid, c) \<Rightarrow> emit (Eff_Add_To_Stream sid wire) c)"

definition service_item :: "pico \<Rightarrow> Outbound \<Rightarrow> Client \<Rightarrow> Client" where
  "service_item p item c =
     (case frame_encode (ob_frame item) [] of
        (False, _) \<Rightarrow> c
      | (True, wire) \<Rightarrow>
          (case resolve_delivery (f_message_type (ob_frame item)) (ob_mode item) (qc_datagrams_ok c)
                  (length wire) (qc_max_datagram c) (co_datagram_fallback (qc_options c)) of
             Resolved_Datagram \<Rightarrow>
               (let ok = pico_datagram_ok p (qc_queued c);
                    c = (emit (if ok then Eff_Datagram wire else Eff_Datagram_Refused wire) c)
                          \<lparr>qc_queued := Suc (qc_queued c)\<rparr>
                in if ok then c\<lparr>qc_datagrams_sent := qc_datagrams_sent c + 1\<rparr>
                   else if ob_mode item = Mode_Auto \<or> co_datagram_fallback (qc_options c) = Fallback_Stream
                   then send_on_stream p (f_flow_id (ob_frame item)) wire c
                   else c\<lparr>qc_dropped_datagrams := qc_dropped_datagrams c + 1\<rparr>)
           | Resolved_Stream \<Rightarrow> send_on_stream p (f_flow_id (ob_frame item)) wire c
           | Resolved_Dropped \<Rightarrow> c\<lparr>qc_dropped_datagrams := qc_dropped_datagrams c + 1\<rparr>))"

function service_outbound :: "pico \<Rightarrow> OutboundQueue \<Rightarrow> Client \<Rightarrow> Client" where
  "service_outbound p q c =
     (case outbound_pop q of
        (None, q) \<Rightarrow> c\<lparr>qc_outbound := q\<rparr>
      | (Some item, q) \<Rightarrow> service_outbound p q (service_item p item c))"
  by pat_completeness auto
termination
  by (relation "measure (\<lambda>(p, q, c). length (oq_items q))")
    (auto simp: outbound_pop_def split: list.splits)

declare service_outbound.simps [simp del]

definition service :: "pico \<Rightarrow> Client \<Rightarrow> Client" where
  "service p c =
     (if qc_close_requested c then
        (if \<not> qc_close_performed c \<and> qc_cnx c
         then (emit (Eff_Close (qc_requested_close_code c)) c)\<lparr>qc_close_performed := True\<rparr>
         else c)
      else
        (let requests = qc_flow_requests c;
             c = fold service_flow_request requests (c\<lparr>qc_flow_requests := []\<rparr>);
             resets = qc_reset_requests c;
             c = fold service_reset resets (c\<lparr>qc_reset_requests := []\<rparr>)
         in service_outbound p (qc_outbound c) c))"

datatype loop_event = Loop_Wake_Up | Loop_After_Receive | Loop_After_Send | Loop_Other

fun loop_callback :: "pico \<Rightarrow> loop_event \<Rightarrow> Client \<Rightarrow> Client" where
  "loop_callback p Loop_Wake_Up c = service p c"
| "loop_callback p Loop_After_Receive c = service p c"
| "loop_callback p Loop_After_Send c = service p c"
| "loop_callback p Loop_Other c = c"

section \<open>The application's calls\<close>

definition wake :: "Client \<Rightarrow> Client" where
  "wake c = (if qc_thread_ctx c then emit Eff_Wake c else c)"

definition Client_on_message :: "bool \<Rightarrow> Client \<Rightarrow> Client" where
  "Client_on_message h c = c\<lparr>qc_message_handler := h\<rparr>"

definition Client_on_closed :: "bool \<Rightarrow> Client \<Rightarrow> Client" where
  "Client_on_closed h c = c\<lparr>qc_closed_handler := h\<rparr>"

text \<open>What picoquic and the resolver answer to \<open>connect\<close>.\<close>

record connect_answers =
  ca_context :: bool
  ca_tp_value :: bool
  ca_address :: bool
  ca_cnx :: bool
  ca_thread :: bool

text \<open>\<open>QuicContext::create_client\<close>: the context, or nothing when picoquic cannot create one.\<close>

definition create_client :: "connect_answers \<Rightarrow> bool \<Rightarrow> Client \<Rightarrow> Client" where
  "create_client a insecure_skip_verify c =
     (if \<not> ca_context a then c\<lparr>qc_quic := False\<rparr>
      else (if insecure_skip_verify then emit Eff_Null_Verifier c else c)\<lparr>qc_quic := True\<rparr>)"

definition set_timeouts :: "Client \<Rightarrow> Client" where
  "set_timeouts c =
     (let idle = co_idle_timeout (qc_options c); handshake = co_handshake_timeout (qc_options c);
          c = (if 0 < idle then emit (Eff_Idle_Timeout (word_of_int idle)) c else c)
      in if 0 < handshake then emit (Eff_Handshake_Timeout (word_of_int handshake * 1000)) c else c)"

definition keep_alive :: "Client \<Rightarrow> Client" where
  "keep_alive c = (if 0 < co_idle_timeout (qc_options c) then emit (Eff_Keep_Alive 0) c else c)"

definition Client_connect :: "connect_answers \<Rightarrow> ClientOptions \<Rightarrow> Client \<Rightarrow> bool \<times> Client" where
  "Client_connect a options c =
     (if qc_thread_ctx c then (False, c)
      else let c = create_client a (co_insecure_skip_verify options)
                     (c\<lparr>qc_options := options, qc_flows := FlowTable_new (co_flow_limits options)\<rparr>) in
        if \<not> qc_quic c then (False, c)
        else let c = set_timeouts c in
          if \<not> ca_tp_value a then (False, c)
          else if \<not> ca_address a then (False, c)
          else let c = c\<lparr>qc_cnx := ca_cnx a\<rparr> in
            if \<not> qc_cnx c then (False, c)
            else let c = (keep_alive c)\<lparr>qc_thread_ctx := ca_thread a\<rparr> in
              if \<not> qc_thread_ctx c then (False, c)
              else (True, c\<lparr>qc_started := True\<rparr>))"

text \<open>
  \<open>wait_connected\<close> and \<open>wait_closed\<close> return once their condition holds or the time is up; None is
  a call that is still waiting.
\<close>

definition Client_wait_connected :: "bool \<Rightarrow> Client \<Rightarrow> bool option" where
  "Client_wait_connected timed_out c =
     (if qc_connected c \<or> qc_closed c \<or> timed_out then Some (qc_connected c) else None)"

definition Client_wait_closed :: "bool \<Rightarrow> Client \<Rightarrow> bool option" where
  "Client_wait_closed timed_out c = (if qc_closed c \<or> timed_out then Some (qc_closed c) else None)"

definition Client_datagrams_negotiated :: "Client \<Rightarrow> bool" where
  "Client_datagrams_negotiated c \<longleftrightarrow> qc_connected c \<and> qc_datagrams_ok c"

definition Client_datagrams_sent :: "Client \<Rightarrow> u64" where
  "Client_datagrams_sent c = qc_datagrams_sent c"

definition Client_datagrams_dropped :: "Client \<Rightarrow> u64" where
  "Client_datagrams_dropped c = qc_dropped_datagrams c"

definition Client_send :: "Frame \<Rightarrow> DeliveryMode \<Rightarrow> Client \<Rightarrow> bool \<times> Client" where
  "Client_send frame mode c =
     (if \<not> qc_started c \<or> qc_closed c \<or> qc_close_requested c then (False, c)
      else if f_payload frame = [] then (False, c)
      else (True, wake (c\<lparr>qc_outbound := outbound_push \<lparr>ob_frame = frame, ob_mode = mode\<rparr> (qc_outbound c)\<rparr>)))"

definition Client_bind_flow :: "u64 \<Rightarrow> Client \<Rightarrow> Client" where
  "Client_bind_flow flow_id c = wake (c\<lparr>qc_flow_requests := qc_flow_requests c @ [(flow_id, True)]\<rparr>)"

definition Client_retire_flow :: "u64 \<Rightarrow> Client \<Rightarrow> Client" where
  "Client_retire_flow flow_id c = wake (c\<lparr>qc_flow_requests := qc_flow_requests c @ [(flow_id, False)]\<rparr>)"

definition Client_reset_flow_stream :: "u64 \<Rightarrow> Client \<Rightarrow> Client" where
  "Client_reset_flow_stream flow_id c = wake (c\<lparr>qc_reset_requests := qc_reset_requests c @ [flow_id]\<rparr>)"

definition Client_close :: "ErrorCode \<Rightarrow> Client \<Rightarrow> Client" where
  "Client_close code c =
     wake (c\<lparr>qc_close_requested := True, qc_requested_close_code := error_value code\<rparr>)"

text \<open>
  The destructor: it joins the network thread, silences \<open>signal_closed\<close>, and frees the context,
  whose last event for the connection is a close.
\<close>

definition Client_destroy :: "Client \<Rightarrow> Client" where
  "Client_destroy c =
     (let c = c\<lparr>qc_thread_ctx := False, qc_closed := True\<rparr>;
          c = (if qc_quic c then connection_callback Ev_Close c else c)
      in c\<lparr>qc_quic := False\<rparr>)"

section \<open>Every step of a client\<close>

datatype client_call =
    Call_Event cnx_event
  | Call_Loop loop_event
  | Call_On_Message bool
  | Call_On_Closed bool
  | Call_Connect connect_answers ClientOptions
  | Call_Send Frame DeliveryMode
  | Call_Bind u64
  | Call_Retire u64
  | Call_Reset u64
  | Call_Close ErrorCode
  | Call_Destroy

fun run_client_call :: "pico \<Rightarrow> client_call \<Rightarrow> Client \<Rightarrow> Client" where
  "run_client_call p (Call_Event e) c = connection_callback e c"
| "run_client_call p (Call_Loop e) c = loop_callback p e c"
| "run_client_call p (Call_On_Message h) c = Client_on_message h c"
| "run_client_call p (Call_On_Closed h) c = Client_on_closed h c"
| "run_client_call p (Call_Connect a opts) c = snd (Client_connect a opts c)"
| "run_client_call p (Call_Send f m) c = snd (Client_send f m c)"
| "run_client_call p (Call_Bind f) c = Client_bind_flow f c"
| "run_client_call p (Call_Retire f) c = Client_retire_flow f c"
| "run_client_call p (Call_Reset f) c = Client_reset_flow_stream f c"
| "run_client_call p (Call_Close e) c = Client_close e c"
| "run_client_call p Call_Destroy c = Client_destroy c"

lemmas client_api = Client_on_message_def Client_on_closed_def Client_send_def Client_bind_flow_def Client_retire_flow_def
  Client_reset_flow_stream_def Client_close_def wake_def Let_def

section \<open>The abstract connection\<close>

text \<open>
  What an observer of picoquic and of the handlers can see of a client: the log, the two flags
  that latch the end of the connection, the stream each flow is written on and how many streams
  were opened. The abstract machine below says which changes of this view are allowed;
  \<open>client_refines\<close> shows that every call and callback of the client is a sequence of them.
\<close>

record cnx_view =
  cv_log :: "effect list"
  cv_closing :: bool
  cv_closed :: bool
  cv_streams :: "u64 \<rightharpoonup> u64"
  cv_opened :: nat

definition cnx_of :: "Client \<Rightarrow> cnx_view" where
  "cnx_of c = \<lparr>cv_log = qc_log c, cv_closing = qc_closing c, cv_closed = qc_closed c,
     cv_streams = qc_flow_streams c, cv_opened = qc_opened c\<rparr>"

fun quiet :: "effect \<Rightarrow> bool" where
  "quiet (Eff_Closed code) = False"
| "quiet (Eff_Reset_Stream sid code) = False"
| "quiet (Eff_Add_To_Stream sid wire) = False"
| "quiet e = True"

inductive cnx_step :: "pico \<Rightarrow> cnx_view \<Rightarrow> cnx_view \<Rightarrow> bool" for p where
  note_effect: "quiet e \<Longrightarrow> cnx_step p v (v\<lparr>cv_log := cv_log v @ [e]\<rparr>)"
| end_reported: "\<not> cv_closed v \<Longrightarrow> \<not> cv_closing v \<Longrightarrow>
    cnx_step p v (v\<lparr>cv_log := cv_log v @ [Eff_Closed code], cv_closing := True, cv_closed := True\<rparr>)"
| end_unreported: "\<not> cv_closed v \<Longrightarrow> \<not> cv_closing v \<Longrightarrow>
    cnx_step p v (v\<lparr>cv_closing := True, cv_closed := True\<rparr>)"
| destroyed: "cnx_step p v (v\<lparr>cv_closed := True\<rparr>)"
| opened: "cv_streams v fid = None \<Longrightarrow>
    cnx_step p v (v\<lparr>cv_log := cv_log v @ [Eff_Add_To_Stream (pico_stream_id p (cv_opened v)) wire],
      cv_streams := (cv_streams v)(fid \<mapsto> pico_stream_id p (cv_opened v)), cv_opened := Suc (cv_opened v)\<rparr>)"
| written: "cv_streams v fid = Some sid \<Longrightarrow>
    cnx_step p v (v\<lparr>cv_log := cv_log v @ [Eff_Add_To_Stream sid wire]\<rparr>)"
| was_reset: "cv_streams v fid = Some sid \<Longrightarrow>
    cnx_step p v (v\<lparr>cv_log := cv_log v @ [Eff_Reset_Stream sid code], cv_streams := (cv_streams v)(fid := None)\<rparr>)"

abbreviation refines :: "pico \<Rightarrow> Client \<Rightarrow> Client \<Rightarrow> bool" where
  "refines p c c' \<equiv> (cnx_step p)\<^sup>*\<^sup>* (cnx_of c) (cnx_of c')"

named_theorems refining \<open>operations of the client that refine the abstract connection\<close>

lemma refines_trans: "refines p c1 c2 \<Longrightarrow> refines p c2 c3 \<Longrightarrow> refines p c1 c3"
  by (rule rtranclp_trans)

lemma refines_same: "cnx_of c = cnx_of c' \<Longrightarrow> refines p c c'"
  by simp

lemma refines_step: "cnx_step p (cnx_of c) v \<Longrightarrow> v = cnx_of c' \<Longrightarrow> refines p c c'"
  by (simp add: r_into_rtranclp)

lemma refines_emit [refining]: "quiet e \<Longrightarrow> refines p c (emit e c)"
  by (rule refines_step [OF note_effect [of e]]) (simp_all add: cnx_of_def emit_def)

lemma refines_deliver [refining]: "refines p c (deliver f c)"
  by (simp add: deliver_def refines_emit)

lemma refines_fail [refining]: "refines p c (fail_connection e c)"
  by (simp add: fail_connection_def refines_emit)

lemma cnx_of_flows [simp]: "cnx_of (c\<lparr>qc_flows := t\<rparr>) = cnx_of c"
  and cnx_of_decoders [simp]: "cnx_of (c\<lparr>qc_decoders := d\<rparr>) = cnx_of c"
  and cnx_of_outbound [simp]: "cnx_of (c\<lparr>qc_outbound := q\<rparr>) = cnx_of c"
  and cnx_of_requests [simp]: "cnx_of (c\<lparr>qc_flow_requests := r\<rparr>) = cnx_of c"
  and cnx_of_resets [simp]: "cnx_of (c\<lparr>qc_reset_requests := rr\<rparr>) = cnx_of c"
  and cnx_of_queued [simp]: "cnx_of (c\<lparr>qc_queued := n\<rparr>) = cnx_of c"
  and cnx_of_sent [simp]: "cnx_of (c\<lparr>qc_datagrams_sent := w\<rparr>) = cnx_of c"
  and cnx_of_dropped [simp]: "cnx_of (c\<lparr>qc_dropped_datagrams := w\<rparr>) = cnx_of c"
  and cnx_of_performed [simp]: "cnx_of (c\<lparr>qc_close_performed := b\<rparr>) = cnx_of c"
  by (simp_all add: cnx_of_def)

lemma refines_gate [refining]: "refines p c (gate_and_deliver f b c)"
proof (cases "flow_state (qc_flows c) (f_flow_id f)")
  case Unknown
  obtain res t where "buffer_unknown f (qc_flows c) = (res, t)" by (cases "buffer_unknown f (qc_flows c)")
  with Unknown refines_fail [of p "c\<lparr>qc_flows := t\<rparr>" UnknownFlowId] show ?thesis
    by (simp add: gate_and_deliver_def Let_def)
qed (simp_all add: gate_and_deliver_def refines_deliver)

lemma refines_drain [refining]: "refines p c (snd (drain_decoder d c))"
proof (induction d c rule: drain_decoder.induct)
  case (1 d c)
  obtain r d' where n: "FrameDecoder_next d = (r, d')" by (cases "FrameDecoder_next d")
  show ?case
  proof (cases r)
    case None
    with n show ?thesis by (subst drain_decoder.simps) simp
  next
    case (Some f)
    with 1 n have "refines p (gate_and_deliver f True c) (snd (drain_decoder d' (gate_and_deliver f True c)))"
      by simp
    with refines_gate have "refines p c (snd (drain_decoder d' (gate_and_deliver f True c)))"
      by (rule refines_trans)
    with n Some show ?thesis by (subst drain_decoder.simps) simp
  qed
qed

lemma refines_on_stream_data [refining]: "refines p c (on_stream_data sid bs fin c)"
proof -
  define d where "d = FrameDecoder_feed bs
    (case qc_decoders c sid of Some d \<Rightarrow> d | None \<Rightarrow> FrameDecoder_new kDefaultMaxPayload)"
  obtain d' c' where dr: "drain_decoder d c = (d', c')" by (cases "drain_decoder d c")
  then have "refines p c c'" using refines_drain [of p c d] by simp
  moreover have "refines p c' (fail_connection e (c'\<lparr>qc_decoders := m\<rparr>))" for e m
    using refines_fail [of p "c'\<lparr>qc_decoders := m\<rparr>"] by simp
  ultimately show ?thesis
    unfolding on_stream_data_def Let_def d_def [symmetric] dr by (auto intro: refines_trans)
qed

lemma refines_signal_closed [refining]: "refines p c (signal_closed code c)"
proof (cases "qc_closed c \<or> qc_closing c")
  case False
  show ?thesis
  proof (cases "qc_closed_handler c")
    case True
    with False show ?thesis
      by (intro refines_step [OF end_reported [of _ _ code]])
        (simp_all add: cnx_of_def signal_closed_def Let_def emit_def)
  next
    case False
    with \<open>\<not> (qc_closed c \<or> qc_closing c)\<close> show ?thesis
      by (intro refines_step [OF end_unreported]) (simp_all add: cnx_of_def signal_closed_def Let_def)
  qed
qed (simp add: signal_closed_def)

lemma refines_fold:
  "(\<And>x c. refines p c (f x c)) \<Longrightarrow> refines p c (fold f xs c)"
  by (induction xs arbitrary: c) (auto intro: refines_trans)

lemma refines_event [refining]: "refines p c (connection_callback e c)"
proof (cases e)
  case (Ev_Ready tp)
  then show ?thesis
    by (intro refines_same) (simp add: signal_connected_def cnx_of_def split: option.splits)
next
  case (Ev_Datagram bs)
  then show ?thesis
    by (auto simp: refines_gate split: prod.splits DecodeStatus.splits)
qed (simp_all add: refining)

lemma refines_send_on_stream [refining]: "refines p c (send_on_stream p fid wire c)"
proof (cases "qc_flow_streams c fid")
  case None
  then show ?thesis
    by (intro refines_step [OF opened [of _ fid _ wire]])
      (simp_all add: cnx_of_def send_on_stream_def stream_for_flow_def emit_def Let_def)
next
  case (Some sid)
  then show ?thesis
    by (intro refines_step [OF written [of _ fid sid _ wire]])
      (simp_all add: cnx_of_def send_on_stream_def stream_for_flow_def emit_def)
qed

lemma refines_service_reset [refining]: "refines p c (service_reset fid c)"
proof (cases "qc_flow_streams c fid")
  case (Some sid)
  then show ?thesis
    by (intro refines_step [OF was_reset [of _ fid sid _ "error_value FrameCancelled"]])
      (simp_all add: cnx_of_def service_reset_def emit_def)
qed (simp add: service_reset_def)

lemma refines_flow_request [refining]: "refines p c (service_flow_request req c)"
proof -
  obtain ok t where a: "flow_activate (fst req) (qc_flows c) = (ok, t)"
    by (cases "flow_activate (fst req) (qc_flows c)")
  obtain fs t' where b: "take_buffered (fst req) t = (fs, t')" by (cases "take_buffered (fst req) t")
  show ?thesis
    using a b refines_fold [OF refines_deliver, where xs = fs and c = "c\<lparr>qc_flows := t'\<rparr>" and p = p]
    by (cases ok) (simp_all add: service_flow_request_def)
qed

lemma refines_service_item [refining]: "refines p c (service_item p item c)"
proof -
  obtain ok wire where e: "frame_encode (ob_frame item) [] = (ok, wire)" by (cases "frame_encode (ob_frame item) []")
  have q: "refines p c (send_on_stream p fid wire ((emit x c)\<lparr>qc_queued := n\<rparr>))" if "quiet x" for x n fid
    using refines_emit [OF that, of p c] refines_send_on_stream [of p "(emit x c)\<lparr>qc_queued := n\<rparr>" fid wire]
    by (auto intro: refines_trans)
  have r: "refines p c (emit (Eff_Datagram wire) c)" "refines p c (emit (Eff_Datagram_Refused wire) c)"
    by (simp_all add: refines_emit)
  show ?thesis
    unfolding service_item_def e Let_def
    using q [of "Eff_Datagram_Refused wire"] r refines_send_on_stream
    by (cases ok) (simp_all split: ResolvedMode.split)
qed

lemma refines_service_outbound [refining]: "refines p c (service_outbound p q c)"
proof (induction p q c rule: service_outbound.induct)
  case (1 p q c)
  obtain r q' where n: "outbound_pop q = (r, q')" by (cases "outbound_pop q")
  show ?case
  proof (cases r)
    case None
    with n show ?thesis by (subst service_outbound.simps) simp
  next
    case (Some i)
    with 1 n have "refines p (service_item p i c) (service_outbound p q' (service_item p i c))" by simp
    with refines_service_item have "refines p c (service_outbound p q' (service_item p i c))" by (rule refines_trans)
    with n Some show ?thesis by (subst service_outbound.simps) simp
  qed
qed

lemma refines_service [refining]: "refines p c (service p c)"
proof (cases "qc_close_requested c")
  case True
  then show ?thesis by (simp add: service_def refines_emit)
next
  case False
  define c1 where "c1 = fold service_flow_request (qc_flow_requests c) (c\<lparr>qc_flow_requests := []\<rparr>)"
  define c2 where "c2 = fold service_reset (qc_reset_requests c1) (c1\<lparr>qc_reset_requests := []\<rparr>)"
  have 1: "refines p c c1"
    using refines_fold [OF refines_flow_request, where xs = "qc_flow_requests c" and c = "c\<lparr>qc_flow_requests := []\<rparr>" and p = p]
    by (simp add: c1_def)
  have 2: "refines p c1 c2"
    using refines_fold [OF refines_service_reset, where xs = "qc_reset_requests c1" and c = "c1\<lparr>qc_reset_requests := []\<rparr>" and p = p]
    by (simp add: c2_def)
  have "service p c = service_outbound p (qc_outbound c2) c2"
    using False by (simp add: service_def c1_def c2_def Let_def)
  with 1 2 refines_service_outbound [of p c2] show ?thesis by (auto intro: refines_trans)
qed

lemma refines_destroy [refining]: "refines p c (Client_destroy c)"
proof -
  let ?c = "c\<lparr>qc_thread_ctx := False, qc_closed := True\<rparr>"
  have "refines p c ?c"
    by (rule refines_step [OF destroyed]) (simp add: cnx_of_def)
  moreover have "Client_destroy c = ?c\<lparr>qc_quic := False\<rparr>"
    by (simp add: Client_destroy_def signal_closed_def Let_def)
  moreover have "cnx_of (?c\<lparr>qc_quic := False\<rparr>) = cnx_of ?c" by (simp add: cnx_of_def)
  ultimately show ?thesis by simp
qed

lemma refines_into: "refines p c c' \<Longrightarrow> cnx_of c' = cnx_of c'' \<Longrightarrow> refines p c c''"
  by simp

lemma refines_create [refining]: "refines p c (create_client a b c)"
proof (cases "ca_context a \<and> b")
  case True
  then show ?thesis
    by (intro refines_into [OF refines_emit [of Eff_Null_Verifier]]) (simp_all add: create_client_def cnx_of_def)
qed (auto intro!: refines_same simp: create_client_def cnx_of_def)

lemma refines_timeouts [refining]: "refines p c (set_timeouts c)"
  using refines_trans [OF refines_emit refines_emit, of "Eff_Idle_Timeout x" "Eff_Handshake_Timeout y" p c for x y]
  by (simp add: set_timeouts_def Let_def refines_emit)

lemma refines_keep_alive [refining]: "refines p c (keep_alive c)"
  by (simp add: keep_alive_def refines_emit)

lemma refines_connect: "refines p c (snd (Client_connect a opts c))"
proof -
  define c1 where "c1 = create_client a (co_insecure_skip_verify opts)
    (c\<lparr>qc_options := opts, qc_flows := FlowTable_new (co_flow_limits opts)\<rparr>)"
  define c2 where "c2 = (set_timeouts c1)\<lparr>qc_cnx := ca_cnx a\<rparr>"
  have "refines p (c\<lparr>qc_options := opts, qc_flows := FlowTable_new (co_flow_limits opts)\<rparr>) c1"
    unfolding c1_def by (rule refines_create)
  then have 1: "refines p c c1" by (simp add: cnx_of_def)
  have 2: "refines p c1 (set_timeouts c1)" by (rule refines_timeouts)
  then have 3: "refines p c1 c2" by (rule refines_into) (simp add: c2_def cnx_of_def)
  have 4: "refines p c2 ((keep_alive c2)\<lparr>qc_thread_ctx := b\<rparr>)" for b
    by (rule refines_into [OF refines_keep_alive]) (simp add: cnx_of_def)
  have 5: "refines p c2 ((keep_alive c2)\<lparr>qc_thread_ctx := b, qc_started := b'\<rparr>)" for b b'
    by (rule refines_into [OF refines_keep_alive]) (simp add: cnx_of_def)
  note 12 = refines_trans [OF 1 2] and 13 = refines_trans [OF 1 3]
  show ?thesis
    unfolding Client_connect_def Let_def c1_def [symmetric] c2_def [symmetric]
    using 1 12 13 refines_trans [OF 13 4] refines_trans [OF 13 5] by simp
qed

lemma client_call_refines: "refines p c (run_client_call p call c)"
proof (cases call)
  case (Call_Loop e)
  then show ?thesis by (cases e) (simp_all add: refining)
next
  case (Call_On_Message h)
  then show ?thesis by (intro refines_same) (simp add: client_api cnx_of_def)
next
  case (Call_On_Closed h)
  then show ?thesis by (intro refines_same) (simp add: client_api cnx_of_def)
next
  case (Call_Connect a opts)
  then show ?thesis by (simp add: refines_connect)
next
  case (Call_Send f m)
  have "refines p c (emit Eff_Wake (c\<lparr>qc_outbound := q\<rparr>))" for q
    using refines_emit [of Eff_Wake p "c\<lparr>qc_outbound := q\<rparr>"] by simp
  with Call_Send show ?thesis by (simp add: client_api)
next
  case (Call_Bind f)
  then show ?thesis using refines_emit [of Eff_Wake p "c\<lparr>qc_flow_requests := r\<rparr>" for r] by (simp add: client_api)
next
  case (Call_Retire f)
  then show ?thesis using refines_emit [of Eff_Wake p "c\<lparr>qc_flow_requests := r\<rparr>" for r] by (simp add: client_api)
next
  case (Call_Reset f)
  then show ?thesis using refines_emit [of Eff_Wake p "c\<lparr>qc_reset_requests := r\<rparr>" for r] by (simp add: client_api)
next
  case (Call_Close e)
  let ?c = "c\<lparr>qc_close_requested := True, qc_requested_close_code := error_value e\<rparr>"
  have "cnx_of ?c = cnx_of c" by (simp add: cnx_of_def)
  with Call_Close refines_emit [of Eff_Wake p ?c] show ?thesis by (simp add: client_api)
qed (simp_all add: refining)

lemma client_calls_refine: "refines p c (fold (run_client_call p) calls c)"
  by (rule refines_fold) (rule client_call_refines)

section \<open>Invariants of the abstract connection\<close>

fun is_closed_report :: "effect \<Rightarrow> bool" where
  "is_closed_report (Eff_Closed code) = True"
| "is_closed_report e = False"

definition reports :: "cnx_view \<Rightarrow> nat" where
  "reports v = length (filter is_closed_report (cv_log v))"

lemma quiet_not_report: "quiet e \<Longrightarrow> \<not> is_closed_report e"
  by (cases e) simp_all

definition ended_once :: "cnx_view \<Rightarrow> bool" where
  "ended_once v \<longleftrightarrow> reports v \<le> 1 \<and> (if cv_closing v then cv_closed v else reports v = 0)"

lemma ended_once_steps: "(cnx_step p)\<^sup>*\<^sup>* v v' \<Longrightarrow> ended_once v \<Longrightarrow> ended_once v'"
proof (induction rule: rtranclp_induct)
  case (step v1 v2)
  from step.hyps(2) step.IH [OF step.prems] show ?case
    by (cases rule: cnx_step.cases) (auto simp: ended_once_def reports_def quiet_not_report split: if_splits)
qed

lemma client_ended_once: "ended_once (cnx_of (fold (run_client_call p) calls Client_new))"
  by (rule ended_once_steps [OF client_calls_refine])
    (simp add: ended_once_def reports_def cnx_of_def Client_new_def)

definition reset_ids :: "effect list \<Rightarrow> u64 set" where
  "reset_ids log = {sid. \<exists>code. Eff_Reset_Stream sid code \<in> set log}"

definition no_write_after_reset :: "effect list \<Rightarrow> bool" where
  "no_write_after_reset log \<longleftrightarrow>
     (\<forall>l1 sid code l2. log = l1 @ Eff_Reset_Stream sid code # l2 \<longrightarrow> (\<forall>w. Eff_Add_To_Stream sid w \<notin> set l2))"

lemma reset_ids_snoc:
  "reset_ids (log @ [e]) = reset_ids log \<union> (case e of Eff_Reset_Stream sid code \<Rightarrow> {sid} | _ \<Rightarrow> {})"
  by (cases e) (auto simp: reset_ids_def)

lemma no_write_after_reset_snoc:
  assumes "no_write_after_reset log" and "\<And>sid w. e = Eff_Add_To_Stream sid w \<Longrightarrow> sid \<notin> reset_ids log"
  shows "no_write_after_reset (log @ [e])"
  unfolding no_write_after_reset_def
proof (intro allI impI)
  fix l1 sid code l2 w
  assume eq: "log @ [e] = l1 @ Eff_Reset_Stream sid code # l2"
  show "Eff_Add_To_Stream sid w \<notin> set l2"
  proof (cases l2 rule: rev_cases)
    case Nil
    then show ?thesis by simp
  next
    case (snoc l x)
    with eq have log: "log = l1 @ Eff_Reset_Stream sid code # l" and x: "x = e" by simp_all
    then have "Eff_Add_To_Stream sid w \<notin> set l" using assms(1) by (auto simp: no_write_after_reset_def)
    moreover have "sid \<in> reset_ids log" using log by (auto simp: reset_ids_def)
    ultimately show ?thesis using snoc x assms(2) by auto
  qed
qed

definition streams_inv :: "pico \<Rightarrow> cnx_view \<Rightarrow> bool" where
  "streams_inv p v \<longleftrightarrow>
     (\<forall>fid sid. cv_streams v fid = Some sid \<longrightarrow> sid \<in> pico_stream_id p ` {..<cv_opened v} \<and> sid \<notin> reset_ids (cv_log v))
     \<and> reset_ids (cv_log v) \<subseteq> pico_stream_id p ` {..<cv_opened v}
     \<and> inj_on (cv_streams v) (dom (cv_streams v))
     \<and> no_write_after_reset (cv_log v)"

lemma streams_inv_opened:
  assumes inv: "streams_inv p v" and inj: "inj_on (pico_stream_id p) {..<Suc (cv_opened v)}"
    and new: "cv_streams v fid = None"
  shows "streams_inv p (v\<lparr>cv_log := cv_log v @ [Eff_Add_To_Stream (pico_stream_id p (cv_opened v)) wire],
      cv_streams := (cv_streams v)(fid \<mapsto> pico_stream_id p (cv_opened v)), cv_opened := Suc (cv_opened v)\<rparr>)"
proof -
  let ?sid = "pico_stream_id p (cv_opened v)"
  have fresh: "?sid \<notin> pico_stream_id p ` {..<cv_opened v}"
  proof
    assume "?sid \<in> pico_stream_id p ` {..<cv_opened v}"
    then obtain x where x: "x < cv_opened v" "pico_stream_id p x = ?sid" by auto
    have "x = cv_opened v" by (rule inj_onD [OF inj x(2)]) (use x in auto)
    with x show False by simp
  qed
  then have "\<And>f. cv_streams v f \<noteq> Some ?sid" and r: "?sid \<notin> reset_ids (cv_log v)"
    using inv by (auto simp: streams_inv_def)
  then have "inj_on ((cv_streams v)(fid \<mapsto> ?sid)) (dom ((cv_streams v)(fid \<mapsto> ?sid)))"
    using inv unfolding streams_inv_def inj_on_def by (auto split: if_splits)
  moreover have "no_write_after_reset (cv_log v @ [Eff_Add_To_Stream ?sid wire])"
    using inv r by (intro no_write_after_reset_snoc) (auto simp: streams_inv_def)
  ultimately show ?thesis
    using inv r by (auto simp: streams_inv_def reset_ids_snoc lessThan_Suc)
qed

lemma streams_inv_step:
  assumes step: "cnx_step p v v'" and inv: "streams_inv p v"
    and inj: "inj_on (pico_stream_id p) {..<cv_opened v'}"
  shows "streams_inv p v'"
  using step
proof cases
  case (note_effect e)
  with inv show ?thesis
    by (cases e) (auto simp: streams_inv_def reset_ids_snoc intro!: no_write_after_reset_snoc)
next
  case (end_reported code)
  with inv show ?thesis
    by (auto simp: streams_inv_def reset_ids_snoc intro!: no_write_after_reset_snoc)
next
  case (opened fid wire)
  with inv inj show ?thesis by (simp add: streams_inv_opened)
next
  case (written fid sid wire)
  with inv have "sid \<notin> reset_ids (cv_log v)" by (auto simp: streams_inv_def)
  with written inv show ?thesis
    by (auto simp: streams_inv_def reset_ids_snoc intro!: no_write_after_reset_snoc)
next
  case (was_reset fid sid code)
  then have only: "f = fid" if "cv_streams v f = Some sid" for f
    using inv that by (auto simp: streams_inv_def inj_on_def dom_def)
  have "inj_on ((cv_streams v)(fid := None)) (dom ((cv_streams v)(fid := None)))"
    using inv by (auto simp: streams_inv_def inj_on_def dom_def)
  moreover have "no_write_after_reset (cv_log v @ [Eff_Reset_Stream sid code])"
    using inv by (intro no_write_after_reset_snoc) (simp_all add: streams_inv_def)
  moreover have "sid \<in> pico_stream_id p ` {..<cv_opened v}"
    using inv was_reset by (auto simp: streams_inv_def)
  ultimately show ?thesis
    using was_reset(1) inv only by (auto simp: streams_inv_def reset_ids_snoc split: if_splits)
qed (use inv in \<open>simp_all add: streams_inv_def\<close>)

lemma cnx_step_opened: "cnx_step p v v' \<Longrightarrow> cv_opened v \<le> cv_opened v'"
  by (induction rule: cnx_step.induct) simp_all

lemma streams_inv_steps:
  assumes "(cnx_step p)\<^sup>*\<^sup>* v v'" and "streams_inv p v" and "inj_on (pico_stream_id p) {..<cv_opened v'}"
  shows "streams_inv p v'"
  using assms
proof (induction rule: rtranclp_induct)
  case (step v1 v2)
  have "inj_on (pico_stream_id p) {..<cv_opened v1}"
    by (rule inj_on_subset [OF step.prems(2)]) (use cnx_step_opened [OF step.hyps(2)] in auto)
  with step show ?case by (blast intro: streams_inv_step)
qed

section \<open>Receiving in fragments\<close>

text \<open>
  Frames that are already ready stay in front: feeding a decoder whose ready frames were taken
  in the meantime produces the same further frames.
\<close>

abbreviation with_ready :: "Frame list \<Rightarrow> FrameDecoder \<Rightarrow> FrameDecoder" where
  "with_ready fs d \<equiv> d\<lparr>fd_ready := fs @ fd_ready d\<rparr>"

lemma FrameDecoder_step_ready:
  "FrameDecoder_step (with_ready fs d) = map_prod (with_ready fs) id (FrameDecoder_step d)"
  by (auto simp: FrameDecoder_step_def Let_def split: option.splits)

lemma FrameDecoder_parse_ready: "FrameDecoder_parse (with_ready fs d) = with_ready fs (FrameDecoder_parse d)"
proof (induction d rule: FrameDecoder_parse.induct)
  case (1 d)
  then show ?case
    using FrameDecoder_step_ready [of fs d]
    by (cases "FrameDecoder_step d")
      (auto simp: FrameDecoder_parse.simps [of d] FrameDecoder_parse.simps [of "with_ready fs d"])
qed

lemma FrameDecoder_feed_ready: "FrameDecoder_feed bs (with_ready fs d) = with_ready fs (FrameDecoder_feed bs d)"
proof -
  have eq: "(with_ready fs d)\<lparr>fd_buffer := fd_buffer d @ bs\<rparr> = with_ready fs (d\<lparr>fd_buffer := fd_buffer d @ bs\<rparr>)"
    by simp
  have "FrameDecoder_feed bs (with_ready fs d) = (if fd_malformed d then with_ready fs d
      else FrameDecoder_parse ((with_ready fs d)\<lparr>fd_buffer := fd_buffer d @ bs\<rparr>))"
    by (simp add: FrameDecoder_feed_def)
  then show ?thesis unfolding eq FrameDecoder_parse_ready by (simp add: FrameDecoder_feed_def)
qed

lemma drain_decoder_all:
  "drain_decoder d c = (d\<lparr>fd_ready := []\<rparr>, fold (\<lambda>f. gate_and_deliver f True) (fd_ready d) c)"
proof (induction "fd_ready d" arbitrary: d c)
  case Nil
  then show ?case by (subst drain_decoder.simps) (simp add: FrameDecoder_next_def)
next
  case (Cons f fs)
  then show ?case
    by (subst drain_decoder.simps) (simp add: FrameDecoder_next_def flip: Cons(2))
qed

abbreviation gate_frames :: "Frame list \<Rightarrow> Client \<Rightarrow> Client" where
  "gate_frames fs c \<equiv> fold (\<lambda>f. gate_and_deliver f True) fs c"

lemma gate_decoders [simp]:
  "qc_decoders (gate_and_deliver f b c) = qc_decoders c"
  "gate_and_deliver f b (c\<lparr>qc_decoders := m\<rparr>) = (gate_and_deliver f b c)\<lparr>qc_decoders := m\<rparr>"
  by (simp_all add: gate_and_deliver_def deliver_def fail_connection_def emit_def Let_def
      split: FlowState.splits prod.splits)

lemma gate_frames_decoders [simp]:
  "qc_decoders (gate_frames fs c) = qc_decoders c"
  "gate_frames fs (c\<lparr>qc_decoders := m\<rparr>) = (gate_frames fs c)\<lparr>qc_decoders := m\<rparr>"
  by (induction fs arbitrary: c) simp_all

lemma on_stream_data_gate:
  assumes "qc_decoders c sid = Some d" and "fd_ready d = []" and "\<not> fd_malformed (FrameDecoder_feed bs d)"
  shows "on_stream_data sid bs False c =
    (gate_frames (fd_ready (FrameDecoder_feed bs d)) c)
      \<lparr>qc_decoders := (qc_decoders c)(sid \<mapsto> (FrameDecoder_feed bs d)\<lparr>fd_ready := []\<rparr>)\<rparr>"
  using assms by (simp add: on_stream_data_def drain_decoder_all Let_def)

lemma malformed_latched: "fd_malformed d \<Longrightarrow> fold FrameDecoder_feed ds d = d"
  by (induction ds) (simp_all add: FrameDecoder_feed_def)

lemma on_stream_data_fragments:
  assumes "qc_decoders c sid = Some d" and "fd_ready d = []"
    and "\<not> fd_malformed (fold FrameDecoder_feed ds d)"
  shows "fold (\<lambda>b. on_stream_data sid b False) ds c =
    (gate_frames (fd_ready (fold FrameDecoder_feed ds d)) c)
      \<lparr>qc_decoders := (qc_decoders c)(sid \<mapsto> (fold FrameDecoder_feed ds d)\<lparr>fd_ready := []\<rparr>)\<rparr>"
  using assms
proof (induction ds arbitrary: c d)
  case Nil
  then show ?case by (simp add: fun_upd_idem)
next
  case (Cons b ds)
  let ?d = "FrameDecoder_feed b d"
  have ok: "\<not> fd_malformed ?d" using Cons.prems(3) malformed_latched [of ?d ds] by auto
  define e where "e = ?d\<lparr>fd_ready := []\<rparr>"
  have e: "?d = with_ready (fd_ready ?d) e" by (simp add: e_def)
  have rest: "fold FrameDecoder_feed ds ?d = with_ready (fd_ready ?d) (fold FrameDecoder_feed ds e)"
  proof -
    have "fold FrameDecoder_feed ds (with_ready fs x) = with_ready fs (fold FrameDecoder_feed ds x)" for fs x
      by (induction ds arbitrary: x) (simp_all add: FrameDecoder_feed_ready)
    with e show ?thesis by metis
  qed
  let ?c = "(gate_frames (fd_ready ?d) c)\<lparr>qc_decoders := (qc_decoders c)(sid \<mapsto> e)\<rparr>"
  have step: "on_stream_data sid b False c = ?c"
    using on_stream_data_gate [OF Cons.prems(1,2) ok] by (simp add: e_def)
  have "fold (\<lambda>b. on_stream_data sid b False) ds ?c =
    (gate_frames (fd_ready (fold FrameDecoder_feed ds e)) ?c)
      \<lparr>qc_decoders := (qc_decoders ?c)(sid \<mapsto> (fold FrameDecoder_feed ds e)\<lparr>fd_ready := []\<rparr>)\<rparr>"
    by (rule Cons.IH) (use Cons.prems(3) rest in \<open>simp_all add: e_def\<close>)
  with step rest show ?case by (simp add: fun_upd_def cong: if_cong)
qed

lemma on_stream_data_new:
  "qc_decoders c sid = None \<Longrightarrow>
     on_stream_data sid bs fin c
       = on_stream_data sid bs fin (c\<lparr>qc_decoders := (qc_decoders c)(sid \<mapsto> FrameDecoder_new kDefaultMaxPayload)\<rparr>)"
  by (simp add: on_stream_data_def drain_decoder_all Let_def fail_connection_def emit_def)

lemma stream_delivery:
  assumes ok: "list_all frame_ok fs" "\<forall>f \<in> set fs. length (f_payload f) \<le> unat kDefaultMaxPayload"
    and ds: "ds \<noteq> []" "concat ds = fold (\<lambda>f out. snd (frame_encode f out)) fs []"
    and new: "qc_decoders c sid = None"
  shows "fold (\<lambda>b. on_stream_data sid b False) ds c =
    (gate_frames fs c)\<lparr>qc_decoders := (qc_decoders c)(sid \<mapsto> FrameDecoder_new kDefaultMaxPayload)\<rparr>"
proof -
  let ?d = "FrameDecoder_new kDefaultMaxPayload"
  let ?c = "c\<lparr>qc_decoders := (qc_decoders c)(sid \<mapsto> ?d)\<rparr>"
  have feed: "fold FrameDecoder_feed ds ?d
      = \<lparr>fd_buffer = [], fd_ready = fs, fd_max_payload = kDefaultMaxPayload, fd_malformed = False\<rparr>"
    using ok ds(2) by (rule feed_encoded_frames)
  have "fold (\<lambda>b. on_stream_data sid b False) ds c = fold (\<lambda>b. on_stream_data sid b False) ds ?c"
    using ds(1) on_stream_data_new [OF new] by (cases ds) simp_all
  also have "\<dots> = (gate_frames fs ?c)\<lparr>qc_decoders := (qc_decoders ?c)(sid \<mapsto> ?d)\<rparr>"
    using on_stream_data_fragments [of ?c sid ?d ds] feed by (simp add: FrameDecoder_new_def)
  finally show ?thesis by simp
qed

lemma gate_frames_active:
  assumes "list_all (\<lambda>f. flow_state (qc_flows c) (f_flow_id f) = Active) fs" and "qc_message_handler c"
  shows "gate_frames fs c = c\<lparr>qc_log := qc_log c @ map Eff_Deliver fs\<rparr>"
  using assms
proof (induction fs arbitrary: c)
  case (Cons f fs)
  let ?c = "c\<lparr>qc_log := qc_log c @ [Eff_Deliver f]\<rparr>"
  have "gate_and_deliver f True c = ?c"
    using Cons.prems by (simp add: gate_and_deliver_def deliver_def emit_def)
  with Cons.IH [of ?c] Cons.prems show ?case by simp
qed simp

section \<open>What the outbound queue becomes\<close>

lemma service_outbound_fold:
  "service_outbound p q c = (fold (service_item p) (oq_items q) c)\<lparr>qc_outbound := \<lparr>oq_items = []\<rparr>\<rparr>"
proof (induction "oq_items q" arbitrary: q c)
  case Nil
  then have "q = \<lparr>oq_items = []\<rparr>" by (cases q) simp
  then show ?case by (subst service_outbound.simps) (simp add: outbound_pop_def)
next
  case (Cons i items)
  then show ?case
    by (subst service_outbound.simps) (simp add: outbound_pop_def flip: Cons(2))
qed

fun is_carried :: "effect \<Rightarrow> bool" where
  "is_carried (Eff_Add_To_Stream sid w) = True"
| "is_carried (Eff_Datagram w) = True"
| "is_carried e = False"

fun is_datagram :: "effect \<Rightarrow> bool" where
  "is_datagram (Eff_Datagram w) = True"
| "is_datagram e = False"

definition carried :: "Client \<Rightarrow> nat" where
  "carried c = length (filter is_carried (qc_log c))"

definition datagrams :: "Client \<Rightarrow> nat" where
  "datagrams c = length (filter is_datagram (qc_log c))"

definition encodable :: "Outbound \<Rightarrow> bool" where
  "encodable i \<longleftrightarrow> fst (frame_encode (ob_frame i) [])"

lemma carried_outbound:
  "carried (c\<lparr>qc_outbound := q\<rparr>) = carried c" "datagrams (c\<lparr>qc_outbound := q\<rparr>) = datagrams c"
  by (simp_all add: carried_def datagrams_def)

text \<open>The books of one item: it is carried, counted as dropped, or cannot be encoded.\<close>

definition books_of :: "Client \<Rightarrow> u64 \<times> u64 \<times> ClientOptions" where
  "books_of c = (of_nat (carried c) + qc_dropped_datagrams c, qc_datagrams_sent c - of_nat (datagrams c), qc_options c)"

lemma send_on_stream_books:
  "books_of (send_on_stream p fid w c)
     = (fst (books_of c) + 1, snd (books_of c))"
  "qc_dropped_datagrams (send_on_stream p fid w c) = qc_dropped_datagrams c"
  by (auto simp: books_of_def carried_def datagrams_def send_on_stream_def stream_for_flow_def emit_def Let_def
      algebra_simps split: option.splits)

lemma emit_books:
  "books_of ((emit (Eff_Datagram w) c)\<lparr>qc_queued := n, qc_datagrams_sent := qc_datagrams_sent c + 1\<rparr>)
     = (fst (books_of c) + 1, snd (books_of c))"
  "books_of ((emit (Eff_Datagram_Refused w) c)\<lparr>qc_queued := n\<rparr>) = books_of c"
  "books_of (c\<lparr>qc_dropped_datagrams := qc_dropped_datagrams c + 1\<rparr>) = (fst (books_of c) + 1, snd (books_of c))"
  by (simp_all add: books_of_def carried_def datagrams_def emit_def algebra_simps)

lemma books_refused:
  "books_of ((emit (Eff_Datagram_Refused w) c)\<lparr>qc_queued := n, qc_dropped_datagrams := qc_dropped_datagrams c + 1\<rparr>)
     = (fst (books_of c) + 1, snd (books_of c))"
  by (simp add: books_of_def carried_def datagrams_def emit_def algebra_simps)

lemma emit_fields [simp]:
  "qc_datagrams_sent (emit e c) = qc_datagrams_sent c"
  "qc_dropped_datagrams (emit e c) = qc_dropped_datagrams c"
  "qc_options (emit e c) = qc_options c"
  by (simp_all add: emit_def)

lemma service_item_books:
  "books_of (service_item p i c) = (fst (books_of c) + (if encodable i then 1 else 0), snd (books_of c))"
proof -
  obtain ok w where e: "frame_encode (ob_frame i) [] = (ok, w)" by (cases "frame_encode (ob_frame i) []")
  show ?thesis
    unfolding service_item_def e encodable_def Let_def
    by (cases ok; cases "pico_datagram_ok p (qc_queued c)")
      (simp_all add: emit_books send_on_stream_books books_refused split: ResolvedMode.split)
qed

lemma service_items_books:
  "books_of (fold (service_item p) is c)
     = (fst (books_of c) + of_nat (length (filter encodable is)), snd (books_of c))"
  by (induction "is" arbitrary: c) (simp_all add: service_item_books)

text \<open>The flow and reset requests served before the queue leave the books and the queue alone.\<close>

definition outbound_part :: "Client \<Rightarrow> OutboundQueue \<times> u64 \<times> (u64 \<times> u64 \<times> ClientOptions) \<times> (u64 \<times> bool) list \<times> u64 list" where
  "outbound_part c = (qc_outbound c, qc_dropped_datagrams c, books_of c, qc_flow_requests c, qc_reset_requests c)"

lemma fold_invariant:
  assumes "\<And>x c. f (g x c) = f c"
  shows "f (fold g xs c) = f c"
  using assms by (induction xs arbitrary: c) simp_all

lemma outbound_part_deliver [simp]: "outbound_part (deliver fr c) = outbound_part c"
  by (simp add: outbound_part_def deliver_def books_of_def carried_def datagrams_def emit_def)

lemma outbound_part_flows [simp]: "outbound_part (c\<lparr>qc_flows := t\<rparr>) = outbound_part c"
  by (simp add: outbound_part_def books_of_def carried_def datagrams_def)

lemma outbound_part_flow_request [simp]: "outbound_part (service_flow_request r c) = outbound_part c"
  by (simp add: service_flow_request_def fold_invariant [where f = outbound_part] split: prod.split bool.split)

lemma outbound_part_reset [simp]: "outbound_part (service_reset fid c) = outbound_part c"
  by (simp add: service_reset_def outbound_part_def books_of_def carried_def datagrams_def emit_def split: option.split)

definition service_requests :: "Client \<Rightarrow> Client" where
  "service_requests c =
     (let c' = fold service_flow_request (qc_flow_requests c) (c\<lparr>qc_flow_requests := []\<rparr>)
      in fold service_reset (qc_reset_requests c') (c'\<lparr>qc_reset_requests := []\<rparr>))"

lemma outbound_part_requests:
  "outbound_part (service_requests c) = (qc_outbound c, qc_dropped_datagrams c, books_of c, [], [])"
proof -
  define c1 where "c1 = fold service_flow_request (qc_flow_requests c) (c\<lparr>qc_flow_requests := []\<rparr>)"
  have 1: "outbound_part c1 = (qc_outbound c, qc_dropped_datagrams c, books_of c, [], qc_reset_requests c)"
    unfolding c1_def fold_invariant [of outbound_part, OF outbound_part_flow_request]
    by (simp add: outbound_part_def books_of_def carried_def datagrams_def)
  have 2: "books_of (c1\<lparr>qc_reset_requests := []\<rparr>) = books_of c1"
    by (simp add: books_of_def carried_def datagrams_def)
  have "outbound_part (fold service_reset (qc_reset_requests c1) (c1\<lparr>qc_reset_requests := []\<rparr>))
      = (qc_outbound c, qc_dropped_datagrams c, books_of c, [], [])"
    unfolding fold_invariant [of outbound_part, OF outbound_part_reset]
    using 1 2 by (simp add: outbound_part_def)
  then show ?thesis by (simp add: service_requests_def c1_def Let_def)
qed

lemma service_open:
  "\<not> qc_close_requested c \<Longrightarrow>
     service p c = (fold (service_item p) (oq_items (qc_outbound c)) (service_requests c))\<lparr>qc_outbound := \<lparr>oq_items = []\<rparr>\<rparr>"
  using outbound_part_requests [of c]
  by (simp add: service_def service_requests_def Let_def service_outbound_fold outbound_part_def)

lemma service_item_queues:
  "qc_flow_requests (service_item p i c) = qc_flow_requests c
   \<and> qc_reset_requests (service_item p i c) = qc_reset_requests c
   \<and> qc_options (service_item p i c) = qc_options c"
  by (auto simp: service_item_def send_on_stream_def stream_for_flow_def emit_def Let_def
      split: prod.splits bool.splits ResolvedMode.splits option.splits)

lemma service_item_no_drop:
  assumes "co_datagram_fallback (qc_options c) = Fallback_Stream"
  shows "qc_dropped_datagrams (service_item p i c) = qc_dropped_datagrams c"
  using assms
  by (auto simp: service_item_def resolve_delivery_def send_on_stream_def stream_for_flow_def emit_def Let_def
      split: prod.splits bool.splits ResolvedMode.splits option.splits if_splits)

lemma service_items_no_drop:
  "co_datagram_fallback (qc_options c) = Fallback_Stream \<Longrightarrow>
     qc_dropped_datagrams (fold (service_item p) is c) = qc_dropped_datagrams c"
  by (induction "is" arbitrary: c) (simp_all add: service_item_no_drop service_item_queues)

section \<open>Properties\<close>

text \<open>
  C7. Refinement: whatever the application calls and whatever events picoquic raises, in any
  order, every call of the client is a sequence of steps of the abstract connection, which
  writes only to the stream a flow owns, opens a stream only for a flow without one, takes a
  flow's stream away when it resets it, and reports the end of the connection only while it is
  not yet marked as ended.
\<close>

theorem client_refines:
  "(cnx_step p)\<^sup>*\<^sup>* (cnx_of c) (cnx_of (fold (run_client_call p) calls c))"
  by (rule client_calls_refine)

text \<open>
  C9. The closed handler is invoked at most once in the life of a client, whatever calls and
  callbacks happen in whatever order, and a close of the connection is reported, with its code,
  exactly when a handler is installed and neither the end was reported before nor the client is
  being destroyed.
\<close>

theorem client_closed_once:
  "let c = fold (run_client_call p) calls Client_new;
       c' = run_client_call p (Call_Event (Ev_Application_Close code)) c
   in length (filter is_closed_report (qc_log c')) \<le> 1
      \<and> qc_closed c'
      \<and> qc_log c' = (if qc_closed_handler c \<and> \<not> qc_closed c \<and> \<not> qc_closing c
                    then qc_log c @ [Eff_Closed code] else qc_log c)"
proof -
  define c where "c = fold (run_client_call p) calls Client_new"
  have "ended_once (cnx_of c)" "ended_once (cnx_of (signal_closed code c))"
    using client_ended_once [of p calls] client_ended_once [of p "calls @ [Call_Event (Ev_Application_Close code)]"]
    by (simp_all add: c_def)
  then show ?thesis
    unfolding c_def [symmetric]
    by (auto simp: Let_def ended_once_def reports_def cnx_of_def signal_closed_def emit_def split: if_splits)
qed

text \<open>
  C8. If picoquic never hands out the same stream id twice, then after any calls and callbacks
  two flows never share a stream, no flow owns a stream that was reset, and nothing was ever
  written to a stream after it was reset.
\<close>

theorem client_streams_safe:
  assumes "inj_on (pico_stream_id p) {..<qc_opened (fold (run_client_call p) calls Client_new)}"
  shows "let c = fold (run_client_call p) calls Client_new
    in inj_on (qc_flow_streams c) (dom (qc_flow_streams c))
       \<and> ran (qc_flow_streams c) \<inter> reset_ids (qc_log c) = {}
       \<and> no_write_after_reset (qc_log c)"
proof -
  let ?c = "fold (run_client_call p) calls Client_new"
  have "streams_inv p (cnx_of Client_new)"
    by (simp add: streams_inv_def cnx_of_def Client_new_def reset_ids_def no_write_after_reset_def)
  moreover have "inj_on (pico_stream_id p) {..<cv_opened (cnx_of ?c)}"
    using assms by (simp add: cnx_of_def)
  ultimately have "streams_inv p (cnx_of ?c)"
    by (rule streams_inv_steps [OF client_calls_refine])
  then show ?thesis by (auto simp: streams_inv_def cnx_of_def Let_def ran_def)
qed

definition demo_pico :: pico where
  "demo_pico = \<lparr>pico_stream_id = (\<lambda>k. word_of_nat (4 * k + 2)), pico_datagram_ok = (\<lambda>k. even k)\<rparr>"

definition demo_frame :: "byte list \<Rightarrow> Frame" where
  "demo_frame pl = \<lparr>f_flow_id = 7, f_timestamp = 40, f_message_type = 9, f_message_stream_id = 1,
     f_chunk_stream_id = 6, f_payload = pl\<rparr>"

definition demo_answers :: connect_answers where
  "demo_answers = \<lparr>ca_context = True, ca_tp_value = True, ca_address = True, ca_cnx = True, ca_thread = True\<rparr>"

definition demo_calls :: "client_call list" where
  "demo_calls =
     [Call_Connect demo_answers default_client_options, Call_Send (demo_frame [1, 2]) Mode_Stream, Call_Loop Loop_Wake_Up,
      Call_Reset 7, Call_Loop Loop_Wake_Up, Call_Send (demo_frame [3]) Mode_Stream, Call_Loop Loop_Wake_Up]"

abbreviation demo_setup :: "effect list" where
  "demo_setup \<equiv> [Eff_Null_Verifier, Eff_Idle_Timeout 15000, Eff_Handshake_Timeout 10000000, Eff_Keep_Alive 0]"

lemma demo_encode:
  "frame_encode (demo_frame [1, 2]) [] = (True, [7, 40, 9, 1, 6, 2, 1, 2])"
  "frame_encode (demo_frame [3]) [] = (True, [7, 40, 9, 1, 6, 1, 3])"
  by code_simp+

definition idle :: "Client \<Rightarrow> bool" where
  "idle c \<longleftrightarrow> qc_started c \<and> qc_thread_ctx c \<and> \<not> qc_closed c \<and> \<not> qc_close_requested c
     \<and> qc_flow_requests c = [] \<and> qc_reset_requests c = [] \<and> qc_outbound c = \<lparr>oq_items = []\<rparr>"

lemma idle_send:
  assumes "idle c" and "frame_encode f [] = (True, w)" and "f_payload f \<noteq> []"
  shows "service p (snd (Client_send f Mode_Stream c)) = send_on_stream p (f_flow_id f) w (emit Eff_Wake c)"
  using assms
  by (simp add: idle_def client_api outbound_push_def service_def service_outbound_fold service_item_def
      resolve_delivery_def emit_def send_on_stream_def stream_for_flow_def split: option.splits)

lemma idle_reset: "idle c \<Longrightarrow> service p (Client_reset_flow_stream fid c) = service_reset fid (emit Eff_Wake c)"
  by (simp add: idle_def client_api service_def service_outbound_fold service_reset_def emit_def split: option.splits)

lemma idle_kept [simp]:
  "idle (send_on_stream p fid w c) = idle c"
  "idle (service_reset fid c) = idle c"
  "idle (emit e c) = idle c"
  by (simp_all add: idle_def send_on_stream_def stream_for_flow_def service_reset_def emit_def Let_def split: option.splits)

lemma demo_client:
  "cnx_of (fold (run_client_call demo_pico) demo_calls Client_new) =
     \<lparr>cv_log = demo_setup @ [Eff_Wake, Eff_Add_To_Stream 2 [7, 40, 9, 1, 6, 2, 1, 2], Eff_Wake, Eff_Reset_Stream 2 5,
        Eff_Wake, Eff_Add_To_Stream 6 [7, 40, 9, 1, 6, 1, 3]],
      cv_closing = False, cv_closed = False, cv_streams = [7 \<mapsto> 6], cv_opened = 2\<rparr>"
proof -
  define c where "c = snd (Client_connect demo_answers default_client_options Client_new)"
  have c: "idle c" "cnx_of c = \<lparr>cv_log = demo_setup, cv_closing = False, cv_closed = False, cv_streams = Map.empty, cv_opened = 0\<rparr>"
    by (simp_all add: c_def idle_def cnx_of_def Client_connect_def create_client_def set_timeouts_def keep_alive_def
        emit_def Let_def default_client_options_def Client_new_def demo_answers_def)
  have f: "f_payload (demo_frame xs) = xs" "f_flow_id (demo_frame xs) = 7" for xs
    by (simp_all add: demo_frame_def)
  have "fold (run_client_call demo_pico) demo_calls Client_new =
      send_on_stream demo_pico 7 [7, 40, 9, 1, 6, 1, 3] (emit Eff_Wake (service_reset 7 (emit Eff_Wake
        (send_on_stream demo_pico 7 [7, 40, 9, 1, 6, 2, 1, 2] (emit Eff_Wake c)))))"
    by (simp add: demo_calls_def c_def [symmetric] idle_send [OF _ demo_encode(1)] idle_send [OF _ demo_encode(2)]
        idle_reset c(1) f)
  with c(2) show ?thesis
    by (simp add: cnx_of_def send_on_stream_def stream_for_flow_def service_reset_def emit_def demo_pico_def)
qed

theorem client_streams_safe_witness:
  "inj_on (pico_stream_id demo_pico) {..<2}
   \<and> no_write_after_reset (qc_log (fold (run_client_call demo_pico) demo_calls Client_new))"
proof -
  have "inj_on (pico_stream_id demo_pico) {..<2}"
    by (simp add: demo_pico_def lessThan_nat_numeral lessThan_Suc)
  with client_streams_safe [of demo_pico demo_calls] demo_client show ?thesis
    by (simp add: cnx_of_def Let_def)
qed

text \<open>
  C10. Whatever fragments the bytes of a sequence of frames arrive in on a stream the client
  has not seen before, the message handler is called with exactly these frames, in order, when
  their flows are active; nothing else of the client changes but the stream's decoder, which
  ends empty and ready for more.
\<close>

theorem client_stream_delivery:
  assumes "list_all frame_ok fs" "\<forall>f \<in> set fs. length (f_payload f) \<le> unat kDefaultMaxPayload"
    and "ds \<noteq> []" "concat ds = fold (\<lambda>f out. snd (frame_encode f out)) fs []"
    and "qc_decoders c sid = None" "qc_message_handler c"
    and "list_all (\<lambda>f. flow_state (qc_flows c) (f_flow_id f) = Active) fs"
  shows "fold (run_client_call p) (map (\<lambda>b. Call_Event (Ev_Stream_Data sid b)) ds) c =
    c\<lparr>qc_log := qc_log c @ map Eff_Deliver fs,
      qc_decoders := (qc_decoders c)(sid \<mapsto> FrameDecoder_new kDefaultMaxPayload)\<rparr>"
proof -
  have "fold (run_client_call p) (map (\<lambda>b. Call_Event (Ev_Stream_Data sid b)) ds) c
      = fold (\<lambda>b. on_stream_data sid b False) ds c" for c
    by (induction ds arbitrary: c) simp_all
  then show ?thesis
    using stream_delivery [OF assms(1-5)] gate_frames_active [OF assms(7,6)] by simp
qed

definition demo_peer :: Client where
  "demo_peer = Client_new\<lparr>qc_message_handler := True, qc_flows := snd (flow_activate 7 (qc_flows Client_new))\<rparr>"

theorem client_stream_delivery_witness:
  "qc_log (fold (run_client_call demo_pico) (map (\<lambda>b. Call_Event (Ev_Stream_Data 2 b)) [[7, 40, 9, 1], [6, 1], [], [3]]) demo_peer)
     = [Eff_Deliver (demo_frame [3])]"
proof -
  have "list_all frame_ok [demo_frame [3]]"
    by (simp add: frame_ok_def demo_frame_def kVarintMax_def)
  moreover have "\<forall>f \<in> set [demo_frame [3]]. length (f_payload f) \<le> unat kDefaultMaxPayload"
    by (simp add: kDefaultMaxPayload_def demo_frame_def)
  moreover have "concat [[7, 40, 9, 1], [6, 1], [], [3]] = fold (\<lambda>f out. snd (frame_encode f out)) [demo_frame [3]] []"
    by (simp add: demo_encode)
  moreover have "flow_state (qc_flows demo_peer) 7 = Active"
    by (simp add: demo_peer_def Client_new_def flow_activate_def flow_state_def FlowTable_new_def)
  moreover have "qc_decoders demo_peer 2 = None" "qc_message_handler demo_peer" "qc_log demo_peer = []"
    by (simp_all add: demo_peer_def Client_new_def)
  ultimately show ?thesis
    using client_stream_delivery [of "[demo_frame [3]]" "[[7, 40, 9, 1], [6, 1], [], [3]]" demo_peer 2 demo_pico]
    by (simp add: demo_frame_def)
qed



end
