(* ===== verification/Supervisor.thy ===== *)
theory Supervisor
  imports Client Interfaces
begin

text \<open>
  \<^verbatim>\<open>gateway/src/connection_supervisor.cpp\<close>: the thread that keeps a client connected to one server.

  The supervisor thread is a state machine: its program counter \<open>sv_pc\<close> stands before one of the
  pieces of \<open>run\<close> that are separated by a lock, a wait or a call on the client, and \<open>sup_run_at\<close>
  executes the next piece. Between its pieces the application's calls and the client's network
  thread run, in any order (\<open>sup_step\<close>). The client is the model of theory \<open>Client\<close>; its closed
  handler, which sets \<open>drop_signaled\<close>, has run when a callback added a report to the client's
  log. A blocked wait is a piece that cannot be executed (None). A delay whose computation
  overflows the 64-bit representation of the duration, which C++ leaves undefined, is None.
\<close>

section \<open>The policy\<close>

record ReconnectPolicy =
  rp_initial_backoff :: int
  rp_max_backoff :: int
  rp_max_attempts :: u32
  rp_connect_timeout :: int

definition default_reconnect_policy :: ReconnectPolicy where
  "default_reconnect_policy = \<lparr>rp_initial_backoff = 250, rp_max_backoff = 5000, rp_max_attempts = 10,
     rp_connect_timeout = 5000\<rparr>"

definition in_int64 :: "int \<Rightarrow> bool" where
  "in_int64 i \<longleftrightarrow> - (2 ^ 63) \<le> i \<and> i < 2 ^ 63"

fun backoff_loop :: "nat \<Rightarrow> int \<Rightarrow> int \<Rightarrow> int option" where
  "backoff_loop 0 max_backoff delay = Some (min delay max_backoff)"
| "backoff_loop (Suc n) max_backoff delay =
     (if max_backoff \<le> delay then Some max_backoff
      else if in_int64 (delay * 2) then backoff_loop n max_backoff (delay * 2)
      else None)"

definition compute_backoff :: "ReconnectPolicy \<Rightarrow> u32 \<Rightarrow> int option" where
  "compute_backoff policy attempts =
     (let delay = min (rp_initial_backoff policy) (rp_max_backoff policy) in
      if attempts \<le> 1 then Some delay
      else backoff_loop (unat (min (attempts - 1) 62)) (rp_max_backoff policy) delay)"

section \<open>The thread\<close>

datatype sup_pc =
    Pc_Idle                      \<comment> \<open>not started\<close>
  | Pc_Top                       \<comment> \<open>the check at the head of the loop\<close>
  | Pc_Create                    \<comment> \<open>make the client, wire its handlers, clear \<open>drop_signaled\<close>\<close>
  | Pc_Connect                   \<comment> \<open>\<^verbatim>\<open>c->connect\<close>\<close>
  | Pc_Publish                   \<comment> \<open>\<^verbatim>\<open>client = std::move(c)\<close>\<close>
  | Pc_Wait_Up                   \<comment> \<open>\<^verbatim>\<open>cur->wait_connected\<close>\<close>
  | Pc_Check bool                \<comment> \<open>the check for a stop, with \<^verbatim>\<open>up\<close>\<close>
  | Pc_Take_Down                 \<comment> \<open>the attempt timed out\<close>
  | Pc_Failed                    \<comment> \<open>\<open>handle_failed_attempt\<close>\<close>
  | Pc_Backoff "int option"      \<comment> \<open>its wait\<close>
  | Pc_Success
  | Pc_Ready                     \<comment> \<open>\<^verbatim>\<open>on_ready(*cur)\<close>\<close>
  | Pc_Serve                     \<comment> \<open>the wait for a drop or a stop\<close>
  | Pc_Down
  | Pc_Exit                      \<comment> \<open>after the loop\<close>
  | Pc_Destroy sup_pc            \<comment> \<open>\<^verbatim>\<open>dead.reset()\<close>, and what follows it\<close>
  | Pc_Done

record Supervisor =
  sv_client_opts :: ClientOptions
  sv_policy :: ReconnectPolicy
  sv_on_ready :: "(Frame \<times> DeliveryMode) list"
  sv_stopping :: bool
  sv_started :: bool
  sv_drop_signaled :: bool
  sv_client :: "Client option"
  sv_connected :: bool
  sv_failed :: bool
  sv_reconnect_count :: u64
  sv_pc :: sup_pc
  sv_local :: "Client option"    \<comment> \<open>the thread's own pointer: \<^verbatim>\<open>c\<close> before it is published, \<^verbatim>\<open>dead\<close> after\<close>
  sv_first_connect :: bool
  sv_attempts :: u32

definition Supervisor_new :: "ClientOptions \<Rightarrow> ReconnectPolicy \<Rightarrow> (Frame \<times> DeliveryMode) list \<Rightarrow> Supervisor" where
  "Supervisor_new opts policy on_ready = \<lparr>sv_client_opts = opts, sv_policy = policy, sv_on_ready = on_ready,
     sv_stopping = False, sv_started = False, sv_drop_signaled = False, sv_client = None,
     sv_connected = False, sv_failed = False, sv_reconnect_count = 0,
     sv_pc = Pc_Idle, sv_local = None, sv_first_connect = True, sv_attempts = 0\<rparr>"

text \<open>\<open>handle_failed_attempt\<close> up to its wait; the wait is the next piece.\<close>

definition handle_failed_attempt :: "Supervisor \<Rightarrow> Supervisor" where
  "handle_failed_attempt s =
     (if sv_stopping s then s\<lparr>sv_pc := Pc_Exit\<rparr>
      else let s = s\<lparr>sv_attempts := sv_attempts s + 1\<rparr> in
        if rp_max_attempts (sv_policy s) \<noteq> 0 \<and> rp_max_attempts (sv_policy s) \<le> sv_attempts s
        then s\<lparr>sv_failed := True, sv_pc := Pc_Exit\<rparr>
        else s\<lparr>sv_pc := Pc_Backoff (compute_backoff (sv_policy s) (sv_attempts s))\<rparr>)"

definition publish_client :: "Supervisor \<Rightarrow> Supervisor" where
  "publish_client s =
     s\<lparr>sv_client := (if sv_stopping s then map_option (Client_close NoError) (sv_local s) else sv_local s),
       sv_local := None, sv_pc := Pc_Wait_Up\<rparr>"

text \<open>The client is moved out under the lock and destroyed outside of it.\<close>

definition take_client :: "sup_pc \<Rightarrow> Supervisor \<Rightarrow> Supervisor" where
  "take_client pc s = s\<lparr>sv_local := sv_client s, sv_client := None, sv_pc := Pc_Destroy pc\<rparr>"

definition fresh_client :: Client where
  "fresh_client = Client_on_closed True (Client_on_message True Client_new)"

definition closed_reports :: "Client \<Rightarrow> nat" where
  "closed_reports c = length (filter is_closed_report (qc_log c))"

definition destroy_local :: "Supervisor \<Rightarrow> Supervisor" where
  "destroy_local s =
     s\<lparr>sv_local := None,
       sv_drop_signaled := sv_drop_signaled s
         \<or> (case sv_local s of None \<Rightarrow> False | Some c \<Rightarrow> closed_reports c < closed_reports (Client_destroy c))\<rparr>"

fun sup_run_at :: "sup_pc \<Rightarrow> connect_answers \<Rightarrow> bool \<Rightarrow> Supervisor \<Rightarrow> Supervisor option" where
  "sup_run_at Pc_Idle a timed_out s = None"
| "sup_run_at Pc_Top a timed_out s = Some (s\<lparr>sv_pc := if sv_stopping s then Pc_Exit else Pc_Create\<rparr>)"
| "sup_run_at Pc_Create a timed_out s =
     Some (s\<lparr>sv_local := Some fresh_client, sv_drop_signaled := False, sv_pc := Pc_Connect\<rparr>)"
| "sup_run_at Pc_Connect a timed_out s =
     (case sv_local s of
        None \<Rightarrow> None
      | Some c \<Rightarrow>
          (case Client_connect a (sv_client_opts s) c of
             (True, c) \<Rightarrow> Some (s\<lparr>sv_local := Some c, sv_pc := Pc_Publish\<rparr>)
           | (False, c) \<Rightarrow> Some (s\<lparr>sv_local := Some c, sv_pc := Pc_Destroy Pc_Failed\<rparr>)))"
| "sup_run_at Pc_Publish a timed_out s = Some (publish_client s)"
| "sup_run_at Pc_Wait_Up a timed_out s =
     (case sv_client s of
        None \<Rightarrow> None
      | Some c \<Rightarrow> map_option (\<lambda>up. s\<lparr>sv_pc := Pc_Check up\<rparr>) (Client_wait_connected timed_out c))"
| "sup_run_at (Pc_Check up) a timed_out s =
     Some (if sv_stopping s then take_client Pc_Exit s
           else s\<lparr>sv_pc := if up then Pc_Success else Pc_Take_Down\<rparr>)"
| "sup_run_at Pc_Take_Down a timed_out s = Some (take_client Pc_Failed s)"
| "sup_run_at Pc_Failed a timed_out s = Some (handle_failed_attempt s)"
| "sup_run_at (Pc_Backoff delay) a timed_out s =
     (if timed_out \<or> sv_stopping s then Some (s\<lparr>sv_pc := Pc_Top\<rparr>) else None)"
| "sup_run_at Pc_Success a timed_out s =
     Some (s\<lparr>sv_connected := True,
       sv_reconnect_count := sv_reconnect_count s + (if sv_first_connect s then 0 else 1),
       sv_first_connect := False, sv_attempts := 0, sv_pc := Pc_Ready\<rparr>)"
| "sup_run_at Pc_Ready a timed_out s =
     Some (s\<lparr>sv_client := map_option (fold (\<lambda>(f, m) c. snd (Client_send f m c)) (sv_on_ready s)) (sv_client s),
       sv_pc := Pc_Serve\<rparr>)"
| "sup_run_at Pc_Serve a timed_out s =
     (if sv_drop_signaled s \<or> sv_stopping s then Some (s\<lparr>sv_pc := Pc_Down\<rparr>) else None)"
| "sup_run_at Pc_Down a timed_out s =
     Some (take_client (if sv_stopping s then Pc_Exit else Pc_Top) (s\<lparr>sv_connected := False\<rparr>))"
| "sup_run_at Pc_Exit a timed_out s = Some (take_client Pc_Done (s\<lparr>sv_connected := False\<rparr>))"
| "sup_run_at (Pc_Destroy pc) a timed_out s = Some ((destroy_local s)\<lparr>sv_pc := pc\<rparr>)"
| "sup_run_at Pc_Done a timed_out s = None"

definition sup_run :: "connect_answers \<Rightarrow> bool \<Rightarrow> Supervisor \<Rightarrow> Supervisor option" where
  "sup_run a timed_out s = sup_run_at (sv_pc s) a timed_out s"

section \<open>The application and the network thread\<close>

definition Supervisor_start :: "Supervisor \<Rightarrow> Supervisor" where
  "Supervisor_start s = (if sv_started s then s else s\<lparr>sv_started := True, sv_pc := Pc_Top\<rparr>)"

text \<open>\<open>stop\<close> up to its join, which returns when the thread is done.\<close>

definition Supervisor_stop :: "Supervisor \<Rightarrow> Supervisor" where
  "Supervisor_stop s =
     (if \<not> sv_started s then s
      else s\<lparr>sv_stopping := True, sv_client := map_option (Client_close NoError) (sv_client s)\<rparr>)"

definition Supervisor_send :: "Frame \<Rightarrow> DeliveryMode \<Rightarrow> Supervisor \<Rightarrow> bool \<times> Supervisor" where
  "Supervisor_send frame mode s =
     (case sv_client s of
        None \<Rightarrow> (False, s)
      | Some c \<Rightarrow>
          if \<not> sv_connected s then (False, s)
          else (case Client_send frame mode c of (ok, c) \<Rightarrow> (ok, s\<lparr>sv_client := Some c\<rparr>)))"

definition Supervisor_connected :: "Supervisor \<Rightarrow> bool" where
  "Supervisor_connected s = sv_connected s"

definition Supervisor_failed :: "Supervisor \<Rightarrow> bool" where
  "Supervisor_failed s = sv_failed s"

definition Supervisor_reconnect_count :: "Supervisor \<Rightarrow> u64" where
  "Supervisor_reconnect_count s = sv_reconnect_count s"

text \<open>
  The network thread of the client that exists, published or not: one callback of picoquic. The
  closed handler the supervisor installed sets \<open>drop_signaled\<close>.
\<close>

datatype net_event = Net_Event cnx_event | Net_Loop loop_event

fun net_call :: "net_event \<Rightarrow> client_call" where
  "net_call (Net_Event e) = Call_Event e"
| "net_call (Net_Loop e) = Call_Loop e"

definition net_client :: "pico \<Rightarrow> net_event \<Rightarrow> Client \<Rightarrow> Client" where
  "net_client p e c = (if qc_thread_ctx c then run_client_call p (net_call e) c else c)"

definition sup_net :: "pico \<Rightarrow> net_event \<Rightarrow> Supervisor \<Rightarrow> Supervisor" where
  "sup_net p e s =
     (case sv_local s of
        Some c \<Rightarrow>
          (let c' = net_client p e c
           in s\<lparr>sv_local := Some c', sv_drop_signaled := sv_drop_signaled s \<or> closed_reports c < closed_reports c'\<rparr>)
      | None \<Rightarrow>
          (case sv_client s of
             Some c \<Rightarrow>
               (let c' = net_client p e c
                in s\<lparr>sv_client := Some c', sv_drop_signaled := sv_drop_signaled s \<or> closed_reports c < closed_reports c'\<rparr>)
           | None \<Rightarrow> s))"

datatype sup_label = L_Run | L_Net | L_Start | L_Stop | L_Send

inductive sup_step :: "sup_label \<Rightarrow> Supervisor \<Rightarrow> Supervisor \<Rightarrow> bool" where
  run: "sup_run a timed_out s = Some s' \<Longrightarrow> sup_step L_Run s s'"
| net: "sup_step L_Net s (sup_net p e s)"
| start: "sup_step L_Start s (Supervisor_start s)"
| stop: "sup_step L_Stop s (Supervisor_stop s)"
| send: "sup_step L_Send s (snd (Supervisor_send f m s))"

inductive sup_steps :: "sup_label list \<Rightarrow> Supervisor \<Rightarrow> Supervisor \<Rightarrow> bool" where
  sup_refl: "sup_steps [] s s"
| sup_snoc: "sup_steps ls s s' \<Longrightarrow> sup_step l s' s'' \<Longrightarrow> sup_steps (ls @ [l]) s s''"

text \<open>A schedule, executed: the pieces and calls in the order in which they happen.\<close>

datatype sup_action = Do_Run connect_answers bool | Do_Net pico net_event | Do_Start | Do_Stop | Do_Send Frame DeliveryMode

fun sup_do :: "sup_action \<Rightarrow> Supervisor \<Rightarrow> Supervisor option" where
  "sup_do (Do_Run a t) s = sup_run a t s"
| "sup_do (Do_Net p e) s = Some (sup_net p e s)"
| "sup_do Do_Start s = Some (Supervisor_start s)"
| "sup_do Do_Stop s = Some (Supervisor_stop s)"
| "sup_do (Do_Send f m) s = Some (snd (Supervisor_send f m s))"

fun sup_exec :: "sup_action list \<Rightarrow> Supervisor \<Rightarrow> Supervisor option" where
  "sup_exec [] s = Some s"
| "sup_exec (x # xs) s = (case sup_do x s of None \<Rightarrow> None | Some s \<Rightarrow> sup_exec xs s)"

lemma sup_exec_steps:
  "sup_exec xs s' = Some s'' \<Longrightarrow> sup_steps ls s s' \<Longrightarrow> \<exists>ls'. sup_steps ls' s s''"
proof (induction xs arbitrary: s' ls)
  case (Cons x xs)
  then obtain s1 where s1: "sup_do x s' = Some s1" "sup_exec xs s1 = Some s''" by (auto split: option.splits)
  then have "\<exists>l. sup_step l s' s1" by (cases x) (auto intro: sup_step.intros)
  then obtain l where "sup_step l s' s1" by blast
  from sup_snoc [OF Cons.prems(2) this] Cons.IH s1(2) show ?case by blast
qed auto

section \<open>What the client's callbacks leave alone\<close>

definition control :: "Client \<Rightarrow> bool \<times> bool \<times> bool \<times> bool \<times> bool \<times> nat" where
  "control c = (qc_closed_handler c, qc_closing c, qc_closed c, qc_close_requested c, qc_thread_ctx c, closed_reports c)"

lemma control_fields [simp]:
  "control (c\<lparr>qc_flows := t\<rparr>) = control c"
  "control (c\<lparr>qc_decoders := d\<rparr>) = control c"
  "control (c\<lparr>qc_outbound := q\<rparr>) = control c"
  "control (c\<lparr>qc_flow_requests := r\<rparr>) = control c"
  "control (c\<lparr>qc_reset_requests := rr\<rparr>) = control c"
  "control (c\<lparr>qc_queued := n\<rparr>) = control c"
  "control (c\<lparr>qc_datagrams_sent := w\<rparr>) = control c"
  "control (c\<lparr>qc_dropped_datagrams := w\<rparr>) = control c"
  "control (c\<lparr>qc_close_performed := b\<rparr>) = control c"
  "control (c\<lparr>qc_connected := b\<rparr>) = control c"
  "control (c\<lparr>qc_flow_streams := fs\<rparr>) = control c"
  "control (c\<lparr>qc_opened := n\<rparr>) = control c"
  "control (c\<lparr>qc_datagrams_ok := b\<rparr>) = control c"
  "control (c\<lparr>qc_max_datagram := n\<rparr>) = control c"
  by (simp_all add: control_def closed_reports_def)

lemma control_emit [simp]: "\<not> is_closed_report e \<Longrightarrow> control (emit e c) = control c"
  by (simp add: control_def closed_reports_def emit_def)

lemma control_receive [simp]:
  "control (deliver f c) = control c"
  "control (fail_connection code c) = control c"
  "control (gate_and_deliver f b c) = control c"
  by (simp_all add: deliver_def fail_connection_def gate_and_deliver_def Let_def split: FlowState.split prod.split)

lemma control_stream_data [simp]: "control (on_stream_data sid bs fin c) = control c"
  by (simp add: on_stream_data_def drain_decoder_all Let_def fold_invariant [where f = control])

lemma control_serve [simp]:
  "control (service_flow_request r c) = control c"
  "control (service_reset fid c) = control c"
  "control (send_on_stream p fid w c) = control c"
  by (simp_all add: service_flow_request_def service_reset_def send_on_stream_def stream_for_flow_def Let_def
      fold_invariant [where f = control] split: prod.split bool.split option.split)

lemma control_item [simp]: "control (service_item p i c) = control c"
  by (simp add: service_item_def Let_def split: prod.split bool.split ResolvedMode.split)

lemma control_service [simp]: "control (service p c) = control c"
  by (simp add: service_def service_outbound_fold Let_def fold_invariant [where f = control])

lemma control_loop [simp]: "control (loop_callback p e c) = control c"
  by (cases e) simp_all

lemma control_event:
  "control (connection_callback e c) = control c \<or> (\<exists>code. connection_callback e c = signal_closed code c)"
  by (cases e) (auto simp: signal_connected_def split: option.split prod.split DecodeStatus.split)

abbreviation client_ended :: "Client \<Rightarrow> bool" where
  "client_ended c \<equiv> qc_closing c \<or> qc_closed c"

lemma signal_closed_control:
  "qc_closed_handler (signal_closed code c) = qc_closed_handler c"
  "qc_close_requested (signal_closed code c) = qc_close_requested c"
  "closed_reports (signal_closed code c) =
     (if qc_closed_handler c \<and> \<not> client_ended c then Suc (closed_reports c) else closed_reports c)"
  by (auto simp: signal_closed_def emit_def closed_reports_def Let_def)

lemma net_client_cases:
  obtains "control (net_client p e c) = control c" | code where "net_client p e c = signal_closed code c"
proof (cases e)
  case (Net_Event ev)
  with control_event [of ev c] that show thesis by (cases "qc_thread_ctx c") (auto simp: net_client_def)
next
  case (Net_Loop ev)
  with that show thesis by (simp add: net_client_def)
qed

interpretation net_reports:
  ending_reporter "net_client p" qc_closed_handler client_ended qc_close_requested closed_reports for p
proof
  fix c e
  show "qc_closed_handler c \<Longrightarrow> qc_closed_handler (net_client p e c)"
    by (cases rule: net_client_cases [of p e c]) (simp_all add: control_def signal_closed_control)
  show "qc_close_requested c \<Longrightarrow> qc_close_requested (net_client p e c)"
    by (cases rule: net_client_cases [of p e c]) (simp_all add: control_def signal_closed_control)
  show "qc_closed_handler c \<Longrightarrow> \<not> client_ended c \<Longrightarrow> client_ended (net_client p e c)
      \<Longrightarrow> closed_reports c < closed_reports (net_client p e c)"
    by (cases rule: net_client_cases [of p e c]) (simp_all add: control_def signal_closed_control)
  show "closed_reports c \<le> closed_reports (net_client p e c)"
    by (cases rule: net_client_cases [of p e c]) (simp_all add: control_def signal_closed_control)
qed

section \<open>The invariant\<close>

text \<open>The places where a published client exists, and where the thread holds one of its own.\<close>

fun published_at :: "sup_pc \<Rightarrow> bool" where
  "published_at Pc_Wait_Up = True"
| "published_at (Pc_Check up) = True"
| "published_at Pc_Take_Down = True"
| "published_at Pc_Success = True"
| "published_at Pc_Ready = True"
| "published_at Pc_Serve = True"
| "published_at Pc_Down = True"
| "published_at pc = False"

fun local_ok :: "sup_pc \<Rightarrow> bool \<Rightarrow> bool" where
  "local_ok Pc_Connect b = b"
| "local_ok Pc_Publish b = b"
| "local_ok (Pc_Destroy pc) b = True"
| "local_ok pc b = (\<not> b)"

fun destroy_ok :: "sup_pc \<Rightarrow> bool" where
  "destroy_ok (Pc_Destroy pc) = (pc \<in> {Pc_Failed, Pc_Exit, Pc_Top, Pc_Done})"
| "destroy_ok pc = True"

definition knows_end :: "bool \<Rightarrow> Client option \<Rightarrow> bool" where
  "knows_end flag oc = (case oc of None \<Rightarrow> True | Some c \<Rightarrow> qc_closed_handler c \<and> (client_ended c \<longrightarrow> flag))"

lemma knows_end_None [simp]: "knows_end flag None"
  by (simp add: knows_end_def)

definition sup_inv :: "Supervisor \<Rightarrow> bool" where
  "sup_inv s \<longleftrightarrow>
     (sv_client s \<noteq> None) = published_at (sv_pc s)
     \<and> local_ok (sv_pc s) (sv_local s \<noteq> None)
     \<and> sv_connected s = (sv_pc s \<in> {Pc_Ready, Pc_Serve, Pc_Down})
     \<and> knows_end (sv_drop_signaled s) (sv_client s) \<and> knows_end (sv_drop_signaled s) (sv_local s)
     \<and> (sv_stopping s \<longrightarrow> pred_option qc_close_requested (sv_client s))
     \<and> (sv_failed s \<longrightarrow> rp_max_attempts (sv_policy s) \<noteq> 0 \<and> rp_max_attempts (sv_policy s) \<le> sv_attempts s
          \<and> sv_pc s \<in> {Pc_Exit, Pc_Destroy Pc_Done, Pc_Done})
     \<and> destroy_ok (sv_pc s)
     \<and> sv_started s = (sv_pc s \<noteq> Pc_Idle)
     \<and> (sv_stopping s \<longrightarrow> sv_started s)"

lemma sup_inv_new: "sup_inv (Supervisor_new opts policy ready)"
  by (simp add: sup_inv_def Supervisor_new_def knows_end_def)

lemma send_control:
  "control (snd (Client_send f m c)) = control c"
  "control (wake c) = control c"
  by (simp_all add: Client_send_def wake_def)

lemma control_eqD:
  assumes "control c = control c'"
  shows "knows_end flag (Some c) = knows_end flag (Some c')" "qc_close_requested c = qc_close_requested c'"
  using assms by (simp_all add: control_def knows_end_def)

lemma sends_control: "control (fold (\<lambda>(f, m) c. snd (Client_send f m c)) fs c) = control c"
  by (rule fold_invariant) (simp add: send_control split: prod.split)

lemma close_control:
  "knows_end flag (Some (Client_close e c)) = knows_end flag (Some c)" "qc_close_requested (Client_close e c)"
  by (simp_all add: Client_close_def wake_def emit_def knows_end_def)

lemma connect_control:
  "knows_end flag (Some (snd (Client_connect a opts c))) = knows_end flag (Some c)"
  by (simp add: Client_connect_def create_client_def set_timeouts_def keep_alive_def emit_def knows_end_def Let_def)

lemma fresh_control: "knows_end flag (Some fresh_client)"
  by (simp add: fresh_client_def Client_on_closed_def Client_on_message_def Client_new_def knows_end_def)

lemma destroy_silent [simp]: "closed_reports (Client_destroy c) = closed_reports c"
  by (simp add: Client_destroy_def signal_closed_def closed_reports_def Let_def)

lemma net_knows_end:
  "knows_end flag (Some c) \<Longrightarrow> knows_end (flag \<or> closed_reports c < closed_reports (net_client p e c)) (Some (net_client p e c))"
  using net_reports.flag_knows_end [of c flag p e] net_reports.armed_act [of c p e]
  by (auto simp: knows_end_def)

lemma sup_inv_run:
  assumes "sup_inv s" and "sup_run a t s = Some s'"
  shows "sup_inv s'"
proof (cases "sv_pc s")
  case Pc_Connect
  then obtain c where c: "sv_local s = Some c" using assms by (auto simp: sup_inv_def)
  obtain ok c' where k: "Client_connect a (sv_client_opts s) c = (ok, c')" by (cases "Client_connect a (sv_client_opts s) c")
  then have "knows_end (sv_drop_signaled s) (Some c')"
    using connect_control [of "sv_drop_signaled s" a "sv_client_opts s" c] assms(1) c by (simp add: sup_inv_def)
  moreover from assms(2) c k Pc_Connect
  have "s' = s\<lparr>sv_local := Some c', sv_pc := if ok then Pc_Publish else Pc_Destroy Pc_Failed\<rparr>"
    by (cases ok) (simp_all add: sup_run_def)
  ultimately show ?thesis
    using assms(1) Pc_Connect by (cases ok) (simp_all add: sup_inv_def)
next
  case Pc_Create
  then have "s' = s\<lparr>sv_local := Some fresh_client, sv_drop_signaled := False, sv_pc := Pc_Connect\<rparr>"
    using assms(2) by (simp add: sup_run_def)
  then show ?thesis using assms(1) Pc_Create by (simp add: sup_inv_def fresh_control)
next
  case Pc_Publish
  then obtain c where c: "sv_local s = Some c" using assms by (auto simp: sup_inv_def)
  moreover have "s' = publish_client s" using assms(2) Pc_Publish by (simp add: sup_run_def)
  ultimately show ?thesis
    using assms(1) Pc_Publish by (simp add: sup_inv_def publish_client_def close_control)
next
  case Pc_Ready
  then obtain c where c: "sv_client s = Some c" using assms by (auto simp: sup_inv_def)
  have "knows_end (sv_drop_signaled s) (Some (fold (\<lambda>(f, m) c. snd (Client_send f m c)) (sv_on_ready s) c))"
    "qc_close_requested (fold (\<lambda>(f, m) c. snd (Client_send f m c)) (sv_on_ready s) c) = qc_close_requested c"
    using control_eqD [OF sends_control] assms(1) c by (simp_all add: sup_inv_def)
  moreover have "s' = s\<lparr>sv_client := Some (fold (\<lambda>(f, m) c. snd (Client_send f m c)) (sv_on_ready s) c), sv_pc := Pc_Serve\<rparr>"
    using assms(2) Pc_Ready c by (simp add: sup_run_def)
  ultimately show ?thesis using assms(1) c Pc_Ready by (simp add: sup_inv_def)
next
  case Pc_Failed
  with assms show ?thesis
    by (auto simp: sup_inv_def sup_run_def handle_failed_attempt_def Let_def split: if_splits)
next
  case (Pc_Destroy pc)
  then have s': "s' = s\<lparr>sv_local := None, sv_pc := pc\<rparr>"
    using assms(2) by (cases "sv_local s") (simp_all add: sup_run_def destroy_local_def)
  from Pc_Destroy assms(1) consider "pc = Pc_Failed" | "pc = Pc_Exit" | "pc = Pc_Top" | "pc = Pc_Done"
    by (auto simp: sup_inv_def)
  then show ?thesis using assms(1) Pc_Destroy by cases (simp_all add: sup_inv_def s')
qed (insert assms, (clarsimp simp: sup_run_def take_client_def split: option.splits if_splits;
    fastforce simp: sup_inv_def)+)

lemma sup_inv_net: "sup_inv s \<Longrightarrow> sup_inv (sup_net p e s)"
proof -
  assume inv: "sup_inv s"
  have other: "sv_client s = None" if "sv_local s \<noteq> None"
    using inv that by (cases "sv_pc s") (auto simp: sup_inv_def)
  have asked: "qc_close_requested c \<Longrightarrow> qc_close_requested (net_client p e c)" for c
    by (rule net_reports.asked_act)
  show ?thesis
  proof (cases "sv_local s")
    case (Some c)
    with inv other show ?thesis
      using net_knows_end [of "sv_drop_signaled s" c p e] by (auto simp: sup_inv_def sup_net_def Let_def)
  next
    case None
    with inv show ?thesis
      using net_knows_end [of "sv_drop_signaled s" _ p e] asked
      by (cases "sv_client s") (auto simp: sup_inv_def sup_net_def Let_def)
  qed
qed

lemma sup_inv_step: "sup_step l s s' \<Longrightarrow> sup_inv s \<Longrightarrow> sup_inv s'"
proof (induction rule: sup_step.induct)
  case (run a t s s')
  then show ?case by (blast intro: sup_inv_run)
next
  case (net s p e)
  then show ?case by (rule sup_inv_net)
next
  case (start s)
  then show ?case by (auto simp: sup_inv_def Supervisor_start_def)
next
  case (stop s)
  then show ?case
    by (cases "sv_client s") (auto simp: sup_inv_def Supervisor_stop_def close_control)
next
  case (send s f m)
  show ?case
  proof (cases "sv_client s")
    case (Some c)
    with send control_eqD [OF send_control(1) [of f m c]] show ?thesis
      by (cases "Client_send f m c") (auto simp: sup_inv_def Supervisor_send_def)
  qed (use send in \<open>simp add: Supervisor_send_def\<close>)
qed

lemma sup_inv_steps: "sup_steps ls s s' \<Longrightarrow> sup_inv s \<Longrightarrow> sup_inv s'"
  by (induction rule: sup_steps.induct) (blast intro: sup_inv_step)+

section \<open>Stopping\<close>

text \<open>How many pieces the thread still executes at most once a stop was asked for.\<close>

fun sup_rank :: "sup_pc \<Rightarrow> nat" where
  "sup_rank Pc_Done = 0"
| "sup_rank Pc_Exit = 2"
| "sup_rank Pc_Top = 3"
| "sup_rank Pc_Failed = 3"
| "sup_rank (Pc_Backoff d) = 4"
| "sup_rank (Pc_Destroy pc) = Suc (sup_rank pc)"
| "sup_rank Pc_Take_Down = 5"
| "sup_rank Pc_Down = 4"
| "sup_rank Pc_Serve = 5"
| "sup_rank Pc_Ready = 6"
| "sup_rank Pc_Success = 7"
| "sup_rank (Pc_Check up) = 8"
| "sup_rank Pc_Wait_Up = 9"
| "sup_rank Pc_Publish = 10"
| "sup_rank Pc_Connect = 11"
| "sup_rank Pc_Create = 12"
| "sup_rank Pc_Idle = 4"

lemma run_while_stopping:
  assumes "sup_inv s" "sv_stopping s" and "sup_run a t s = Some s'"
  shows "sv_stopping s' \<and> sup_rank (sv_pc s') < sup_rank (sv_pc s)"
  using assms
  by (cases "sv_pc s")
    (auto simp: sup_run_def handle_failed_attempt_def publish_client_def take_client_def destroy_local_def
      split: option.splits prod.splits bool.splits if_splits)

lemma other_while_stopping:
  assumes "sup_step l s s'" and "l \<noteq> L_Run" "sup_inv s" "sv_stopping s"
  shows "sv_stopping s' \<and> sv_pc s' = sv_pc s"
  using assms
  by (induction rule: sup_step.induct)
    (auto simp: sup_net_def Supervisor_start_def Supervisor_stop_def Supervisor_send_def sup_inv_def Let_def
      split: option.split prod.split)

lemma steps_while_stopping:
  assumes "sup_steps ls s s'" and "sup_inv s" "sv_stopping s"
  shows "sup_inv s' \<and> sv_stopping s' \<and> length (filter (\<lambda>l. l = L_Run) ls) + sup_rank (sv_pc s') \<le> sup_rank (sv_pc s)"
  using assms
proof (induction rule: sup_steps.induct)
  case (sup_snoc ls s s' l s'')
  then have IH: "sup_inv s'" "sv_stopping s'"
    "length (filter (\<lambda>l. l = L_Run) ls) + sup_rank (sv_pc s') \<le> sup_rank (sv_pc s)" by auto
  have inv: "sup_inv s''" using sup_inv_step sup_snoc.hyps(2) IH(1) by blast
  show ?case
  proof (cases "l = L_Run")
    case True
    with sup_snoc.hyps(2) obtain a t where "sup_run a t s' = Some s''" by (auto elim: sup_step.cases)
    from run_while_stopping [OF IH(1,2) this] inv IH(3) True show ?thesis by simp
  next
    case False
    from other_while_stopping [OF sup_snoc.hyps(2) False IH(1,2)] inv IH(3) False show ?thesis by simp
  qed
qed simp

lemma sup_rank_bound: "destroy_ok pc \<Longrightarrow> sup_rank pc \<le> 12"
  by (cases pc) auto

lemma run_not_blocked:
  assumes "sup_inv s" "sv_stopping s" "sv_pc s \<noteq> Pc_Done"
  shows "sup_run a (sv_pc s = Pc_Wait_Up) s \<noteq> None"
  using assms
  by (cases "sv_pc s")
    (auto simp: sup_inv_def sup_run_def Client_wait_connected_def split: option.splits prod.splits bool.splits)

section \<open>Backoff\<close>

lemma backoff_loop_exact:
  assumes "0 \<le> d" "d \<le> mx" "mx \<le> 2 ^ 62"
  shows "backoff_loop n mx d = Some (min (d * 2 ^ n) mx)"
  using assms
proof (induction n arbitrary: d)
  case (Suc n)
  show ?case
  proof (cases "mx \<le> d")
    case True
    have "d * 1 \<le> d * 2 ^ Suc n"
      by (intro mult_left_mono one_le_power) (use Suc.prems in simp_all)
    with True Suc.prems show ?thesis by simp
  next
    case False
    then have "in_int64 (d * 2)" using Suc.prems by (simp add: in_int64_def)
    moreover have "backoff_loop n mx (d * 2) = Some (min (d * 2 * 2 ^ n) mx)" if "d * 2 \<le> mx"
      by (rule Suc.IH) (use Suc.prems that in simp_all)
    moreover have "backoff_loop n mx (d * 2) = Some mx" if "mx < d * 2"
      using that by (cases n) simp_all
    moreover have "mx \<le> d * 2 * 2 ^ n" if "mx < d * 2"
    proof -
      have "d * 2 * 1 \<le> d * 2 * 2 ^ n" using Suc.prems by (intro mult_left_mono) simp_all
      with that show ?thesis by simp
    qed
    ultimately show ?thesis using False by (cases "d * 2 \<le> mx") (simp_all add: mult.assoc)
  qed
qed simp

lemma backoff_cap:
  assumes "0 \<le> (d :: int)" "mx \<le> 2 ^ 62" and "d \<le> mx"
  shows "min (d * 2 ^ min n 62) mx = min (d * 2 ^ n) mx"
proof (cases "n \<le> 62 \<or> d = 0")
  case False
  then have "1 * 2 ^ 62 \<le> d * 2 ^ 62" "1 * 2 ^ 62 \<le> d * 2 ^ n"
    using assms(1) by (intro mult_mono power_increasing; simp)+
  with assms False show ?thesis by simp
qed auto

section \<open>A run of the supervisor\<close>

text \<open>A connection that comes up, is served and is dropped by the peer.\<close>

definition demo_schedule :: "sup_action list" where
  "demo_schedule = [Do_Start, Do_Run demo_answers False, Do_Run demo_answers False, Do_Run demo_answers False,
     Do_Run demo_answers False, Do_Net demo_pico (Net_Event (Ev_Ready None)), Do_Run demo_answers False,
     Do_Run demo_answers False, Do_Run demo_answers False, Do_Run demo_answers False,
     Do_Net demo_pico (Net_Event Ev_Close)]"

definition demo_supervisor :: Supervisor where
  "demo_supervisor = Supervisor_new default_client_options default_reconnect_policy [(demo_frame [3], Mode_Stream)]"

lemma demo_fresh: "snd (Client_connect demo_answers default_client_options fresh_client) =
   fresh_client\<lparr>qc_log := demo_setup, qc_quic := True, qc_cnx := True, qc_thread_ctx := True, qc_started := True\<rparr>"
  "fst (Client_connect demo_answers default_client_options fresh_client)"
  by (simp_all add: fresh_client_def Client_connect_def create_client_def set_timeouts_def keep_alive_def
        emit_def Let_def default_client_options_def Client_new_def demo_answers_def Client_on_closed_def Client_on_message_def)

lemma demo_run:
  "\<exists>s c. sup_exec demo_schedule demo_supervisor = Some s \<and> sv_client s = Some c \<and> sv_pc s = Pc_Serve \<and> qc_closed c"
proof -
  obtain c where k: "Client_connect demo_answers default_client_options fresh_client = (True, c)"
    and c: "c = fresh_client\<lparr>qc_log := demo_setup, qc_quic := True, qc_cnx := True, qc_thread_ctx := True, qc_started := True\<rparr>"
    using demo_fresh by (metis prod.collapse)
  have "\<not> qc_closed c" "qc_thread_ctx c" "\<not> qc_closing c" by (simp_all add: c fresh_client_def Client_on_closed_def Client_on_message_def Client_new_def)
  then show ?thesis
    by (simp add: demo_schedule_def demo_supervisor_def Supervisor_new_def Supervisor_start_def sup_run_def k
      publish_client_def sup_net_def net_client_def signal_connected_def Client_wait_connected_def Let_def
      Client_send_def wake_def signal_closed_def emit_def)
qed

section \<open>Properties\<close>



text \<open>
  C5. Whatever the order of the supervisor's pieces, the network thread's callbacks and the
  application's calls: \<open>connected\<close> is only ever true while a client is published, the drop signal of
  that client is never lost (a client that has ended, published or about to be, has set
  \<open>drop_signaled\<close>, so the wait for a drop cannot block), after \<open>stop\<close> the published client has been
  told to close, the supervisor reports \<open>failed\<close> only after the allowed number of attempts, and
  once its thread is done no client is left.
\<close>

theorem supervisor_safe:
  assumes "sup_steps ls (Supervisor_new opts policy ready) s"
  shows "(if sv_connected s then sv_client s \<noteq> None else True)
    \<and> (case sv_client s of None \<Rightarrow> True | Some c \<Rightarrow>
         (if client_ended c then sv_drop_signaled s else True) \<and> (if sv_stopping s then qc_close_requested c else True))
    \<and> (if sv_pc s = Pc_Serve then
         (case sv_client s of None \<Rightarrow> False | Some c \<Rightarrow> (if client_ended c then sup_run a False s \<noteq> None else True))
       else True)
    \<and> (if sv_failed s then rp_max_attempts (sv_policy s) \<noteq> 0 \<and> rp_max_attempts (sv_policy s) \<le> sv_attempts s else True)
    \<and> (if sv_pc s = Pc_Done then sv_client s = None \<and> sv_local s = None \<and> \<not> sv_connected s else True)"
proof -
  have inv: "sup_inv s" by (rule sup_inv_steps [OF assms sup_inv_new])
  show ?thesis
  proof (cases "sv_client s")
    case None
    with inv show ?thesis by (simp add: sup_inv_def) (cases "sv_pc s"; simp)
  next
    case (Some c)
    with inv show ?thesis by (simp add: sup_inv_def knows_end_def sup_run_def) (cases "sv_pc s"; simp)
  qed
qed

theorem supervisor_safe_witness:
  "\<exists>ls s c. sup_steps ls demo_supervisor s \<and> sv_pc s = Pc_Serve \<and> sv_client s = Some c \<and> qc_closed c
     \<and> sv_drop_signaled s \<and> sup_run demo_answers False s \<noteq> None"
proof -
  obtain s c where s: "sup_exec demo_schedule demo_supervisor = Some s" "sv_client s = Some c" "sv_pc s = Pc_Serve" "qc_closed c"
    using demo_run by blast
  with sup_exec_steps [OF s(1) sup_refl] obtain ls where ls: "sup_steps ls demo_supervisor s" by blast
  from supervisor_safe [OF this [unfolded demo_supervisor_def], of demo_answers] s(2-4)
  have "sv_drop_signaled s \<and> sup_run demo_answers False s \<noteq> None" by simp
  with ls s(2-4) show ?thesis by blast
qed

text \<open>
  C14. \<open>stop\<close> comes back: after it was called the supervisor thread executes at most twelve more
  pieces, whatever the network thread and other callers do in between, and until it is done
  it is never blocked, except in \<open>wait_connected\<close>, which ends with its timeout or earlier, since the
  client it waits for was told to close.
\<close>

theorem supervisor_stop_returns:
  assumes "sup_steps ls0 (Supervisor_new opts policy ready) s" "sv_started s"
    and "sup_steps ls (Supervisor_stop s) s'"
  shows "length (filter (\<lambda>l. l = L_Run) ls) \<le> 12
    \<and> (if sv_pc s' = Pc_Done then True
       else sup_run a (sv_pc s' = Pc_Wait_Up) s' \<noteq> None
         \<and> (if sv_pc s' = Pc_Wait_Up then pred_option qc_close_requested (sv_client s') else True))"
proof -
  have "sup_inv s" by (rule sup_inv_steps [OF assms(1) sup_inv_new])
  then have "sup_inv (Supervisor_stop s)" by (rule sup_inv_step [OF sup_step.stop])
  moreover have "sv_stopping (Supervisor_stop s)" using assms(2) by (simp add: Supervisor_stop_def)
  moreover from calculation have "destroy_ok (sv_pc (Supervisor_stop s))" by (simp add: sup_inv_def)
  ultimately have fin: "sup_inv s'" "sv_stopping s'"
    and "length (filter (\<lambda>l. l = L_Run) ls) + sup_rank (sv_pc s') \<le> sup_rank (sv_pc (Supervisor_stop s))"
    and "destroy_ok (sv_pc (Supervisor_stop s))"
    using steps_while_stopping [OF assms(3)] by simp_all
  moreover from fin have "pred_option qc_close_requested (sv_client s')" by (simp add: sup_inv_def)
  ultimately show ?thesis
    using run_not_blocked [OF fin, of a] sup_rank_bound [of "sv_pc (Supervisor_stop s)"] by simp
qed

theorem supervisor_stop_returns_witness:
  "\<exists>s. sv_pc s = Pc_Serve \<and> sv_started s \<and> sup_run demo_answers False (Supervisor_stop s) \<noteq> None"
proof -
  obtain s c where s: "sup_exec demo_schedule demo_supervisor = Some s" "sv_pc s = Pc_Serve"
    using demo_run by blast
  with sup_exec_steps [OF s(1) sup_refl] obtain ls where ls: "sup_steps ls demo_supervisor s" by blast
  then have "sup_inv s" unfolding demo_supervisor_def by (rule sup_inv_steps) (rule sup_inv_new)
  with s(2) have started: "sv_started s" by (simp add: sup_inv_def)
  then have pc: "sv_pc (Supervisor_stop s) = Pc_Serve" using s(2) by (simp add: Supervisor_stop_def)
  from supervisor_stop_returns [OF ls [unfolded demo_supervisor_def] started sup_refl, of demo_answers] pc
  have "sup_run demo_answers False (Supervisor_stop s) \<noteq> None" by simp
  with s(2) started show ?thesis by blast
qed

end
