(* ===== verification/Rtmp_Message.thy ===== *)
theory Rtmp_Message
  imports Interfaces
begin

text \<open>
  \<^verbatim>\<open>rtmp/include/roqr/rtmp/message.hpp\<close>: one de-chunked RTMP message and the message type ids,
  with the fixed-width integer readers and writers of the RTMP sources
  (\<^verbatim>\<open>chunk_reader.cpp\<close>, \<^verbatim>\<open>chunk_writer.cpp\<close>).
\<close>

record RtmpMessage =
  m_timestamp :: u32
  m_type :: byte
  m_message_stream_id :: u32
  m_chunk_stream_id :: u32
  m_payload :: bytes

definition empty_message :: RtmpMessage where
  "empty_message = \<lparr>m_timestamp = 0, m_type = 0, m_message_stream_id = 0,
     m_chunk_stream_id = 0, m_payload = []\<rparr>"

definition kDefaultChunkSize :: u32 where "kDefaultChunkSize = 128"
definition kTypeSetChunkSize :: byte where "kTypeSetChunkSize = 1"
definition kTypeAbort :: byte where "kTypeAbort = 2"
definition kTypeAcknowledgement :: byte where "kTypeAcknowledgement = 3"
definition kTypeUserControl :: byte where "kTypeUserControl = 4"
definition kTypeWindowAckSize :: byte where "kTypeWindowAckSize = 5"
definition kTypeSetPeerBandwidth :: byte where "kTypeSetPeerBandwidth = 6"
definition kTypeAudio :: byte where "kTypeAudio = 8"
definition kTypeVideo :: byte where "kTypeVideo = 9"
definition kTypeDataAmf0 :: byte where "kTypeDataAmf0 = 18"
definition kTypeCommandAmf0 :: byte where "kTypeCommandAmf0 = 20"

lemmas message_types = kTypeSetChunkSize_def kTypeAbort_def kTypeAcknowledgement_def
  kTypeUserControl_def kTypeWindowAckSize_def kTypeSetPeerBandwidth_def kTypeAudio_def
  kTypeVideo_def kTypeDataAmf0_def kTypeCommandAmf0_def

section \<open>Fixed-width integers on the wire\<close>

definition put_u24 :: "u32 \<Rightarrow> bytes \<Rightarrow> bytes" where
  "put_u24 v out = out @ [ucast (drop_bit 16 v), ucast (drop_bit 8 v), ucast v]"

definition put_u32be :: "u32 \<Rightarrow> bytes \<Rightarrow> bytes" where
  "put_u32be v out =
     out @ [ucast (drop_bit 24 v), ucast (drop_bit 16 v), ucast (drop_bit 8 v), ucast v]"

definition put_u32le :: "u32 \<Rightarrow> bytes \<Rightarrow> bytes" where
  "put_u32le v out =
     out @ [ucast v, ucast (drop_bit 8 v), ucast (drop_bit 16 v), ucast (drop_bit 24 v)]"

text \<open>The pointer readers: the argument is what the pointer points at.\<close>

definition be24 :: "bytes \<Rightarrow> u32" where
  "be24 p = push_bit 16 (ucast (p ! 0)) OR push_bit 8 (ucast (p ! 1)) OR ucast (p ! 2)"

definition be32 :: "bytes \<Rightarrow> u32" where
  "be32 p = push_bit 24 (ucast (p ! 0)) OR push_bit 16 (ucast (p ! 1))
     OR push_bit 8 (ucast (p ! 2)) OR ucast (p ! 3)"

definition le32 :: "bytes \<Rightarrow> u32" where
  "le32 p = push_bit 24 (ucast (p ! 3)) OR push_bit 16 (ucast (p ! 2))
     OR push_bit 8 (ucast (p ! 1)) OR ucast (p ! 0)"

text \<open>All of them are big-endian byte strings, reversed for the little-endian pair.\<close>

lemma put_be_bytes:
  "put_u24 v [] = be_bytes 3 v" "put_u32be v [] = be_bytes 4 v" "put_u32le v [] = rev (be_bytes 4 v)"
  by (simp_all add: put_u24_def put_u32be_def put_u32le_def be_bytes_unrolled)

lemma be24_fold: "be24 (b0 # b1 # b2 # rest) = be_fold 0 [b0, b1, b2]"
  by (simp add: be24_def be_fold_def push_bit_or or.assoc numeral_2_eq_2)

lemma be32_fold: "be32 (b0 # b1 # b2 # b3 # rest) = be_fold 0 [b0, b1, b2, b3]"
  by (simp add: be32_def be_fold_def push_bit_or or.assoc numeral_2_eq_2 numeral_3_eq_3)

lemma le32_be32: "le32 (b0 # b1 # b2 # b3 # rest) = be32 [b3, b2, b1, b0]"
  by (simp add: le32_def be32_def numeral_2_eq_2 numeral_3_eq_3)

lemma be24_put_u24: "be24 (put_u24 v [] @ rest) = take_bit 24 v"
  using be_fold_be_bytes [of 0 3 v] by (simp add: put_be_bytes [symmetric] put_u24_def be24_fold)

lemma be32_put_u32be: "be32 (put_u32be v [] @ rest) = v"
  using be_fold_be_bytes_full [of 4 v] by (simp add: put_be_bytes [symmetric] put_u32be_def be32_fold)

lemma le32_put_u32le: "le32 (put_u32le v [] @ rest) = v"
  using be32_put_u32be [of v "[]"] by (simp add: put_u32le_def put_u32be_def le32_be32)

lemma put_append [wire_simps]:
  "out @ put_u24 v [] = put_u24 v out"
  "out @ put_u32be v [] = put_u32be v out"
  "out @ put_u32le v [] = put_u32le v out"
  by (simp_all add: put_u24_def put_u32be_def put_u32le_def)

lemma length_put [simp]:
  "length (put_u24 v out) = length out + 3"
  "length (put_u32be v out) = length out + 4"
  "length (put_u32le v out) = length out + 4"
  by (simp_all add: put_u24_def put_u32be_def put_u32le_def)

lemma reader_append:
  "3 \<le> length p \<Longrightarrow> be24 (p @ q) = be24 p"
  "4 \<le> length p \<Longrightarrow> be32 (p @ q) = be32 p"
  "4 \<le> length p \<Longrightarrow> le32 (p @ q) = le32 p"
  by (auto simp: be24_def be32_def le32_def nth_append)

end
