(* ===== verification/Classify.thy ===== *)
theory Classify
  imports Rtmp_Message
begin

text \<open>
  \<^verbatim>\<open>rtmp/src/classify.cpp\<close>: what kind of media an RTMP message carries, read from the first
  bytes of its payload (legacy FLV tags and Enhanced RTMP extended headers).

  Every \<open>p[i]\<close> on the span is \<open>read_at p i\<close>, whose value \<open>None\<close> is an access out of bounds; so
  the functions here return an option, and \<open>classify_total\<close> shows it is never \<open>None\<close>. Inside it,
  a function whose C++ result is a \<open>std::optional\<close> returns a second option.
\<close>

section \<open>The code\<close>

datatype MediaClass = SequenceHeader | Metadata | Keyframe | Coded | Control | Class_Unknown

record MediaInfo =
  mi_cls :: MediaClass
  mi_enhanced :: bool
  mi_multitrack :: bool
  mi_force_stream :: bool
  mi_fourcc :: u32
  mi_codec :: byte

definition MediaInfo_new :: MediaInfo where
  "MediaInfo_new = \<lparr>mi_cls = Class_Unknown, mi_enhanced = False, mi_multitrack = False,
     mi_force_stream = False, mi_fourcc = 0, mi_codec = 0\<rparr>"

definition unknown_reliable :: MediaInfo where
  "unknown_reliable = MediaInfo_new\<lparr>mi_cls := Class_Unknown, mi_force_stream := True\<rparr>"

definition unknown_reliable_enhanced :: MediaInfo where
  "unknown_reliable_enhanced = unknown_reliable\<lparr>mi_enhanced := True\<rparr>"

definition read_at :: "bytes \<Rightarrow> nat \<Rightarrow> byte option" where
  "read_at p i = (if i < length p then Some (p ! i) else None)"

text \<open>One ModEx block, from its size byte to the packet type behind it.\<close>

definition modex_tail :: "bytes \<Rightarrow> nat \<Rightarrow> nat \<Rightarrow> (byte \<times> nat) option option" where
  "modex_tail p pos sz =
     (if length p < pos + sz + 1 then Some None
      else do { b \<leftarrow> read_at p (pos + sz); Some (Some (b AND 0x0F, pos + sz + 1)) })"

definition modex_block :: "bytes \<Rightarrow> nat \<Rightarrow> (byte \<times> nat) option option" where
  "modex_block p pos =
     (if length p \<le> pos then Some None
      else do {
        b \<leftarrow> read_at p pos;
        let sz = unat b + 1;
        let pos = pos + 1;
        if sz = 256 then
          (if length p < pos + 2 then Some None
           else do {
             hi \<leftarrow> read_at p pos;
             lo \<leftarrow> read_at p (pos + 1);
             modex_tail p (pos + 2) ((push_bit 8 (unat hi) OR unat lo) + 1)
           })
        else modex_tail p pos sz
      })"

lemma modex_tail_pos: "modex_tail p pos sz = Some (Some (t, pos')) \<Longrightarrow> pos < pos' \<and> pos' \<le> length p"
  by (auto simp: modex_tail_def bind_eq_Some_conv split: if_splits)

lemma modex_block_pos: "modex_block p pos = Some (Some (t, pos')) \<Longrightarrow> pos < pos' \<and> pos' \<le> length p"
  by (auto simp: modex_block_def bind_eq_Some_conv Let_def dest!: modex_tail_pos split: if_splits)

function skip_modex :: "bytes \<Rightarrow> nat \<Rightarrow> byte \<Rightarrow> (byte \<times> nat) option option" where
  "skip_modex p pos packet_type =
     (if packet_type = 7 then
        (case modex_block p pos of
           None \<Rightarrow> None
         | Some None \<Rightarrow> Some None
         | Some (Some (packet_type, pos)) \<Rightarrow> skip_modex p pos packet_type)
      else Some (Some (packet_type, pos)))"
  by pat_completeness auto
termination
  by (relation "measure (\<lambda>(p, pos, t). length p - pos)") (auto dest!: modex_block_pos)

declare skip_modex.simps [simp del]

definition read_fourcc :: "bytes \<Rightarrow> nat \<Rightarrow> (u32 \<times> nat) option option" where
  "read_fourcc p pos =
     (if length p < pos + 4 then Some None
      else do {
        a \<leftarrow> read_at p pos; b \<leftarrow> read_at p (pos + 1); c \<leftarrow> read_at p (pos + 2); d \<leftarrow> read_at p (pos + 3);
        Some (Some (push_bit 24 (ucast a) OR push_bit 16 (ucast b) OR push_bit 8 (ucast c) OR ucast d, pos + 4))
      })"

text \<open>The multitrack branch, the same lines in the video and in the audio function.\<close>

definition classify_multitrack :: "bytes \<Rightarrow> nat \<Rightarrow> MediaInfo \<Rightarrow> MediaInfo option" where
  "classify_multitrack p pos info =
     (let info = info\<lparr>mi_cls := Coded, mi_multitrack := True, mi_force_stream := True\<rparr> in
      if pos < length p then
        do {
          b \<leftarrow> read_at p pos;
          if drop_bit 4 b \<noteq> 2 then
            do {
              f \<leftarrow> read_fourcc p (pos + 1);
              Some (case f of Some (fcc, _) \<Rightarrow> info\<lparr>mi_fourcc := fcc\<rparr> | None \<Rightarrow> info)
            }
          else Some info
        }
      else Some info)"

definition classify_video_enhanced :: "bytes \<Rightarrow> MediaInfo option" where
  "classify_video_enhanced p =
     do {
       b0 \<leftarrow> read_at p 0;
       let info = MediaInfo_new\<lparr>mi_enhanced := True\<rparr>;
       let frame_type = drop_bit 4 b0 AND 0x07;
       r \<leftarrow> skip_modex p 1 (b0 AND 0x0F);
       case r of
         None \<Rightarrow> Some unknown_reliable_enhanced
       | Some (packet_type, pos) \<Rightarrow>
           if packet_type = 6 then classify_multitrack p pos info
           else do {
             f \<leftarrow> read_fourcc p pos;
             case f of
               None \<Rightarrow> Some unknown_reliable_enhanced
             | Some (fcc, _) \<Rightarrow>
                 (let info = info\<lparr>mi_fourcc := fcc\<rparr> in
                  if packet_type = 0 \<or> packet_type = 5 then Some (info\<lparr>mi_cls := SequenceHeader\<rparr>)
                  else if packet_type = 1 \<or> packet_type = 3 then
                    Some (info\<lparr>mi_cls := (if frame_type = 1 then Keyframe else Coded)\<rparr>)
                  else if packet_type = 2 then Some (info\<lparr>mi_cls := Control\<rparr>)
                  else if packet_type = 4 then Some (info\<lparr>mi_cls := Metadata\<rparr>)
                  else Some unknown_reliable_enhanced)
           }
     }"

definition classify_audio_enhanced :: "bytes \<Rightarrow> MediaInfo option" where
  "classify_audio_enhanced p =
     do {
       b0 \<leftarrow> read_at p 0;
       let info = MediaInfo_new\<lparr>mi_enhanced := True\<rparr>;
       r \<leftarrow> skip_modex p 1 (b0 AND 0x0F);
       case r of
         None \<Rightarrow> Some unknown_reliable_enhanced
       | Some (packet_type, pos) \<Rightarrow>
           if packet_type = 5 then classify_multitrack p pos info
           else do {
             f \<leftarrow> read_fourcc p pos;
             case f of
               None \<Rightarrow> Some unknown_reliable_enhanced
             | Some (fcc, _) \<Rightarrow>
                 (let info = info\<lparr>mi_fourcc := fcc\<rparr> in
                  if packet_type = 0 \<or> packet_type = 4 then Some (info\<lparr>mi_cls := SequenceHeader\<rparr>)
                  else if packet_type = 1 then Some (info\<lparr>mi_cls := Coded\<rparr>)
                  else if packet_type = 2 then Some (info\<lparr>mi_cls := Control\<rparr>)
                  else Some unknown_reliable_enhanced)
           }
     }"

definition classify_video :: "bytes \<Rightarrow> MediaInfo option" where
  "classify_video payload =
     (if payload = [] then Some unknown_reliable
      else do {
        b0 \<leftarrow> read_at payload 0;
        if b0 AND 0x80 \<noteq> 0 then classify_video_enhanced payload
        else
          (let frame_type = drop_bit 4 b0 AND 0x07;
               info = MediaInfo_new\<lparr>mi_codec := b0 AND 0x0F\<rparr>;
               coded = info\<lparr>mi_cls := (if frame_type = 1 then Keyframe else Coded)\<rparr> in
           if frame_type = 5 then Some (info\<lparr>mi_cls := Control\<rparr>)
           else if mi_codec info = 7 then
             (if length payload < 2 then Some unknown_reliable
              else do {
                b1 \<leftarrow> read_at payload 1;
                if b1 = 0 then Some (info\<lparr>mi_cls := SequenceHeader\<rparr>)
                else if b1 = 2 then Some (info\<lparr>mi_cls := Control\<rparr>)
                else Some coded
              })
           else Some coded)
      })"

definition classify_audio :: "bytes \<Rightarrow> MediaInfo option" where
  "classify_audio payload =
     (if payload = [] then Some unknown_reliable
      else do {
        b0 \<leftarrow> read_at payload 0;
        let sound_format = drop_bit 4 b0;
        if sound_format = 9 then classify_audio_enhanced payload
        else
          (let info = MediaInfo_new\<lparr>mi_codec := sound_format\<rparr> in
           if sound_format = 10 then
             (if length payload < 2 then Some unknown_reliable
              else do {
                b1 \<leftarrow> read_at payload 1;
                Some (info\<lparr>mi_cls := (if b1 = 0 then SequenceHeader else Coded)\<rparr>)
              })
           else Some (info\<lparr>mi_cls := Coded\<rparr>))
      })"

definition classify :: "byte \<Rightarrow> bytes \<Rightarrow> MediaInfo option" where
  "classify message_type payload =
     (if message_type = kTypeAudio then classify_audio payload
      else if message_type = kTypeVideo then classify_video payload
      else if message_type = 15 \<or> message_type = kTypeDataAmf0 then
        Some (MediaInfo_new\<lparr>mi_cls := Metadata\<rparr>)
      else if message_type \<in> {kTypeSetChunkSize, kTypeAbort, kTypeAcknowledgement, kTypeUserControl,
                kTypeWindowAckSize, kTypeSetPeerBandwidth} then
        Some (MediaInfo_new\<lparr>mi_cls := Control\<rparr>)
      else if message_type = 22 then Some (MediaInfo_new\<lparr>mi_cls := Coded\<rparr>)
      else Some unknown_reliable)"

section \<open>No access out of bounds\<close>

text \<open>A classification the rest of the system can rely on.\<close>

definition info_ok :: "MediaInfo \<Rightarrow> bool" where
  "info_ok i \<longleftrightarrow> mi_force_stream i = (mi_cls i = Class_Unknown \<or> mi_multitrack i)
     \<and> (if mi_enhanced i then mi_codec i = 0 else mi_fourcc i = 0 \<and> \<not> mi_multitrack i)"

lemma modex_in_bounds: "modex_tail p pos sz \<noteq> None" "modex_block p pos \<noteq> None"
proof -
  show t: "modex_tail p pos sz \<noteq> None" for p pos sz by (simp add: modex_tail_def read_at_def)
  show "modex_block p pos \<noteq> None" by (simp add: modex_block_def read_at_def Let_def t del: not_None_eq)
qed

lemma skip_modex_in_bounds: "skip_modex p pos t \<noteq> None"
proof (induction p pos t rule: skip_modex.induct)
  case (1 p pos t)
  then show ?case
    using modex_in_bounds(2) [of p pos]
    by (subst skip_modex.simps) (auto split: option.splits)
qed

lemma read_fourcc_in_bounds: "read_fourcc p pos \<noteq> None"
  by (simp add: read_fourcc_def read_at_def)

lemmas info_defs = info_ok_def unknown_reliable_def unknown_reliable_enhanced_def MediaInfo_new_def

definition classified :: "MediaInfo option \<Rightarrow> bool" where
  "classified m \<longleftrightarrow> (case m of None \<Rightarrow> False | Some i \<Rightarrow> info_ok i)"

lemma classify_multitrack_ok:
  "classified (classify_multitrack p pos (MediaInfo_new\<lparr>mi_enhanced := True\<rparr>))"
  using read_fourcc_in_bounds [of p "Suc pos"]
  by (auto simp: classified_def classify_multitrack_def Let_def read_at_def info_defs split: option.splits)

lemma classify_enhanced_ok:
  assumes "p \<noteq> []"
  shows "classified (classify_video_enhanced p)" and "classified (classify_audio_enhanced p)"
proof -
  obtain r where r: "skip_modex p 1 (p ! 0 AND 0x0F) = Some r"
    using skip_modex_in_bounds [of p 1 "p ! 0 AND 0x0F"] by (cases "skip_modex p 1 (p ! 0 AND 0x0F)") auto
  have r0: "read_at p 0 = Some (p ! 0)" using assms by (simp add: read_at_def)
  show "classified (classify_video_enhanced p)"
  proof (cases r)
    case None
    with r r0 show ?thesis by (simp add: classify_video_enhanced_def classified_def info_defs)
  next
    case (Some a)
    obtain t pos where a: "a = (t, pos)" by (cases a)
    obtain f where f: "read_fourcc p pos = Some f"
      using read_fourcc_in_bounds [of p pos] by (cases "read_fourcc p pos") auto
    show ?thesis
    proof (cases f)
      case None
      with r r0 Some a f classify_multitrack_ok [of p pos] show ?thesis
        by (simp add: classify_video_enhanced_def Let_def) (simp add: classified_def info_defs)
    next
      case (Some g)
      with r r0 \<open>r = Some a\<close> a f classify_multitrack_ok [of p pos] show ?thesis
        by (cases g) (simp add: classify_video_enhanced_def Let_def, simp add: classified_def info_defs)
    qed
  qed
  show "classified (classify_audio_enhanced p)"
  proof (cases r)
    case None
    with r r0 show ?thesis by (simp add: classify_audio_enhanced_def classified_def info_defs)
  next
    case (Some a)
    obtain t pos where a: "a = (t, pos)" by (cases a)
    obtain f where f: "read_fourcc p pos = Some f"
      using read_fourcc_in_bounds [of p pos] by (cases "read_fourcc p pos") auto
    show ?thesis
    proof (cases f)
      case None
      with r r0 Some a f classify_multitrack_ok [of p pos] show ?thesis
        by (simp add: classify_audio_enhanced_def Let_def) (simp add: classified_def info_defs)
    next
      case (Some g)
      with r r0 \<open>r = Some a\<close> a f classify_multitrack_ok [of p pos] show ?thesis
        by (cases g) (simp add: classify_audio_enhanced_def Let_def, simp add: classified_def info_defs)
    qed
  qed
qed

lemma classify_payload_ok: "classified (classify_video p)" "classified (classify_audio p)"
proof -
  show "classified (classify_video p)"
  proof (cases "p = []")
    case True
    then show ?thesis by (simp add: classify_video_def classified_def info_defs)
  next
    case False
    then show ?thesis
      using classify_enhanced_ok(1) [OF False]
      by (simp add: classify_video_def read_at_def Let_def) (simp add: classified_def info_defs)
  qed
  show "classified (classify_audio p)"
  proof (cases "p = []")
    case True
    then show ?thesis by (simp add: classify_audio_def classified_def info_defs)
  next
    case False
    then show ?thesis
      using classify_enhanced_ok(2) [OF False]
      by (simp add: classify_audio_def read_at_def Let_def) (simp add: classified_def info_defs)
  qed
qed

section \<open>Properties\<close>

text \<open>
  C38. Whatever the message type and payload, \<open>classify\<close> returns without reading outside the
  payload; the result demands reliable carriage exactly when the class is unknown or the
  message is multitrack, and the legacy codec id and the FourCC are never both set.
\<close>

theorem classify_total:
  "\<exists>i. classify ty p = Some i
     \<and> mi_force_stream i = (mi_cls i = Class_Unknown \<or> mi_multitrack i)
     \<and> (if mi_enhanced i then mi_codec i = 0 else mi_fourcc i = 0 \<and> \<not> mi_multitrack i)"
proof -
  have "classified (classify ty p)"
    using classify_payload_ok [of p] by (simp add: classify_def) (simp add: classified_def info_defs)
  then show ?thesis by (auto simp: classified_def info_ok_def split: option.splits)
qed

end
