(* ===== verification/Gateway_Queues.thy ===== *)
theory Gateway_Queues
  imports Classify Interfaces "HOL-Library.Sublist"
begin

text \<open>
  Two small state machines of the gateway: the video continuity tracker
  (\<^verbatim>\<open>gateway/include/roqr/gateway/gap.hpp\<close>) and the bounded queue between the receive thread and
  the player's writer thread (\<^verbatim>\<open>gateway/src/player_queue.cpp\<close>). Every method of the queue holds its
  mutex for its whole body, so a concurrent run is a sequence of calls; \<open>pop\<close> on an open empty
  queue waits, which the model shows as \<open>None\<close>: the call is not enabled.
\<close>

section \<open>The gap tracker\<close>

record GapTracker =
  gt_discontinuous :: bool
  gt_have :: bool
  gt_last_ts :: u32

definition GapTracker_new :: GapTracker where
  "GapTracker_new = \<lparr>gt_discontinuous = False, gt_have = False, gt_last_ts = 0\<rparr>"

definition kJumpThreshold :: u32 where "kJumpThreshold = 5000"

definition recovers :: "MediaClass \<Rightarrow> bool" where
  "recovers cls \<longleftrightarrow> cls = Keyframe \<or> cls = SequenceHeader"

definition ts_gap :: "u32 \<Rightarrow> u32 \<Rightarrow> bool" where
  "ts_gap last_ts timestamp \<longleftrightarrow>
     timestamp < last_ts \<or> (ucast last_ts + ucast kJumpThreshold :: u64) < ucast timestamp"

definition GapTracker_accept :: "u32 \<Rightarrow> MediaClass \<Rightarrow> GapTracker \<Rightarrow> bool \<times> GapTracker" where
  "GapTracker_accept timestamp cls g =
     (let recover = recovers cls;
          g = (if gt_have g \<and> ts_gap (gt_last_ts g) timestamp then g\<lparr>gt_discontinuous := True\<rparr> else g);
          g = g\<lparr>gt_have := True, gt_last_ts := timestamp\<rparr>
      in if gt_discontinuous g \<and> \<not> recover then (False, g)
         else if recover then (True, g\<lparr>gt_discontinuous := False\<rparr>)
         else (True, g))"

text \<open>The decisions on a whole sequence of frames.\<close>

fun gap_run :: "GapTracker \<Rightarrow> (u32 \<times> MediaClass) list \<Rightarrow> bool list" where
  "gap_run g [] = []"
| "gap_run g ((ts, cls) # fs) =
     (case GapTracker_accept ts cls g of (ok, g') \<Rightarrow> ok # gap_run g' fs)"

text \<open>
  The reference: frame \<open>i\<close> is decodable when some frame \<open>k\<close> at or before it starts a run (it is
  the first frame or a recovery point) with no gap between \<open>k\<close> and \<open>i\<close>.
\<close>

definition decodable :: "(u32 \<times> MediaClass) list \<Rightarrow> nat \<Rightarrow> bool" where
  "decodable fs i \<longleftrightarrow> (\<exists>k \<le> i. (k = 0 \<or> recovers (snd (fs ! k)))
     \<and> (\<forall>j. k \<le> j \<and> j < i \<longrightarrow> \<not> ts_gap (fst (fs ! j)) (fst (fs ! Suc j))))"

lemma decodable_0: "decodable fs 0"
  by (simp add: decodable_def)

lemma decodable_Suc:
  "decodable fs (Suc i) \<longleftrightarrow>
     recovers (snd (fs ! Suc i)) \<or> decodable fs i \<and> \<not> ts_gap (fst (fs ! i)) (fst (fs ! Suc i))"
proof
  assume "decodable fs (Suc i)"
  then obtain k where k: "k \<le> Suc i" "k = 0 \<or> recovers (snd (fs ! k))"
    "\<forall>j. k \<le> j \<and> j < Suc i \<longrightarrow> \<not> ts_gap (fst (fs ! j)) (fst (fs ! Suc j))"
    by (auto simp: decodable_def)
  show "recovers (snd (fs ! Suc i)) \<or> decodable fs i \<and> \<not> ts_gap (fst (fs ! i)) (fst (fs ! Suc i))"
  proof (cases "k = Suc i")
    case True
    with k(2) show ?thesis by simp
  next
    case False
    with k have "k \<le> i" by simp
    with k have "decodable fs i" unfolding decodable_def by (intro exI [of _ k]) auto
    with k \<open>k \<le> i\<close> show ?thesis by simp
  qed
next
  assume "recovers (snd (fs ! Suc i)) \<or> decodable fs i \<and> \<not> ts_gap (fst (fs ! i)) (fst (fs ! Suc i))"
  then show "decodable fs (Suc i)"
  proof
    assume "recovers (snd (fs ! Suc i))"
    then show ?thesis unfolding decodable_def by (intro exI [of _ "Suc i"]) auto
  next
    assume a: "decodable fs i \<and> \<not> ts_gap (fst (fs ! i)) (fst (fs ! Suc i))"
    then obtain k where "k \<le> i" "k = 0 \<or> recovers (snd (fs ! k))"
      "\<forall>j. k \<le> j \<and> j < i \<longrightarrow> \<not> ts_gap (fst (fs ! j)) (fst (fs ! Suc j))"
      by (auto simp: decodable_def)
    with a show ?thesis
      unfolding decodable_def by (intro exI [of _ k]) (auto simp: less_Suc_eq)
  qed
qed

lemma gap_run_decodable:
  assumes "gs @ fs = all" and "gs \<noteq> []"
    and "gt_have g" and "gt_last_ts g = fst (last gs)"
    and "gt_discontinuous g = (\<not> decodable all (length gs - 1))"
  shows "gap_run g fs = map (decodable all) [length gs..<length all]"
  using assms
proof (induction fs arbitrary: gs g)
  case Nil
  then show ?case by simp
next
  case (Cons f fs)
  obtain ts cls where f: "f = (ts, cls)" by (cases f)
  let ?i = "length gs"
  have pos: "Suc (?i - 1) = ?i" using Cons.prems(2) by (cases gs) auto
  have at: "all ! ?i = (ts, cls)" "all ! (?i - 1) = last gs"
    using Cons.prems(1,2) f by (auto simp: nth_append last_conv_nth)
  have dec: "decodable all ?i = (recovers cls \<or> \<not> gt_discontinuous g \<and> \<not> ts_gap (gt_last_ts g) ts)"
    using decodable_Suc [of all "?i - 1"] pos at Cons.prems(4,5) by simp
  obtain ok g' where acc: "GapTracker_accept ts cls g = (ok, g')" by (cases "GapTracker_accept ts cls g")
  then have ok: "ok = decodable all ?i" and g': "gt_have g'" "gt_last_ts g' = ts"
    "gt_discontinuous g' = (\<not> decodable all ?i)"
    using dec Cons.prems(3) by (auto simp: GapTracker_accept_def Let_def split: if_splits)
  have "gap_run g' fs = map (decodable all) [length (gs @ [f])..<length all]"
    by (rule Cons.IH) (use Cons.prems(1) f g' in simp_all)
  moreover have "[?i..<length all] = ?i # [Suc ?i..<length all]"
    using Cons.prems(1) by (intro upt_conv_Cons) auto
  ultimately show ?case using f acc ok by simp
qed

text \<open>
  C33. The tracker delivers exactly the decodable frames: from a fresh tracker, frame \<open>i\<close> of any
  sequence is accepted if and only if there is a first frame or recovery point (key frame or
  sequence header) at or before it with no timestamp regression and no jump of more than
  5000 ms between consecutive frames from there to \<open>i\<close>.
\<close>

theorem gap_tracker_exact:
  "gap_run GapTracker_new fs = map (decodable fs) [0..<length fs]"
proof (cases fs)
  case Nil
  then show ?thesis by simp
next
  case (Cons f rest)
  obtain ts cls where f: "f = (ts, cls)" by (cases f)
  obtain g where acc: "GapTracker_accept ts cls GapTracker_new = (True, g)"
    and g: "gt_have g" "gt_last_ts g = ts" "\<not> gt_discontinuous g"
    by (auto simp: GapTracker_accept_def GapTracker_new_def Let_def)
  have "gap_run g rest = map (decodable fs) [length [f]..<length fs]"
    by (rule gap_run_decodable) (use Cons f g decodable_0 in simp_all)
  moreover have "[0..<length fs] = 0 # [1..<length fs]"
    using Cons by (subst upt_conv_Cons) simp_all
  ultimately show ?thesis using Cons f acc decodable_0 by simp
qed

section \<open>The player queue\<close>

datatype Kind = Kind_Init | Kind_Coded

type_synonym queue_entry = "RtmpMessage \<times> Kind"

record PlayerQueue =
  pq_queue :: "queue_entry list"
  pq_max :: nat
  pq_dropped :: u64
  pq_closed :: bool

definition PlayerQueue_new :: "nat \<Rightarrow> PlayerQueue" where
  "PlayerQueue_new max_messages =
     \<lparr>pq_queue = [], pq_max = max_messages, pq_dropped = 0, pq_closed = False\<rparr>"

text \<open>\<open>std::find_if\<close> for the first Coded entry, and its erasure; \<open>None\<close> is \<open>end()\<close>.\<close>

fun erase_first_coded :: "queue_entry list \<Rightarrow> queue_entry list option" where
  "erase_first_coded [] = None"
| "erase_first_coded (e # es) =
     (if snd e = Kind_Coded then Some es else map_option (Cons e) (erase_first_coded es))"

definition PlayerQueue_push :: "RtmpMessage \<Rightarrow> Kind \<Rightarrow> PlayerQueue \<Rightarrow> bool \<times> PlayerQueue" where
  "PlayerQueue_push msg kind q =
     (if pq_closed q then (False, q)
      else if pq_max q \<le> length (pq_queue q) then
        (case erase_first_coded (pq_queue q) of
           Some es \<Rightarrow> (False, q\<lparr>pq_queue := es @ [(msg, kind)], pq_dropped := pq_dropped q + 1\<rparr>)
         | None \<Rightarrow> (False, q\<lparr>pq_dropped := pq_dropped q + 1\<rparr>))
      else (True, q\<lparr>pq_queue := pq_queue q @ [(msg, kind)]\<rparr>))"

definition PlayerQueue_pop :: "PlayerQueue \<Rightarrow> (RtmpMessage option \<times> PlayerQueue) option" where
  "PlayerQueue_pop q =
     (if pq_queue q = [] \<and> \<not> pq_closed q then None
      else case pq_queue q of
        [] \<Rightarrow> Some (None, q)
      | e # es \<Rightarrow> Some (Some (fst e), q\<lparr>pq_queue := es\<rparr>))"

definition PlayerQueue_close :: "PlayerQueue \<Rightarrow> PlayerQueue" where
  "PlayerQueue_close q = q\<lparr>pq_closed := True\<rparr>"

definition PlayerQueue_size :: "PlayerQueue \<Rightarrow> nat" where
  "PlayerQueue_size q = length (pq_queue q)"

definition PlayerQueue_clear :: "PlayerQueue \<Rightarrow> PlayerQueue" where
  "PlayerQueue_clear q = q\<lparr>pq_queue := []\<rparr>"

text \<open>
  A run of the queue with its history: what was popped, what was put into the queue, and how
  many messages were offered while it was open. A \<open>Pop\<close> that would wait does not happen.
\<close>

datatype player_call = PQ_Push RtmpMessage Kind | PQ_Pop | PQ_Close

record player_trace =
  pt_queue :: PlayerQueue
  pt_popped :: "queue_entry list"
  pt_pushed :: "queue_entry list"
  pt_offered :: nat

fun run_player_call :: "player_call \<Rightarrow> player_trace \<Rightarrow> player_trace" where
  "run_player_call (PQ_Push m k) t =
     (let q = pt_queue t; q' = snd (PlayerQueue_push m k q);
          entered = \<not> pq_closed q \<and> (length (pq_queue q) < pq_max q \<or> erase_first_coded (pq_queue q) \<noteq> None)
      in t\<lparr>pt_queue := q', pt_pushed := (if entered then pt_pushed t @ [(m, k)] else pt_pushed t),
           pt_offered := (if pq_closed q then pt_offered t else Suc (pt_offered t))\<rparr>)"
| "run_player_call PQ_Pop t =
     (case PlayerQueue_pop (pt_queue t) of
        Some (Some m, q') \<Rightarrow> t\<lparr>pt_queue := q', pt_popped := pt_popped t @ [hd (pq_queue (pt_queue t))]\<rparr>
      | _ \<Rightarrow> t)"
| "run_player_call PQ_Close t = t\<lparr>pt_queue := PlayerQueue_close (pt_queue t)\<rparr>"

definition player_start :: "nat \<Rightarrow> player_trace" where
  "player_start n = \<lparr>pt_queue = PlayerQueue_new n, pt_popped = [], pt_pushed = [], pt_offered = 0\<rparr>"

abbreviation inits :: "queue_entry list \<Rightarrow> queue_entry list" where
  "inits es \<equiv> filter (\<lambda>e. snd e = Kind_Init) es"

definition player_inv :: "nat \<Rightarrow> player_trace \<Rightarrow> bool" where
  "player_inv n t \<longleftrightarrow> pq_max (pt_queue t) = n
     \<and> length (pq_queue (pt_queue t)) \<le> n
     \<and> inits (pt_popped t @ pq_queue (pt_queue t)) = inits (pt_pushed t)
     \<and> subseq (pt_popped t @ pq_queue (pt_queue t)) (pt_pushed t)
     \<and> (of_nat (pt_offered t) :: u64) =
         of_nat (length (pt_popped t)) + of_nat (length (pq_queue (pt_queue t))) + pq_dropped (pt_queue t)"

lemma erase_first_coded_Some:
  assumes "erase_first_coded q = Some es"
  obtains e pre post where "q = pre @ e # post" "es = pre @ post" "snd e = Kind_Coded"
    "inits q = inits es" "length q = Suc (length es)"
  using assms
proof (induction q arbitrary: es thesis)
  case Nil
  then show ?case by simp
next
  case (Cons x xs)
  show ?case
  proof (cases "snd x = Kind_Coded")
    case True
    with Cons.prems(2) show ?thesis by (intro Cons.prems(1) [of "[]" x xs]) simp_all
  next
    case False
    with Cons.prems(2) obtain es' where es': "erase_first_coded xs = Some es'" "es = x # es'" by auto
    from Cons.IH [OF _ es'(1)] obtain e pre post where
      "xs = pre @ e # post" "es' = pre @ post" "snd e = Kind_Coded" "inits xs = inits es'" "length xs = Suc (length es')"
      by blast
    with es' show ?thesis by (intro Cons.prems(1) [of "x # pre" e post]) simp_all
  qed
qed

lemma push_keeps:
  assumes "player_inv n t"
  shows "player_inv n (run_player_call (PQ_Push m k) t)"
proof -
  let ?q = "pt_queue t"
  consider "pq_closed ?q" | "\<not> pq_closed ?q" "length (pq_queue ?q) < pq_max ?q"
    | "\<not> pq_closed ?q" "\<not> length (pq_queue ?q) < pq_max ?q" "erase_first_coded (pq_queue ?q) = None"
    | es where "\<not> pq_closed ?q" "\<not> length (pq_queue ?q) < pq_max ?q" "erase_first_coded (pq_queue ?q) = Some es"
    by (cases "erase_first_coded (pq_queue ?q)") auto
  then show ?thesis
  proof cases
    case (4 es)
    then obtain e pre post where q: "pq_queue ?q = pre @ e # post" "es = pre @ post" "snd e = Kind_Coded"
      "inits (pq_queue ?q) = inits es" "length (pq_queue ?q) = Suc (length es)"
      using erase_first_coded_Some by blast
    have "subseq (pt_popped t @ es) (pt_popped t @ pq_queue ?q)"
      unfolding q(1,2) by (intro list_emb_append_mono list_emb_Cons) simp_all
    then have "subseq (pt_popped t @ es) (pt_pushed t)"
      using assms by (auto simp: player_inv_def intro: subseq_order.trans)
    then have sub: "subseq (pt_popped t @ es @ [(m, k)]) (pt_pushed t @ [(m, k)])"
      using list_emb_append_mono [of "(=)" "pt_popped t @ es" "pt_pushed t" "[(m, k)]" "[(m, k)]"] by simp
    from assms have "inits (pt_popped t) @ inits es = inits (pt_pushed t)"
      using q(4) by (simp add: player_inv_def)
    then show ?thesis
      using 4 q(5) assms sub
      by (auto simp: player_inv_def PlayerQueue_push_def Let_def algebra_simps) (metis of_nat_Suc)
  qed (use assms in \<open>auto simp: player_inv_def PlayerQueue_push_def Let_def list_emb_append_mono
      simp flip: append_assoc\<close>)
qed

lemma run_player_call_keeps: "player_inv n t \<Longrightarrow> player_inv n (run_player_call c t)"
proof (cases c)
  case (PQ_Push m k)
  then show "player_inv n t \<Longrightarrow> ?thesis" using push_keeps by simp
next
  case PQ_Pop
  then show "player_inv n t \<Longrightarrow> ?thesis"
    by (cases "pq_queue (pt_queue t)") (auto simp: player_inv_def PlayerQueue_pop_def)
next
  case PQ_Close
  then show "player_inv n t \<Longrightarrow> ?thesis" by (simp add: player_inv_def PlayerQueue_close_def)
qed

interpretation player_calls: guarded_ops run_player_call "player_inv n" for n
  by unfold_locales (rule run_player_call_keeps)


end
