(* ===== verification/Chunk_Writer.thy ===== *)
theory Chunk_Writer
  imports Rtmp_Message
begin

text \<open>
  \<^verbatim>\<open>rtmp/src/chunk_writer.cpp\<close>: cutting RTMP messages into chunks, a fmt 0 header on the first
  chunk and fmt 3 headers on the rest, with the extended timestamp repeated on every chunk.
  The chunk loop of \<open>write\<close> would not end with a chunk size of 0, so it is a
  \<^theory_text>\<open>partial_function\<close> whose value \<open>None\<close> is "does not return"; the class keeps the size
  positive, and \<open>write_bytes\<close> shows that every call then returns, and what it writes.
\<close>

section \<open>The code\<close>

record ChunkWriter =
  cw_chunk_size :: u32

definition ChunkWriter_new :: "u32 \<Rightarrow> ChunkWriter" where
  "ChunkWriter_new sz = \<lparr>cw_chunk_size = (if sz = 0 then kDefaultChunkSize else sz)\<rparr>"

definition put_basic_header :: "byte \<Rightarrow> u32 \<Rightarrow> bytes \<Rightarrow> bytes" where
  "put_basic_header fmt csid out =
     (if csid < 64 then out @ [ucast (push_bit 6 (ucast fmt) OR csid)]
      else if csid < 320 then out @ [ucast (push_bit 6 (ucast fmt) :: u32), ucast (csid - 64)]
      else out @ [ucast (push_bit 6 (ucast fmt) OR 1 :: u32), ucast ((csid - 64) AND 0xFF),
                  ucast (drop_bit 8 (csid - 64))])"

text \<open>The \<^verbatim>\<open>for (;;)\<close> loop of \<open>write\<close> from a given offset.\<close>

partial_function (option) write_loop :: "nat \<Rightarrow> RtmpMessage \<Rightarrow> bool \<Rightarrow> nat \<Rightarrow> bytes \<Rightarrow> bytes option" where
  "write_loop chunk_size msg extended offset out =
     (let n = min chunk_size (length (m_payload msg) - offset);
          out = out @ take n (drop offset (m_payload msg));
          offset = offset + n
      in if length (m_payload msg) \<le> offset then Some out
         else let out = put_basic_header 3 (m_chunk_stream_id msg) out;
                  out = (if extended then put_u32be (m_timestamp msg) out else out)
              in write_loop chunk_size msg extended offset out)"

definition ChunkWriter_write :: "ChunkWriter \<Rightarrow> RtmpMessage \<Rightarrow> bytes \<Rightarrow> (bool \<times> bytes) option" where
  "ChunkWriter_write w msg out =
     (if m_chunk_stream_id msg < 2 \<or> 65599 < m_chunk_stream_id msg then Some (False, out)
      else if 0xFFFFFF < length (m_payload msg) then Some (False, out)
      else let extended = (0xFFFFFF \<le> m_timestamp msg);
               out = put_basic_header 0 (m_chunk_stream_id msg) out;
               out = put_u24 (if extended then 0xFFFFFF else m_timestamp msg) out;
               out = put_u24 (of_nat (length (m_payload msg))) out;
               out = out @ [m_type msg];
               out = put_u32le (m_message_stream_id msg) out;
               out = (if extended then put_u32be (m_timestamp msg) out else out)
           in map_option (Pair True) (write_loop (unat (cw_chunk_size w)) msg extended 0 out))"

definition ChunkWriter_set_chunk_size :: "u32 \<Rightarrow> ChunkWriter \<Rightarrow> bytes \<Rightarrow> (ChunkWriter \<times> bytes) option" where
  "ChunkWriter_set_chunk_size sz w out =
     (if sz = 0 \<or> sz AND 0x80000000 \<noteq> 0 then Some (w, out)
      else let m = empty_message\<lparr>m_chunk_stream_id := 2, m_type := kTypeSetChunkSize,
                     m_message_stream_id := 0, m_payload := put_u32be sz []\<rparr>
           in map_option (\<lambda>(_, out'). (w\<lparr>cw_chunk_size := sz\<rparr>, out')) (ChunkWriter_write w m out))"

section \<open>What is written\<close>

definition writer_inv :: "ChunkWriter \<Rightarrow> bool" where
  "writer_inv w \<longleftrightarrow> cw_chunk_size w \<noteq> 0"

lemma ChunkWriter_new_inv [inv_intros]: "writer_inv (ChunkWriter_new n)"
  by (simp add: writer_inv_def ChunkWriter_new_def kDefaultChunkSize_def)

lemma set_chunk_size_inv [inv_intros]:
  "writer_inv w \<Longrightarrow> ChunkWriter_set_chunk_size n w out = Some (w', out') \<Longrightarrow> writer_inv w'"
  by (auto simp: writer_inv_def ChunkWriter_set_chunk_size_def Let_def split: if_splits)

lemma put_basic_header_append: "put_basic_header fmt csid out = out @ put_basic_header fmt csid []"
  by (simp add: put_basic_header_def)

lemma put_append_Nil:
  "NO_MATCH [] out \<Longrightarrow> put_u24 v out = out @ put_u24 v []"
  "NO_MATCH [] out \<Longrightarrow> put_u32be v out = out @ put_u32be v []"
  "NO_MATCH [] out \<Longrightarrow> put_u32le v out = out @ put_u32le v []"
  by (simp_all add: wire_simps)

text \<open>The bytes the loop appends, as a function of what is left of the payload.\<close>

function chunk_bodies :: "nat \<Rightarrow> bytes \<Rightarrow> bytes \<Rightarrow> bytes" where
  "chunk_bodies c cont p =
     (if length p \<le> Suc c then p else take (Suc c) p @ cont @ chunk_bodies c cont (drop (Suc c) p))"
  by pat_completeness auto
termination
  by (relation "measure (\<lambda>(c, cont, p). length p)") auto

declare chunk_bodies.simps [simp del]

definition cont_header :: "RtmpMessage \<Rightarrow> bytes" where
  "cont_header msg = put_basic_header 3 (m_chunk_stream_id msg) []
     @ (if 0xFFFFFF \<le> m_timestamp msg then put_u32be (m_timestamp msg) [] else [])"

definition first_header :: "RtmpMessage \<Rightarrow> bytes" where
  "first_header msg = put_basic_header 0 (m_chunk_stream_id msg) []
     @ put_u24 (if 0xFFFFFF \<le> m_timestamp msg then 0xFFFFFF else m_timestamp msg) []
     @ put_u24 (of_nat (length (m_payload msg))) [] @ [m_type msg]
     @ put_u32le (m_message_stream_id msg) []
     @ (if 0xFFFFFF \<le> m_timestamp msg then put_u32be (m_timestamp msg) [] else [])"

definition message_bytes :: "u32 \<Rightarrow> RtmpMessage \<Rightarrow> bytes" where
  "message_bytes sz msg =
     first_header msg @ chunk_bodies (unat sz - 1) (cont_header msg) (m_payload msg)"

definition writable :: "RtmpMessage \<Rightarrow> bool" where
  "writable msg \<longleftrightarrow> 2 \<le> m_chunk_stream_id msg \<and> m_chunk_stream_id msg \<le> 65599
     \<and> length (m_payload msg) \<le> 0xFFFFFF"

lemma write_loop_last:
  assumes "length (m_payload msg) \<le> offset + c"
  shows "write_loop c msg ext offset out = Some (out @ drop offset (m_payload msg))"
proof -
  have "min c (length (m_payload msg) - offset) = length (m_payload msg) - offset"
    and "length (m_payload msg) \<le> offset + (length (m_payload msg) - offset)"
    using assms by linarith+
  then show ?thesis by (subst write_loop.simps) (simp add: Let_def)
qed

lemma write_loop_more:
  assumes "offset + c < length (m_payload msg)"
  shows "write_loop c msg (0xFFFFFF \<le> m_timestamp msg) offset out =
    write_loop c msg (0xFFFFFF \<le> m_timestamp msg) (offset + c)
      (out @ take c (drop offset (m_payload msg)) @ cont_header msg)"
proof -
  have "min c (length (m_payload msg) - offset) = c" using assms by simp
  with assms show ?thesis
    by (subst write_loop.simps)
      (simp add: Let_def cont_header_def put_basic_header_append [of 3 _ "_ @ _"] put_append_Nil)
qed

lemma write_loop_bodies:
  assumes "offset \<le> length (m_payload msg)"
  shows "write_loop (Suc c) msg (0xFFFFFF \<le> m_timestamp msg) offset out =
    Some (out @ chunk_bodies c (cont_header msg) (drop offset (m_payload msg)))"
  using assms
proof (induction "length (m_payload msg) - offset" arbitrary: offset out rule: less_induct)
  case less
  let ?p = "drop offset (m_payload msg)"
  show ?case
  proof (cases "length ?p \<le> Suc c")
    case True
    then have "chunk_bodies c (cont_header msg) ?p = ?p" by (simp add: chunk_bodies.simps [of c])
    moreover have "length (m_payload msg) \<le> offset + Suc c" using True by simp
    ultimately show ?thesis by (simp only: write_loop_last)
  next
    case False
    then have more: "offset + Suc c < length (m_payload msg)" by simp
    have "chunk_bodies c (cont_header msg) ?p
        = take (Suc c) ?p @ cont_header msg @ chunk_bodies c (cont_header msg) (drop (Suc c) ?p)"
      by (subst chunk_bodies.simps) (use False in simp)
    moreover have "drop (Suc c) ?p = drop (offset + Suc c) (m_payload msg)"
      by (simp add: add.commute)
    moreover have "write_loop (Suc c) msg (0xFFFFFF \<le> m_timestamp msg) (offset + Suc c) out' =
      Some (out' @ chunk_bodies c (cont_header msg) (drop (offset + Suc c) (m_payload msg)))" for out'
      by (rule less.hyps) (use more in auto)
    ultimately show ?thesis by (simp only: write_loop_more [OF more] append_assoc)
  qed
qed

lemma write_bytes:
  assumes "writer_inv w"
  shows "ChunkWriter_write w msg out =
    Some (if writable msg then (True, out @ message_bytes (cw_chunk_size w) msg) else (False, out))"
proof -
  obtain c where c: "unat (cw_chunk_size w) = Suc c"
    using assms by (cases "unat (cw_chunk_size w)") (auto simp: writer_inv_def unat_eq_zero)
  show ?thesis
  proof (cases "writable msg")
    case True
    let ?ext = "0xFFFFFF \<le> m_timestamp msg"
    have "\<not> (m_chunk_stream_id msg < 2 \<or> 65599 < m_chunk_stream_id msg)"
      and "\<not> 0xFFFFFF < length (m_payload msg)"
      using True by (auto simp: writable_def)
    then have "ChunkWriter_write w msg out
        = map_option (Pair True) (write_loop (Suc c) msg ?ext 0 (out @ first_header msg))"
      unfolding ChunkWriter_write_def Let_def c first_header_def put_u24_def put_u32be_def
        put_u32le_def put_basic_header_append [of 0 _ out]
      by (simp only: if_False append_assoc append_Nil append_Cons if_distrib [of "\<lambda>x. out @ x"])
        (cases ?ext; simp)
    with True c show ?thesis
      by (simp only: write_loop_bodies) (simp add: message_bytes_def)
  next
    case False
    then show ?thesis by (auto simp: ChunkWriter_write_def writable_def)
  qed
qed

end
