(* ===== verification/Chunk_Reader.thy ===== *)
theory Chunk_Reader
  imports Rtmp_Message
begin

text \<open>
  \<^verbatim>\<open>rtmp/src/chunk_reader.cpp\<close>: the incremental RTMP dechunker. One iteration of the parse loop
  first reads the chunk header into locals without touching the chunk-stream state
  (\<open>chunk_scan\<close>, the part of the loop body up to the check that the whole chunk is buffered)
  and then commits it (\<open>chunk_commit\<close>, the rest of the body).

  Timestamps, deltas and stream ids are 32-bit words. Message lengths and byte counts are
  natural numbers: the code only adds to them after checking the sum against \<open>kMaxOutstanding\<close>
  and only subtracts what was added before, so no operation on them can wrap.
\<close>

section \<open>The code\<close>

definition kMaxMessageSize :: nat where "kMaxMessageSize = 8 * 1024 * 1024"
definition kMaxOutstanding :: nat where "kMaxOutstanding = 32 * 1024 * 1024"

record CsidState =
  cs_timestamp :: u32
  cs_delta :: u32
  cs_length :: nat
  cs_message_stream_id :: u32
  cs_type :: byte
  cs_extended :: bool
  cs_have_header :: bool
  cs_assembling :: bytes
  cs_remaining :: nat

definition CsidState_new :: CsidState where
  "CsidState_new = \<lparr>cs_timestamp = 0, cs_delta = 0, cs_length = 0, cs_message_stream_id = 0,
     cs_type = 0, cs_extended = False, cs_have_header = False, cs_assembling = [], cs_remaining = 0\<rparr>"

record ChunkReader =
  cr_buffer :: bytes
  cr_ready :: "RtmpMessage list"
  cr_streams :: "u32 \<rightharpoonup> CsidState"
  cr_chunk_size :: nat
  cr_assembling_bytes :: nat
  cr_failed :: bool

definition ChunkReader_new :: ChunkReader where
  "ChunkReader_new = \<lparr>cr_buffer = [], cr_ready = [], cr_streams = Map.empty,
     cr_chunk_size = unat kDefaultChunkSize, cr_assembling_bytes = 0, cr_failed = False\<rparr>"

text \<open>The reference \<^verbatim>\<open>streams_[csid]\<close>: the entry, default-constructed where there is none.\<close>

definition csid_state :: "ChunkReader \<Rightarrow> u32 \<Rightarrow> CsidState" where
  "csid_state r csid = (case cr_streams r csid of None \<Rightarrow> CsidState_new | Some st \<Rightarrow> st)"

definition touch_csid :: "u32 \<Rightarrow> ChunkReader \<Rightarrow> ChunkReader" where
  "touch_csid csid r = r\<lparr>cr_streams := (cr_streams r)(csid \<mapsto> csid_state r csid)\<rparr>"

text \<open>The basic header: the chunk stream id and the bytes it takes.\<close>

definition basic_header :: "bytes \<Rightarrow> (u32 \<times> nat) option" where
  "basic_header b =
     (let csid = ucast (b ! 0 AND 0x3F) in
      if csid = 0 then (if length b < 2 then None else Some (64 + ucast (b ! 1), 2))
      else if csid = 1 then
        (if length b < 3 then None else Some (64 + ucast (b ! 1) + ucast (b ! 2) * 256, 3))
      else Some (csid, 1))"

definition mh_len :: "nat \<Rightarrow> nat" where
  "mh_len fmt = (if fmt = 0 then 11 else if fmt = 1 then 7 else if fmt = 2 then 3 else 0)"

text \<open>The locals of the loop body once the whole chunk is known to be buffered.\<close>

record ChunkLocals =
  cl_csid :: u32
  cl_fmt :: nat
  cl_ts_field :: u32
  cl_extended :: bool
  cl_ext_value :: u32
  cl_length :: nat
  cl_type :: byte
  cl_msid :: u32
  cl_starting_new :: bool
  cl_prospective :: nat
  cl_header_total :: nat
  cl_take :: nat

datatype scan_result =
    Scan_Wait                 \<comment> \<open>return before \<^verbatim>\<open>streams_[csid]\<close> is evaluated\<close>
  | Scan_Wait_on u32          \<comment> \<open>return after it\<close>
  | Scan_Fail u32             \<comment> \<open>\<^verbatim>\<open>failed_ = true; return\<close>\<close>
  | Scan_Chunk ChunkLocals

definition chunk_extended :: "ChunkReader \<Rightarrow> u32 \<Rightarrow> nat \<Rightarrow> nat \<Rightarrow> bool" where
  "chunk_extended r csid pos fmt =
     (if fmt \<le> 2 then be24 (drop pos (cr_buffer r)) = 0xFFFFFF
      else cs_extended (csid_state r csid))"

definition chunk_locals :: "ChunkReader \<Rightarrow> u32 \<Rightarrow> nat \<Rightarrow> nat \<Rightarrow> ChunkLocals" where
  "chunk_locals r csid pos fmt =
     (let b = cr_buffer r;
          st = csid_state r csid;
          starting_new = (cs_remaining st = 0);
          ts_field = (if fmt \<le> 2 then be24 (drop pos b) else 0);
          extended = chunk_extended r csid pos fmt;
          ext_pos = pos + mh_len fmt;
          ext_value = (if extended then be32 (drop ext_pos b) else 0);
          header_total = (if extended then ext_pos + 4 else ext_pos);
          new_length = (if fmt \<le> 1 then unat (be24 (drop (pos + 3) b)) else cs_length st);
          new_type = (if fmt \<le> 1 then b ! (pos + 6) else cs_type st);
          new_msid = (if fmt = 0 then le32 (drop (pos + 7) b) else cs_message_stream_id st);
          prospective = (if starting_new then (if fmt \<le> 1 then new_length else cs_length st)
                         else cs_remaining st);
          n = (if prospective < cr_chunk_size r then prospective else cr_chunk_size r)
      in \<lparr>cl_csid = csid, cl_fmt = fmt, cl_ts_field = ts_field, cl_extended = extended,
          cl_ext_value = ext_value, cl_length = new_length, cl_type = new_type,
          cl_msid = new_msid, cl_starting_new = starting_new, cl_prospective = prospective,
          cl_header_total = header_total, cl_take = n\<rparr>)"

definition chunk_body_scan :: "ChunkReader \<Rightarrow> u32 \<Rightarrow> nat \<Rightarrow> nat \<Rightarrow> scan_result" where
  "chunk_body_scan r csid pos fmt =
     (if chunk_extended r csid pos fmt \<and> length (cr_buffer r) < pos + mh_len fmt + 4
      then Scan_Wait_on csid
      else let l = chunk_locals r csid pos fmt in
        if cl_starting_new l \<and> kMaxMessageSize < cl_prospective l then Scan_Fail csid
        else if cl_starting_new l \<and> kMaxOutstanding < cr_assembling_bytes r + cl_prospective l
        then Scan_Fail csid
        else if length (cr_buffer r) < cl_header_total l + cl_take l then Scan_Wait_on csid
        else Scan_Chunk l)"

definition chunk_scan :: "ChunkReader \<Rightarrow> scan_result" where
  "chunk_scan r =
     (let b = cr_buffer r in
      if cr_failed r \<or> b = [] then Scan_Wait
      else let fmt = unat (drop_bit 6 (b ! 0)) in
        case basic_header b of
          None \<Rightarrow> Scan_Wait
        | Some (csid, pos) \<Rightarrow>
            if length b < pos + mh_len fmt then Scan_Wait
            else if fmt = 3 \<and> \<not> cs_have_header (csid_state r csid) then Scan_Fail csid
            else chunk_body_scan r csid pos fmt)"

text \<open>Lines 160--179: the header fields are committed to the chunk-stream state.\<close>

definition commit_header :: "ChunkLocals \<Rightarrow> CsidState \<Rightarrow> CsidState" where
  "commit_header l st =
     (let field = (if cl_extended l then cl_ext_value l else cl_ts_field l);
          st = (if cl_fmt l = 0 then
                  st\<lparr>cs_timestamp := field, cs_delta := 0, cs_length := cl_length l,
                     cs_type := cl_type l, cs_message_stream_id := cl_msid l\<rparr>
                else if cl_fmt l = 1 then
                  st\<lparr>cs_delta := field, cs_timestamp := cs_timestamp st + field,
                     cs_length := cl_length l, cs_type := cl_type l\<rparr>
                else if cl_fmt l = 2 then
                  st\<lparr>cs_delta := field, cs_timestamp := cs_timestamp st + field\<rparr>
                else if cl_starting_new l then
                  st\<lparr>cs_timestamp := cs_timestamp st + cs_delta st\<rparr>
                else st)
      in st\<lparr>cs_extended := cl_extended l, cs_have_header := True\<rparr>)"

definition ready_message :: "u32 \<Rightarrow> CsidState \<Rightarrow> RtmpMessage" where
  "ready_message csid st = \<lparr>m_timestamp = cs_timestamp st, m_type = cs_type st,
     m_message_stream_id = cs_message_stream_id st, m_chunk_stream_id = csid,
     m_payload = cs_assembling st\<rparr>"

text \<open>Lines 47--69: protocol control messages are applied, and every message that does not
  fail the reader becomes ready.\<close>

definition apply_control :: "RtmpMessage \<Rightarrow> ChunkReader \<Rightarrow> ChunkReader" where
  "apply_control m r =
     (if m_type m = kTypeSetChunkSize \<and> 4 \<le> length (m_payload m) then
        (let sz = be32 (m_payload m) in
         if sz AND 0x80000000 \<noteq> 0 \<or> sz = 0 then r\<lparr>cr_failed := True\<rparr>
         else r\<lparr>cr_chunk_size := unat sz, cr_ready := cr_ready r @ [m]\<rparr>)
      else if m_type m = kTypeAbort \<and> 4 \<le> length (m_payload m) then
        (let target = be32 (m_payload m) in
         case cr_streams r target of
           None \<Rightarrow> r\<lparr>cr_ready := cr_ready r @ [m]\<rparr>
         | Some st \<Rightarrow>
             (let committed = length (cs_assembling st) + cs_remaining st
              in r\<lparr>cr_streams := (cr_streams r)(target \<mapsto>
                     st\<lparr>cs_assembling := [], cs_remaining := 0, cs_have_header := False\<rparr>),
                   cr_assembling_bytes := cr_assembling_bytes r - min (cr_assembling_bytes r) committed,
                   cr_ready := cr_ready r @ [m]\<rparr>))
      else r\<lparr>cr_ready := cr_ready r @ [m]\<rparr>)"

definition ChunkReader_finalize :: "u32 \<Rightarrow> CsidState \<Rightarrow> ChunkReader \<Rightarrow> ChunkReader" where
  "ChunkReader_finalize csid st r =
     apply_control (ready_message csid st)
       (r\<lparr>cr_streams := (cr_streams r)(csid \<mapsto> st\<lparr>cs_assembling := []\<rparr>),
          cr_assembling_bytes :=
            cr_assembling_bytes r - min (cr_assembling_bytes r) (length (cs_assembling st))\<rparr>)"

definition chunk_commit :: "ChunkLocals \<Rightarrow> ChunkReader \<Rightarrow> ChunkReader" where
  "chunk_commit l r =
     (let st = commit_header l (csid_state r (cl_csid l));
          st = (if cl_starting_new l
                then st\<lparr>cs_remaining := cl_prospective l, cs_assembling := []\<rparr> else st);
          bytes = (if cl_starting_new l then cr_assembling_bytes r + cl_prospective l
                   else cr_assembling_bytes r);
          st = st\<lparr>cs_assembling := cs_assembling st
                     @ take (cl_take l) (drop (cl_header_total l) (cr_buffer r)),
                  cs_remaining := cs_remaining st - cl_take l\<rparr>;
          r = r\<lparr>cr_buffer := drop (cl_header_total l + cl_take l) (cr_buffer r),
                cr_streams := (cr_streams r)(cl_csid l \<mapsto> st), cr_assembling_bytes := bytes\<rparr>
      in if cs_remaining st = 0 then ChunkReader_finalize (cl_csid l) st r else r)"

definition ChunkReader_step :: "ChunkReader \<Rightarrow> ChunkReader \<times> bool" where
  "ChunkReader_step r =
     (case chunk_scan r of
        Scan_Wait \<Rightarrow> (r, False)
      | Scan_Wait_on csid \<Rightarrow> (touch_csid csid r, False)
      | Scan_Fail csid \<Rightarrow> ((touch_csid csid r)\<lparr>cr_failed := True\<rparr>, False)
      | Scan_Chunk l \<Rightarrow> (chunk_commit l r, True))"

section \<open>Termination\<close>

lemma basic_header_pos: "basic_header b = Some (csid, pos) \<Longrightarrow> 0 < pos"
  by (auto simp: basic_header_def Let_def split: if_splits)

lemma chunk_body_scan_bounds:
  assumes "chunk_body_scan r csid pos fmt = Scan_Chunk l" and "0 < pos"
  shows "cl_csid l = csid \<and> 0 < cl_header_total l \<and> cl_header_total l + cl_take l \<le> length (cr_buffer r)"
proof -
  have "l = chunk_locals r csid pos fmt" and "cl_header_total l + cl_take l \<le> length (cr_buffer r)"
    using assms by (auto simp: chunk_body_scan_def Let_def split: if_splits)
  with \<open>0 < pos\<close> show ?thesis by (simp add: chunk_locals_def Let_def)
qed

lemma chunk_scan_bounds:
  "chunk_scan r = Scan_Chunk l \<Longrightarrow>
     0 < cl_header_total l \<and> cl_header_total l + cl_take l \<le> length (cr_buffer r)"
  by (auto simp: chunk_scan_def Let_def dest!: chunk_body_scan_bounds dest: basic_header_pos
      split: option.splits if_splits)

lemma finalize_buffer [simp]: "cr_buffer (ChunkReader_finalize csid st r) = cr_buffer r"
  by (simp add: ChunkReader_finalize_def apply_control_def Let_def split: option.splits)

lemma chunk_commit_buffer [simp]:
  "cr_buffer (chunk_commit l r) = drop (cl_header_total l + cl_take l) (cr_buffer r)"
  by (simp add: chunk_commit_def Let_def)

lemma ChunkReader_step_progress:
  "ChunkReader_step r = (r', True) \<Longrightarrow> length (cr_buffer r') < length (cr_buffer r)"
  by (auto simp: ChunkReader_step_def dest!: chunk_scan_bounds split: scan_result.splits)

function ChunkReader_parse :: "ChunkReader \<Rightarrow> ChunkReader" where
  "ChunkReader_parse r =
     (if snd (ChunkReader_step r) then ChunkReader_parse (fst (ChunkReader_step r))
      else fst (ChunkReader_step r))"
  by pat_completeness auto
termination
  by (relation "measure (\<lambda>r. length (cr_buffer r))")
    (auto intro: ChunkReader_step_progress simp: prod_eq_iff)

declare ChunkReader_parse.simps [simp del]

definition ChunkReader_feed :: "bytes \<Rightarrow> ChunkReader \<Rightarrow> ChunkReader" where
  "ChunkReader_feed data r =
     (if cr_failed r then r else ChunkReader_parse (r\<lparr>cr_buffer := cr_buffer r @ data\<rparr>))"

definition ChunkReader_next :: "ChunkReader \<Rightarrow> RtmpMessage option \<times> ChunkReader" where
  "ChunkReader_next r =
     (case cr_ready r of [] \<Rightarrow> (None, r) | m # ms \<Rightarrow> (Some m, r\<lparr>cr_ready := ms\<rparr>))"

section \<open>More input does not change a decision already taken\<close>

abbreviation ChunkReader_extend :: "bytes \<Rightarrow> ChunkReader \<Rightarrow> ChunkReader" where
  "ChunkReader_extend data r \<equiv> r\<lparr>cr_buffer := cr_buffer r @ data\<rparr>"

lemma csid_state_extend [simp]: "csid_state (r\<lparr>cr_buffer := b\<rparr>) csid = csid_state r csid"
  by (simp add: csid_state_def)

lemma basic_header_append:
  "b \<noteq> [] \<Longrightarrow> basic_header b = Some h \<Longrightarrow> basic_header (b @ d) = Some h"
  by (auto simp: basic_header_def Let_def nth_append split: if_splits)

lemma chunk_extended_extend:
  "pos + mh_len fmt \<le> length (cr_buffer r) \<Longrightarrow>
     chunk_extended (ChunkReader_extend d r) csid pos fmt = chunk_extended r csid pos fmt"
  by (auto simp: chunk_extended_def mh_len_def reader_append split: if_splits)

lemma chunk_locals_extend:
  assumes len: "pos + mh_len fmt \<le> length (cr_buffer r)"
    and ext: "chunk_extended r csid pos fmt \<Longrightarrow> pos + mh_len fmt + 4 \<le> length (cr_buffer r)"
  shows "chunk_locals (ChunkReader_extend d r) csid pos fmt = chunk_locals r csid pos fmt"
proof -
  let ?b = "cr_buffer r"
  have ts: "fmt \<le> 2 \<Longrightarrow> be24 (drop pos (?b @ d)) = be24 (drop pos ?b)"
    and ln: "fmt \<le> 1 \<Longrightarrow> be24 (drop (pos + 3) (?b @ d)) = be24 (drop (pos + 3) ?b)"
    and ty: "fmt \<le> 1 \<Longrightarrow> (?b @ d) ! (pos + 6) = ?b ! (pos + 6)"
    and ms: "fmt = 0 \<Longrightarrow> le32 (drop (pos + 7) (?b @ d)) = le32 (drop (pos + 7) ?b)"
    using len by (auto simp: mh_len_def reader_append nth_append split: if_splits)
  have "chunk_extended r csid pos fmt \<Longrightarrow>
      be32 (drop (pos + mh_len fmt) (?b @ d)) = be32 (drop (pos + mh_len fmt) ?b)"
    using ext by (simp add: reader_append)
  with ts ln ty ms show ?thesis
    unfolding chunk_locals_def Let_def chunk_extended_extend [OF len]
    by (simp del: drop_append)
qed

lemma chunk_body_scan_extend:
  assumes len: "pos + mh_len fmt \<le> length (cr_buffer r)"
    and dec: "chunk_body_scan r csid pos fmt \<noteq> Scan_Wait_on csid"
  shows "chunk_body_scan (ChunkReader_extend d r) csid pos fmt = chunk_body_scan r csid pos fmt"
proof -
  have ext: "chunk_extended r csid pos fmt \<Longrightarrow> pos + mh_len fmt + 4 \<le> length (cr_buffer r)"
    using dec by (auto simp: chunk_body_scan_def split: if_splits)
  show ?thesis
    using dec ext chunk_locals_extend [OF len ext]
    by (auto simp: chunk_body_scan_def chunk_extended_extend [OF len] Let_def split: if_splits)
qed

lemma chunk_body_scan_not_Wait [simp]: "chunk_body_scan r csid pos fmt \<noteq> Scan_Wait"
  by (simp add: chunk_body_scan_def Let_def)

text \<open>Once the message header is buffered, the scan is decided by the chunk stream it names.\<close>

definition scan_on :: "ChunkReader \<Rightarrow> u32 \<Rightarrow> nat \<Rightarrow> nat \<Rightarrow> scan_result" where
  "scan_on r csid pos fmt =
     (if fmt = 3 \<and> \<not> cs_have_header (csid_state r csid) then Scan_Fail csid
      else chunk_body_scan r csid pos fmt)"

lemma chunk_scan_on:
  assumes "\<not> cr_failed r" and "chunk_scan r \<noteq> Scan_Wait"
  obtains csid pos fmt where "pos + mh_len fmt \<le> length (cr_buffer r)"
    and "\<And>d. chunk_scan (ChunkReader_extend d r) = scan_on (ChunkReader_extend d r) csid pos fmt"
proof -
  have ne: "cr_buffer r \<noteq> []" using assms by (auto simp: chunk_scan_def)
  then have b0: "(cr_buffer r @ d) ! 0 = cr_buffer r ! 0" for d by (simp add: nth_append)
  obtain csid pos where bh: "basic_header (cr_buffer r) = Some (csid, pos)"
    using assms by (cases "basic_header (cr_buffer r)") (auto simp: chunk_scan_def Let_def split: if_splits)
  let ?fmt = "unat (drop_bit 6 (cr_buffer r ! 0))"
  have len: "pos + mh_len ?fmt \<le> length (cr_buffer r)"
    using assms bh ne by (auto simp: chunk_scan_def Let_def not_less split: if_splits)
  have "chunk_scan (ChunkReader_extend d r) = scan_on (ChunkReader_extend d r) csid pos ?fmt" for d
    using assms(1) ne basic_header_append [OF ne bh] len b0
    by (simp add: chunk_scan_def scan_on_def Let_def)
  with len show thesis by (rule that)
qed

lemma chunk_scan_extend:
  assumes "chunk_scan r = s" and alive: "\<not> cr_failed r" and "\<And>c. s \<noteq> Scan_Wait_on c" and "s \<noteq> Scan_Wait"
  shows "chunk_scan (ChunkReader_extend d r) = s"
proof -
  have "chunk_scan r \<noteq> Scan_Wait" using assms(1,4) by simp
  then obtain csid pos fmt where len: "pos + mh_len fmt \<le> length (cr_buffer r)"
    and on: "\<And>d. chunk_scan (ChunkReader_extend d r) = scan_on (ChunkReader_extend d r) csid pos fmt"
    using chunk_scan_on [OF alive] by metis
  from on [of "[]"] assms(1) have s: "s = scan_on r csid pos fmt" by simp
  with assms(3) show ?thesis
    using on [of d] chunk_body_scan_extend [OF len, of csid d]
    by (auto simp: scan_on_def split: if_splits)
qed

lemma chunk_body_scan_names:
  "(\<exists>l. chunk_body_scan r csid pos fmt = Scan_Chunk l \<and> cl_csid l = csid)
   \<or> chunk_body_scan r csid pos fmt = Scan_Wait_on csid \<or> chunk_body_scan r csid pos fmt = Scan_Fail csid"
  by (simp add: chunk_body_scan_def chunk_locals_def Let_def)

lemma chunk_scan_wait_names:
  assumes alive: "\<not> cr_failed r" and scan: "chunk_scan r = Scan_Wait_on csid"
  shows "(\<exists>l. chunk_scan (ChunkReader_extend d r) = Scan_Chunk l \<and> cl_csid l = csid)
   \<or> chunk_scan (ChunkReader_extend d r) = Scan_Wait_on csid
   \<or> chunk_scan (ChunkReader_extend d r) = Scan_Fail csid"
proof -
  obtain c pos fmt where on: "\<And>d. chunk_scan (ChunkReader_extend d r) = scan_on (ChunkReader_extend d r) c pos fmt"
    using chunk_scan_on [OF alive] scan by (metis scan_result.distinct(1))
  from on [of "[]"] scan have "scan_on r c pos fmt = Scan_Wait_on csid" by simp
  then have "c = csid"
    using chunk_body_scan_names [of r c pos fmt] by (auto simp: scan_on_def split: if_splits)
  then show ?thesis
    using on [of d] chunk_body_scan_names [of "ChunkReader_extend d r" c pos fmt]
    by (auto simp: scan_on_def)
qed

lemma touch_csid_extend [simp]:
  "touch_csid csid (r\<lparr>cr_buffer := b\<rparr>) = (touch_csid csid r)\<lparr>cr_buffer := b\<rparr>"
  by (simp add: touch_csid_def)

lemma touch_csid_fields [simp]:
  "cr_buffer (touch_csid csid r) = cr_buffer r"
  "cr_chunk_size (touch_csid csid r) = cr_chunk_size r"
  "cr_assembling_bytes (touch_csid csid r) = cr_assembling_bytes r"
  "cr_failed (touch_csid csid r) = cr_failed r"
  "cr_ready (touch_csid csid r) = cr_ready r"
  "csid_state (touch_csid csid r) c = csid_state r c"
  by (simp_all add: touch_csid_def csid_state_def)

lemma chunk_scan_touch: "chunk_scan (touch_csid csid r) = chunk_scan r"
proof -
  have ext: "chunk_extended (touch_csid csid r) c pos fmt = chunk_extended r c pos fmt" for c pos fmt
    by (simp add: chunk_extended_def)
  have "chunk_locals (touch_csid csid r) c pos fmt = chunk_locals r c pos fmt" for c pos fmt
    unfolding chunk_locals_def ext touch_csid_fields ..
  then have body: "chunk_body_scan (touch_csid csid r) c pos fmt = chunk_body_scan r c pos fmt" for c pos fmt
    unfolding chunk_body_scan_def ext touch_csid_fields by simp
  show ?thesis unfolding chunk_scan_def touch_csid_fields body ..
qed

lemma touch_csid_idem: "touch_csid csid (touch_csid csid r) = touch_csid csid r"
  by (simp add: touch_csid_def csid_state_def)

text \<open>The commit looks at the chunk-stream states only through \<open>csid_state\<close> and \<open>find\<close>.\<close>

lemma chunk_commit_extend:
  assumes "cl_header_total l + cl_take l \<le> length (cr_buffer r)"
  shows "chunk_commit l (ChunkReader_extend d r) = ChunkReader_extend d (chunk_commit l r)"
proof -
  have fin: "ChunkReader_finalize csid st (q\<lparr>cr_buffer := b @ d, cr_streams := s, cr_assembling_bytes := n\<rparr>)
      = ChunkReader_extend d
          (ChunkReader_finalize csid st (q\<lparr>cr_buffer := b, cr_streams := s, cr_assembling_bytes := n\<rparr>))"
    for csid st q b s n
    by (simp add: ChunkReader_finalize_def apply_control_def Let_def split: option.splits)
  have body: "take (cl_take l) (drop (cl_header_total l) (cr_buffer r @ d))
      = take (cl_take l) (drop (cl_header_total l) (cr_buffer r))"
    using assms by simp
  have rest: "drop (cl_header_total l + cl_take l) (cr_buffer r @ d)
      = drop (cl_header_total l + cl_take l) (cr_buffer r) @ d"
    using assms by simp
  show ?thesis
    unfolding chunk_commit_def Let_def
    by (simp add: body rest fin del: drop_append take_append)
qed

definition ChunkReader_view :: "ChunkReader \<Rightarrow> ChunkReader" where
  "ChunkReader_view r = (if cr_failed r then r\<lparr>cr_buffer := []\<rparr> else r)"

lemma chunk_step_go:
  assumes "\<not> cr_failed r" and "ChunkReader_step r = (r', True)"
  shows "ChunkReader_step (ChunkReader_extend d r) = (ChunkReader_extend d r', True)"
proof -
  obtain l where scan: "chunk_scan r = Scan_Chunk l" and r': "r' = chunk_commit l r"
    using assms(2) by (auto simp: ChunkReader_step_def split: scan_result.splits)
  have "chunk_scan (ChunkReader_extend d r) = Scan_Chunk l"
    using scan assms(1) by (rule chunk_scan_extend) simp_all
  with r' chunk_scan_bounds [OF scan] show ?thesis
    by (simp add: ChunkReader_step_def chunk_commit_extend)
qed

lemma chunk_step_wait:
  assumes "\<not> cr_failed r" and "ChunkReader_step r = (r', False)" and "\<not> cr_failed r'"
  shows "ChunkReader_step (ChunkReader_extend d r') = ChunkReader_step (ChunkReader_extend d r)"
proof -
  consider "r' = r" | csid where "r' = touch_csid csid r" "chunk_scan r = Scan_Wait_on csid"
    using assms(2,3) by (auto simp: ChunkReader_step_def split: scan_result.splits)
  then show ?thesis
  proof cases
    case 1
    then show ?thesis by simp
  next
    case 2
    let ?s = "ChunkReader_extend d r"
    have scan: "chunk_scan (touch_csid csid ?s) = chunk_scan ?s" by (rule chunk_scan_touch)
    have commit: "chunk_commit l (touch_csid csid ?s) = chunk_commit l ?s" if "cl_csid l = csid" for l
      unfolding chunk_commit_def Let_def touch_csid_fields that by (simp add: touch_csid_def)
    have "ChunkReader_extend d r' = touch_csid csid ?s" using 2 by simp
    moreover have "ChunkReader_step (touch_csid csid ?s) = ChunkReader_step ?s"
      using chunk_scan_wait_names [OF assms(1) 2(2), of d] commit
      unfolding ChunkReader_step_def scan by (auto simp: touch_csid_idem)
    ultimately show ?thesis by (simp only:)
  qed
qed

interpretation chunk_reader: incremental_stream ChunkReader_step ChunkReader_parse
  ChunkReader_feed cr_buffer ChunkReader_extend cr_failed ChunkReader_view
proof
  fix r r' :: ChunkReader and d :: bytes
  assume alive: "\<not> cr_failed r"
  {
    assume go: "ChunkReader_step r = (r', True)"
    show "ChunkReader_step (ChunkReader_extend d r) = (ChunkReader_extend d r', True)"
      by (rule chunk_step_go [OF alive go])
    assume "cr_failed r'"
    then show "ChunkReader_step (ChunkReader_extend d r') = (ChunkReader_extend d r', False)
        \<and> ChunkReader_view (ChunkReader_extend d r') = ChunkReader_view r'"
      by (simp add: ChunkReader_step_def chunk_scan_def ChunkReader_view_def)
  next
    assume "ChunkReader_step r = (r', False)" and "\<not> cr_failed r'"
    then show "ChunkReader_step (ChunkReader_extend d r') = ChunkReader_step (ChunkReader_extend d r)"
      by (rule chunk_step_wait [OF alive])
  next
    assume "ChunkReader_step r = (r', False)" and "cr_failed r'"
    then obtain csid where scan: "chunk_scan r = Scan_Fail csid"
      and r': "r' = (touch_csid csid r)\<lparr>cr_failed := True\<rparr>"
      using alive by (auto simp: ChunkReader_step_def split: scan_result.splits)
    have "chunk_scan (ChunkReader_extend d r) = Scan_Fail csid"
      using scan alive by (rule chunk_scan_extend) simp_all
    with r' show "\<exists>e. ChunkReader_step (ChunkReader_extend d r) = (e, False)
        \<and> ChunkReader_view e = ChunkReader_view r'"
      by (simp add: ChunkReader_step_def ChunkReader_view_def)
  }
next
  fix r t :: ChunkReader and d :: bytes
  assume eq: "ChunkReader_view r = ChunkReader_view t"
  then have "cr_failed r = cr_failed t"
    by (auto simp: ChunkReader_view_def split: if_splits)
  with eq show "ChunkReader_view (ChunkReader_feed d r) = ChunkReader_view (ChunkReader_feed d t)"
    by (auto simp: ChunkReader_view_def ChunkReader_feed_def split: if_splits)
qed (simp_all add: ChunkReader_parse.simps [symmetric] ChunkReader_feed_def ChunkReader_view_def
      ChunkReader_step_progress)

interpretation chunk_ready: fifo "\<lambda>m r. r\<lparr>cr_ready := cr_ready r @ [m]\<rparr>"
  ChunkReader_next cr_ready
  by unfold_locales (simp_all add: ChunkReader_next_def)

section \<open>The reassembly budget\<close>

definition committed :: "CsidState \<Rightarrow> nat" where
  "committed st = length (cs_assembling st) + cs_remaining st"

definition csid_ok :: "CsidState \<Rightarrow> bool" where
  "csid_ok st \<longleftrightarrow> (cs_remaining st = 0 \<longrightarrow> cs_assembling st = []) \<and> committed st \<le> kMaxMessageSize"

text \<open>The accounting kept on every path, failed or not.\<close>

definition reader_books :: "ChunkReader \<Rightarrow> bool" where
  "reader_books r \<longleftrightarrow> finite (dom (cr_streams r))
     \<and> (\<forall>st \<in> ran (cr_streams r). csid_ok st)
     \<and> cr_assembling_bytes r = map_total committed (cr_streams r)
     \<and> cr_assembling_bytes r \<le> kMaxOutstanding
     \<and> 0 < cr_chunk_size r
     \<and> (\<forall>m \<in> set (cr_ready r). length (m_payload m) \<le> kMaxMessageSize)"

lemma reader_books_irrelevant [simp]:
  "reader_books (r\<lparr>cr_failed := f\<rparr>) = reader_books r"
  "reader_books (r\<lparr>cr_buffer := b\<rparr>) = reader_books r"
  by (simp_all add: reader_books_def)

lemma csid_ok_new [simp]: "csid_ok CsidState_new" "committed CsidState_new = 0"
  by (simp_all add: csid_ok_def committed_def CsidState_new_def)

lemma reader_books_state: "reader_books r \<Longrightarrow> csid_ok (csid_state r csid)"
  by (auto simp: reader_books_def csid_state_def ran_def split: option.splits)

lemma map_weight_state: "map_weight committed (cr_streams r) csid = committed (csid_state r csid)"
  by (simp add: map_weight_def csid_state_def split: option.splits)

text \<open>Replacing one chunk stream's state moves the total by the difference.\<close>

lemma books_update:
  assumes "reader_books r" and "csid_ok st"
    and "n + committed (csid_state r csid) = cr_assembling_bytes r + committed st"
    and "n \<le> kMaxOutstanding"
  shows "reader_books (r\<lparr>cr_streams := (cr_streams r)(csid \<mapsto> st), cr_assembling_bytes := n\<rparr>)"
  using assms map_total_upd [of "cr_streams r" committed csid st]
  by (auto simp: reader_books_def map_weight_state ran_def split: if_splits)

lemma books_touch: "reader_books r \<Longrightarrow> reader_books (touch_csid csid r)"
  using books_update [of r "csid_state r csid" "cr_assembling_bytes r" csid]
  by (simp add: touch_csid_def reader_books_state) (simp add: reader_books_def)

lemma books_bound: "reader_books r \<Longrightarrow> cr_assembling_bytes r \<le> kMaxOutstanding"
  by (simp add: reader_books_def)

lemma books_victim:
  assumes "reader_books r" and "cr_streams r target = Some st"
  shows "reader_books (r\<lparr>cr_streams := (cr_streams r)(target \<mapsto>
             st\<lparr>cs_assembling := [], cs_remaining := 0, cs_have_header := False\<rparr>),
           cr_assembling_bytes := cr_assembling_bytes r - min (cr_assembling_bytes r) (committed st)\<rparr>)"
proof (rule books_update [OF assms(1)])
  have st: "csid_state r target = st" using assms(2) by (simp add: csid_state_def)
  have "committed st \<le> cr_assembling_bytes r"
    using assms map_weight_le_total [of "cr_streams r" committed target]
    by (simp add: reader_books_def map_weight_state st)
  then show "cr_assembling_bytes r - min (cr_assembling_bytes r) (committed st)
      + committed (csid_state r target) = cr_assembling_bytes r
      + committed (st\<lparr>cs_assembling := [], cs_remaining := 0, cs_have_header := False\<rparr>)"
    by (simp add: st committed_def)
  show "cr_assembling_bytes r - min (cr_assembling_bytes r) (committed st) \<le> kMaxOutstanding"
    using books_bound [OF assms(1)] by linarith
qed (simp add: csid_ok_def committed_def)

lemma books_ready:
  "reader_books r \<Longrightarrow> length (m_payload m) \<le> kMaxMessageSize \<Longrightarrow>
     reader_books (r\<lparr>cr_ready := cr_ready r @ [m]\<rparr>)"
  by (auto simp: reader_books_def)

lemma books_control:
  assumes "reader_books r" and "length (m_payload m) \<le> kMaxMessageSize"
  shows "reader_books (apply_control m r)"
proof (cases "m_type m = kTypeAbort \<and> 4 \<le> length (m_payload m)")
  case True
  then have nt: "m_type m \<noteq> kTypeSetChunkSize" by (auto simp: message_types)
  show ?thesis
  proof (cases "cr_streams r (be32 (m_payload m))")
    case None
    with True nt assms show ?thesis by (simp add: apply_control_def books_ready)
  next
    case (Some st)
    from books_ready [OF books_victim [OF assms(1) Some] assms(2)] Some True nt show ?thesis
      by (simp add: apply_control_def committed_def Let_def)
  qed
next
  case False
  have "0 < unat sz" if "sz \<noteq> 0" for sz :: u32 using that by (simp add: unat_gt_0)
  then have "reader_books (r\<lparr>cr_chunk_size := unat sz, cr_ready := cr_ready r @ [m]\<rparr>)"
    if "sz \<noteq> 0" for sz :: u32
    using that assms by (auto simp: reader_books_def)
  with False assms show ?thesis
    by (auto simp: apply_control_def Let_def books_ready)
qed

lemma books_finalize:
  assumes books: "reader_books r" and "cs_remaining st = 0"
    and len: "length (cs_assembling st) \<le> kMaxMessageSize"
    and n: "n + committed (csid_state r csid) = cr_assembling_bytes r + length (cs_assembling st)"
  shows "reader_books (ChunkReader_finalize csid st
           (r\<lparr>cr_buffer := b, cr_streams := (cr_streams r)(csid \<mapsto> st), cr_assembling_bytes := n\<rparr>))"
proof -
  let ?r = "r\<lparr>cr_buffer := b, cr_streams := (cr_streams r)(csid \<mapsto> st\<lparr>cs_assembling := []\<rparr>),
              cr_assembling_bytes := n - min n (length (cs_assembling st))\<rparr>"
  have le: "committed (csid_state r csid) \<le> cr_assembling_bytes r"
    using books map_weight_le_total [of "cr_streams r" committed csid]
    by (simp add: reader_books_def map_weight_state)
  with n have k: "length (cs_assembling st) \<le> n" by linarith
  have "reader_books (r\<lparr>cr_streams := (cr_streams r)(csid \<mapsto> st\<lparr>cs_assembling := []\<rparr>),
      cr_assembling_bytes := n - min n (length (cs_assembling st))\<rparr>)"
  proof (rule books_update [OF books])
    show "csid_ok (st\<lparr>cs_assembling := []\<rparr>)" using assms(2) by (simp add: csid_ok_def committed_def)
    show "n - min n (length (cs_assembling st)) + committed (csid_state r csid)
        = cr_assembling_bytes r + committed (st\<lparr>cs_assembling := []\<rparr>)"
      using n k assms(2) by (simp add: committed_def)
    show "n - min n (length (cs_assembling st)) \<le> kMaxOutstanding"
      using n k books_bound [OF books] by linarith
  qed
  then have "reader_books ?r" by (simp add: reader_books_def)
  then have "reader_books (apply_control (ready_message csid st) ?r)"
    by (rule books_control) (simp add: ready_message_def len)
  then show ?thesis by (simp add: ChunkReader_finalize_def)
qed

text \<open>A chunk that passed the scan keeps the books when it is committed.\<close>

definition scan_ok :: "ChunkReader \<Rightarrow> ChunkLocals \<Rightarrow> bool" where
  "scan_ok r l \<longleftrightarrow> (let st = csid_state r (cl_csid l) in
     cl_header_total l + cl_take l \<le> length (cr_buffer r)
     \<and> cl_starting_new l = (cs_remaining st = 0)
     \<and> (\<not> cl_starting_new l \<longrightarrow> cl_prospective l = cs_remaining st)
     \<and> (cl_starting_new l \<longrightarrow> cl_prospective l \<le> kMaxMessageSize
          \<and> cr_assembling_bytes r + cl_prospective l \<le> kMaxOutstanding)
     \<and> cl_take l = min (cl_prospective l) (cr_chunk_size r))"

lemma chunk_body_scan_ok:
  "chunk_body_scan r csid pos fmt = Scan_Chunk l \<Longrightarrow> scan_ok r l"
proof -
  assume scan: "chunk_body_scan r csid pos fmt = Scan_Chunk l"
  then have l: "l = chunk_locals r csid pos fmt"
    and c: "cl_header_total l + cl_take l \<le> length (cr_buffer r)"
      "\<not> (cl_starting_new l \<and> kMaxMessageSize < cl_prospective l)"
      "\<not> (cl_starting_new l \<and> kMaxOutstanding < cr_assembling_bytes r + cl_prospective l)"
    by (auto simp: chunk_body_scan_def Let_def split: if_splits)
  have "cl_csid l = csid" "cl_starting_new l = (cs_remaining (csid_state r csid) = 0)"
    "\<not> cl_starting_new l \<longrightarrow> cl_prospective l = cs_remaining (csid_state r csid)"
    "cl_take l = min (cl_prospective l) (cr_chunk_size r)"
    by (simp_all add: l chunk_locals_def Let_def min_def)
  with c show ?thesis by (auto simp: scan_ok_def Let_def)
qed

lemma chunk_scan_ok: "chunk_scan r = Scan_Chunk l \<Longrightarrow> scan_ok r l"
  by (auto simp: chunk_scan_def Let_def dest: chunk_body_scan_ok split: option.splits if_splits)

lemma commit_header_fields [simp]:
  "cs_assembling (commit_header l st) = cs_assembling st"
  "cs_remaining (commit_header l st) = cs_remaining st"
  by (simp_all add: commit_header_def Let_def)

lemma books_commit:
  assumes books: "reader_books r" and ok: "scan_ok r l"
  shows "reader_books (chunk_commit l r)"
proof -
  define st where "st = csid_state r (cl_csid l)"
  define old where "old = (if cl_starting_new l then [] else cs_assembling st)"
  define st' where "st' = (let s = commit_header l st;
     s = (if cl_starting_new l then s\<lparr>cs_remaining := cl_prospective l, cs_assembling := []\<rparr> else s)
     in s\<lparr>cs_assembling := cs_assembling s @ take (cl_take l) (drop (cl_header_total l) (cr_buffer r)),
          cs_remaining := cs_remaining s - cl_take l\<rparr>)"
  define n where "n = (if cl_starting_new l then cr_assembling_bytes r + cl_prospective l
                       else cr_assembling_bytes r)"
  have stok: "csid_ok st" using reader_books_state [OF books] by (simp add: st_def)
  have asm: "length (cs_assembling st') = length old + cl_take l"
    and rem: "cs_remaining st' = cl_prospective l - cl_take l"
    using ok by (auto simp: st'_def old_def Let_def scan_ok_def st_def)
  have tk: "cl_take l \<le> cl_prospective l" using ok by (simp add: scan_ok_def Let_def)
  then have comm: "committed st' = length old + cl_prospective l"
    using asm rem by (simp add: committed_def)
  have bal: "n + committed st = cr_assembling_bytes r + committed st'"
    using ok stok comm by (auto simp: n_def old_def scan_ok_def Let_def st_def committed_def csid_ok_def)
  have max: "committed st' \<le> kMaxMessageSize" "n \<le> kMaxOutstanding"
    using ok stok comm books_bound [OF books]
    by (auto simp: n_def old_def scan_ok_def Let_def st_def committed_def csid_ok_def)
  have eq: "chunk_commit l r = (let r' = r\<lparr>cr_buffer := drop (cl_header_total l + cl_take l) (cr_buffer r),
        cr_streams := (cr_streams r)(cl_csid l \<mapsto> st'), cr_assembling_bytes := n\<rparr>
      in if cs_remaining st' = 0 then ChunkReader_finalize (cl_csid l) st' r' else r')"
    unfolding chunk_commit_def Let_def st'_def n_def st_def ..
  show ?thesis
  proof (cases "cs_remaining st' = 0")
    case True
    have "reader_books (ChunkReader_finalize (cl_csid l) st'
        (r\<lparr>cr_buffer := drop (cl_header_total l + cl_take l) (cr_buffer r),
           cr_streams := (cr_streams r)(cl_csid l \<mapsto> st'), cr_assembling_bytes := n\<rparr>))"
      using True max bal by (intro books_finalize [OF books]) (simp_all add: committed_def st_def)
    with True eq show ?thesis by simp
  next
    case False
    have "reader_books (r\<lparr>cr_streams := (cr_streams r)(cl_csid l \<mapsto> st'), cr_assembling_bytes := n\<rparr>)"
      using False max bal by (intro books_update [OF books]) (simp_all add: csid_ok_def st_def)
    with False eq show ?thesis by (simp add: reader_books_def)
  qed
qed

section \<open>The reader's invariant\<close>

lemma scan_header_size:
  assumes "basic_header b = Some (csid, pos)"
  shows "pos \<le> 3"
  using assms by (auto simp: basic_header_def Let_def split: if_splits)

lemma mh_len_le: "mh_len fmt \<le> 11"
  by (simp add: mh_len_def)

text \<open>While the loop waits for more input, the buffer is shorter than the largest chunk.\<close>

lemma chunk_body_wait_short:
  assumes "reader_books r" and "chunk_body_scan r csid pos fmt = Scan_Wait_on c" and "pos \<le> 3"
  shows "length (cr_buffer r) \<le> 18 + kMaxMessageSize"
proof -
  let ?l = "chunk_locals r csid pos fmt"
  have "cl_header_total ?l \<le> pos + mh_len fmt + 4" by (simp add: chunk_locals_def Let_def)
  moreover have "cl_take ?l \<le> cl_prospective ?l" by (simp add: chunk_locals_def Let_def)
  moreover have "\<not> cl_starting_new ?l \<Longrightarrow> cl_prospective ?l \<le> kMaxMessageSize"
    using reader_books_state [OF assms(1), of csid]
    by (simp add: chunk_locals_def Let_def csid_ok_def committed_def)
  ultimately show ?thesis
    using assms(2,3) mh_len_le [of fmt]
    by (auto simp: chunk_body_scan_def Let_def split: if_splits)
qed

lemma chunk_wait_short:
  assumes "reader_books r" and "\<not> cr_failed r"
    and "chunk_scan r = Scan_Wait \<or> (\<exists>c. chunk_scan r = Scan_Wait_on c)"
  shows "length (cr_buffer r) \<le> 18 + kMaxMessageSize"
proof (cases "basic_header (cr_buffer r)")
  case None
  then have "length (cr_buffer r) < 3" by (auto simp: basic_header_def Let_def split: if_splits)
  then show ?thesis by simp
next
  case (Some h)
  obtain csid pos where h: "h = (csid, pos)" by (cases h)
  with Some have pos: "pos \<le> 3" by (auto dest: scan_header_size)
  let ?fmt = "unat (drop_bit 6 (cr_buffer r ! 0))"
  consider "cr_buffer r = []" | "length (cr_buffer r) < pos + mh_len ?fmt"
    | c where "chunk_body_scan r csid pos ?fmt = Scan_Wait_on c"
    using assms(2,3) Some h by (auto simp: chunk_scan_def Let_def split: if_splits)
  then show ?thesis
    using pos mh_len_le [of ?fmt] chunk_body_wait_short [OF assms(1) _ pos] by cases auto
qed

definition ChunkReader_inv :: "ChunkReader \<Rightarrow> bool" where
  "ChunkReader_inv r \<longleftrightarrow> reader_books r
     \<and> (cr_failed r \<or> length (cr_buffer r) \<le> 18 + kMaxMessageSize)"

lemma ChunkReader_step_books:
  assumes "reader_books r"
  shows "reader_books (fst (ChunkReader_step r))"
  using assms books_touch [OF assms] books_commit [OF assms] chunk_scan_ok [of r]
  by (simp add: ChunkReader_step_def split: scan_result.splits)

lemma ChunkReader_parse_inv: "reader_books r \<Longrightarrow> ChunkReader_inv (ChunkReader_parse r)"
proof (induction r rule: ChunkReader_parse.induct)
  case (1 r)
  show ?case
  proof (cases "snd (ChunkReader_step r)")
    case True
    with 1 ChunkReader_step_books [of r] show ?thesis
      by (simp add: ChunkReader_parse.simps [of r])
  next
    case False
    let ?r = "fst (ChunkReader_step r)"
    have "cr_failed ?r \<or> length (cr_buffer ?r) \<le> 18 + kMaxMessageSize"
      using False chunk_wait_short [OF "1.prems"]
      by (auto simp: ChunkReader_step_def split: scan_result.splits)
    with False ChunkReader_step_books [OF "1.prems"] show ?thesis
      by (simp add: ChunkReader_parse.simps [of r] ChunkReader_inv_def)
  qed
qed

lemma ChunkReader_feed_inv [inv_intros]:
  "ChunkReader_inv r \<Longrightarrow> ChunkReader_inv (ChunkReader_feed d r)"
  by (auto simp: ChunkReader_feed_def ChunkReader_inv_def
      intro!: ChunkReader_parse_inv [unfolded ChunkReader_inv_def])

lemma ChunkReader_next_inv [inv_intros]:
  "ChunkReader_inv r \<Longrightarrow> ChunkReader_inv (snd (ChunkReader_next r))"
  by (auto simp: ChunkReader_next_def ChunkReader_inv_def reader_books_def split: list.splits)

lemma ChunkReader_new_inv [inv_intros]: "ChunkReader_inv ChunkReader_new"
  by (simp add: ChunkReader_inv_def reader_books_def ChunkReader_new_def kDefaultChunkSize_def)


section \<open>Properties\<close>

datatype reader_call = Reader_Feed bytes | Reader_Next

fun run_reader_call :: "reader_call \<Rightarrow> ChunkReader \<Rightarrow> ChunkReader" where
  "run_reader_call (Reader_Feed data) r = ChunkReader_feed data r"
| "run_reader_call Reader_Next r = snd (ChunkReader_next r)"

interpretation reader_calls: guarded_ops run_reader_call ChunkReader_inv
proof
  fix r c assume "ChunkReader_inv r"
  then show "ChunkReader_inv (run_reader_call c r)" by (cases c) (simp_all add: inv_intros)
qed

text \<open>
  C19. For arbitrary input, well-formed or hostile, the dechunker sees only the concatenation of
  its fragments: any way of cutting the bytes into \<open>feed\<close> calls gives the same ready
  messages, chunk-stream states, chunk size, reassembly count and failure flag (a failed
  reader's leftover input, which nothing reads again, is not compared).
\<close>

theorem chunk_feed_fragmentation:
  "ds \<noteq> [] \<Longrightarrow>
     ChunkReader_view (fold ChunkReader_feed ds r) = ChunkReader_view (ChunkReader_feed (concat ds) r)"
  by (rule chunk_reader.feed_fragments)

theorem chunk_feed_fragmentation_witness:
  "[[3], [0, 0, 0, 0, 0, 0, 9, 1, 0, 0, 0 :: byte]] \<noteq> []
   \<and> ChunkReader_view (fold ChunkReader_feed [[3], [0, 0, 0, 0, 0, 0, 9, 1, 0, 0, 0]] ChunkReader_new)
     = ChunkReader_view (ChunkReader_feed (concat [[3], [0, 0, 0, 0, 0, 0, 9, 1, 0, 0, 0]]) ChunkReader_new)"
  using chunk_feed_fragmentation [of "[[3], [0, 0, 0, 0, 0, 0, 9, 1, 0, 0, 0]]" ChunkReader_new] by simp

text \<open>
  C18. Resource guard: through any sequence of \<open>feed\<close> and \<open>next\<close> calls on arbitrary bytes,
  \<open>assembling_bytes_\<close> is exactly the sum over all chunk streams of the bytes assembled and
  still expected (so the \<open>std::min\<close> clamps never clamp) and at most 32 MiB, no message on one
  chunk stream and no ready message is longer than 8 MiB, a reader that has not failed holds at
  most one largest chunk of unparsed input, and the chunk size is never 0.
\<close>

theorem chunk_reader_bounded:
  "let r = fold run_reader_call cs ChunkReader_new in
     cr_assembling_bytes r = map_total committed (cr_streams r)
     \<and> cr_assembling_bytes r \<le> kMaxOutstanding
     \<and> (\<forall>csid. committed (csid_state r csid) \<le> kMaxMessageSize)
     \<and> list_all (\<lambda>m. length (m_payload m) \<le> kMaxMessageSize) (cr_ready r)
     \<and> (cr_failed r \<or> length (cr_buffer r) \<le> 18 + kMaxMessageSize)
     \<and> 0 < cr_chunk_size r"
proof -
  let ?r = "fold run_reader_call cs ChunkReader_new"
  have inv: "ChunkReader_inv ?r" by (rule reader_calls.ops_keep) (rule ChunkReader_new_inv)
  then have "csid_ok (csid_state ?r csid)" for csid
    by (intro reader_books_state) (simp add: ChunkReader_inv_def)
  with inv show ?thesis
    by (simp add: ChunkReader_inv_def reader_books_def csid_ok_def list_all_iff Let_def)
qed

end
