(* ===== verification/Chunk_Roundtrip.thy ===== *)
theory Chunk_Roundtrip
  imports Chunk_Writer Chunk_Reader
begin

text \<open>
  The chunk writer (\<^verbatim>\<open>rtmp/src/chunk_writer.cpp\<close>) against the chunk reader
  (\<^verbatim>\<open>rtmp/src/chunk_reader.cpp\<close>): a reader that is idle and agrees with the writer on the chunk
  size receives exactly the messages written, in order, and stays in agreement through
  \<open>set_chunk_size\<close>. The proof follows the reader chunk by chunk: \<open>at_chunk\<close> is its state when
  a prefix of the payload has been assembled.
\<close>

section \<open>Basic headers\<close>

lemma bit_below:
  fixes w :: "'a::len word"
  assumes "unat w < 2 ^ n" and "bit w m"
  shows "m < n"
proof (rule ccontr)
  assume "\<not> m < n"
  have "take_bit n w = w"
    using assms(1) by (metis take_bit_nat_eq_self unsigned_take_bit_eq word_unat_eq_iff)
  then have "bit (take_bit n w) m" using assms(2) by simp
  with \<open>\<not> m < n\<close> show False by (simp add: bit_take_bit_iff)
qed

lemma basic_header_byte:
  fixes csid :: u32 and fmt :: byte
  assumes "csid < 64" and "fmt \<le> 3"
  shows "ucast ((ucast (push_bit 6 (ucast fmt) OR csid) :: byte) AND 0x3F) = csid"
    and "drop_bit 6 (ucast (push_bit 6 (ucast fmt) OR csid) :: byte) = fmt"
proof -
  have c: "bit csid m \<Longrightarrow> m < 6" for m
    by (rule bit_below [of csid]) (use assms(1) in \<open>simp_all add: word_less_nat_alt\<close>)
  have f: "bit fmt m \<Longrightarrow> m < 2" for m
    by (rule bit_below [of fmt]) (use assms(2) in \<open>simp_all add: word_le_nat_alt\<close>)
  have m: "(0x3F :: byte) = mask 6" by (simp add: mask_numeral)
  show "ucast ((ucast (push_bit 6 (ucast fmt) OR csid) :: byte) AND 0x3F) = csid"
    unfolding m by (rule bit_word_eqI) (use c in \<open>fastforce simp: bit_simps\<close>)
  show "drop_bit 6 (ucast (push_bit 6 (ucast fmt) OR csid) :: byte) = fmt"
    by (rule bit_word_eqI) (use c f in \<open>fastforce simp: bit_simps\<close>)
qed

lemma csid_split:
  fixes csid :: u32
  assumes "64 \<le> csid"
  shows "csid < 320 \<Longrightarrow> 64 + ucast (ucast (csid - 64) :: byte) = csid"
    and "csid \<le> 65599 \<Longrightarrow>
      64 + ucast (ucast ((csid - 64) AND 0xFF) :: byte) + ucast (ucast (drop_bit 8 (csid - 64)) :: byte) * 256 = csid"
proof -
  let ?d = "csid - 64"
  have d: "unat ?d = unat csid - 64" using assms by (simp add: unat_sub)
  {
    assume "csid < 320"
    then have "unat ?d < 2 ^ 8" using d assms by (simp add: word_less_nat_alt word_le_nat_alt)
    then have b: "bit ?d m \<Longrightarrow> m < 8" for m by (rule bit_below)
    have "ucast (ucast ?d :: byte) = ?d"
      by (rule bit_word_eqI) (use b in \<open>fastforce simp: bit_simps\<close>)
    then show "64 + ucast (ucast ?d :: byte) = csid" by simp
  next
    assume "csid \<le> 65599"
    then have "unat ?d < 2 ^ 16" using d assms by (simp add: word_less_nat_alt word_le_nat_alt)
    then have b: "bit ?d m \<Longrightarrow> m < 16" for m by (rule bit_below)
    have m: "(0xFF :: u32) = mask 8" by (simp add: mask_numeral)
    have lo: "ucast (ucast (?d AND 0xFF) :: byte) = take_bit 8 ?d"
      unfolding m by (rule bit_word_eqI) (auto simp: bit_simps)
    have "ucast (ucast (drop_bit 8 ?d) :: byte) = drop_bit 8 ?d"
      by (rule bit_word_eqI) (use b in \<open>fastforce simp: bit_simps\<close>)
    then have hi: "ucast (ucast (drop_bit 8 ?d) :: byte) * 256 = push_bit 8 (drop_bit 8 ?d)"
      by (simp add: push_bit_eq_mult)
    have "take_bit 8 ?d + push_bit 8 (drop_bit 8 ?d) = ?d"
      by (metis add.commute bits_ident)
    then show "64 + ucast (ucast (?d AND 0xFF) :: byte) + ucast (ucast (drop_bit 8 ?d) :: byte) * 256 = csid"
      unfolding lo hi add.assoc by simp
  }
qed

lemma basic_header_put:
  assumes "2 \<le> csid" and "csid \<le> 65599" and "fmt \<le> 3"
  shows "basic_header (put_basic_header fmt csid [] @ xs) = Some (csid, length (put_basic_header fmt csid []))"
    and "put_basic_header fmt csid [] \<noteq> []"
    and "drop_bit 6 (hd (put_basic_header fmt csid [])) = fmt"
proof -
  have c01: "csid \<noteq> 0" "csid \<noteq> 1" using assms(1) by (auto simp: word_le_nat_alt)
  note b = basic_header_byte [OF _ assms(3)]
  have zero: "ucast ((ucast (push_bit 6 (ucast fmt) :: u32) :: byte) AND 0x3F) = (0 :: u32)"
    and zf: "drop_bit 6 (ucast (push_bit 6 (ucast fmt) :: u32) :: byte) = fmt"
    using b [of 0] by simp_all
  have one: "ucast ((ucast (push_bit 6 (ucast fmt) OR 1 :: u32) :: byte) AND 0x3F) = (1 :: u32)"
    and onef: "drop_bit 6 (ucast (push_bit 6 (ucast fmt) OR 1 :: u32) :: byte) = fmt"
    using b [of 1] by simp_all
  consider "csid < 64" | "64 \<le> csid" "csid < 320" | "64 \<le> csid" "\<not> csid < 320" by fastforce
  then show "basic_header (put_basic_header fmt csid [] @ xs) = Some (csid, length (put_basic_header fmt csid []))"
  proof cases
    case 1
    with b [OF 1] c01 show ?thesis by (simp add: basic_header_def put_basic_header_def Let_def)
  next
    case 2
    then have "\<not> csid < 64" by simp
    with 2(2) csid_split(1) [OF 2] zero show ?thesis
      by (simp add: basic_header_def put_basic_header_def Let_def)
  next
    case 3
    then have "\<not> csid < 64" by simp
    with 3(2) csid_split(2) [OF 3(1) assms(2)] one show ?thesis
      by (simp add: basic_header_def put_basic_header_def Let_def)
  qed
  show "put_basic_header fmt csid [] \<noteq> []" by (simp add: put_basic_header_def)
  show "drop_bit 6 (hd (put_basic_header fmt csid [])) = fmt"
    using b(2) [of csid] zf onef by (simp add: put_basic_header_def)
qed

section \<open>The reader, chunk by chunk\<close>

definition assembled :: "RtmpMessage \<Rightarrow> nat \<Rightarrow> CsidState" where
  "assembled msg k = \<lparr>cs_timestamp = m_timestamp msg, cs_delta = 0, cs_length = length (m_payload msg),
     cs_message_stream_id = m_message_stream_id msg, cs_type = m_type msg,
     cs_extended = (0xFFFFFF \<le> m_timestamp msg), cs_have_header = True,
     cs_assembling = take k (m_payload msg), cs_remaining = length (m_payload msg) - k\<rparr>"

definition at_chunk :: "ChunkReader \<Rightarrow> RtmpMessage \<Rightarrow> nat \<Rightarrow> bytes \<Rightarrow> ChunkReader" where
  "at_chunk r msg k b = r\<lparr>cr_buffer := b,
     cr_streams := (cr_streams r)(m_chunk_stream_id msg \<mapsto> assembled msg k),
     cr_assembling_bytes := length (m_payload msg)\<rparr>"

definition after_chunk :: "ChunkReader \<Rightarrow> RtmpMessage \<Rightarrow> nat \<Rightarrow> bytes \<Rightarrow> ChunkReader" where
  "after_chunk r msg k b =
     (if length (m_payload msg) \<le> k
      then ChunkReader_finalize (m_chunk_stream_id msg) (assembled msg k) (at_chunk r msg k b)
      else at_chunk r msg k b)"

definition reader_idle :: "ChunkReader \<Rightarrow> bool" where
  "reader_idle r \<longleftrightarrow> \<not> cr_failed r \<and> cr_assembling_bytes r = 0 \<and> 0 < cr_chunk_size r
     \<and> (\<forall>csid. cs_remaining (csid_state r csid) = 0)"

definition deliverable :: "RtmpMessage \<Rightarrow> bool" where
  "deliverable msg \<longleftrightarrow> writable msg \<and> length (m_payload msg) \<le> kMaxMessageSize"

definition ts_field :: "RtmpMessage \<Rightarrow> u32" where
  "ts_field msg = (if 0xFFFFFF \<le> m_timestamp msg then 0xFFFFFF else m_timestamp msg)"

definition ext_bytes :: "RtmpMessage \<Rightarrow> bytes" where
  "ext_bytes msg = (if 0xFFFFFF \<le> m_timestamp msg then put_u32be (m_timestamp msg) [] else [])"

lemma first_header_eq:
  "first_header msg = put_basic_header 0 (m_chunk_stream_id msg) [] @ put_u24 (ts_field msg) []
     @ put_u24 (of_nat (length (m_payload msg))) [] @ [m_type msg]
     @ put_u32le (m_message_stream_id msg) [] @ ext_bytes msg"
  by (simp add: first_header_def ts_field_def ext_bytes_def)

lemma cont_header_eq: "cont_header msg = put_basic_header 3 (m_chunk_stream_id msg) [] @ ext_bytes msg"
  by (simp add: cont_header_def ext_bytes_def)

lemma take_bit_24: "unat (w :: u32) \<le> 0xFFFFFF \<Longrightarrow> take_bit 24 w = w"
proof -
  assume "unat w \<le> 0xFFFFFF"
  then have "take_bit 24 (unat w) = unat w" by (intro take_bit_nat_eq_self) simp
  then show ?thesis by (metis unsigned_take_bit_eq word_unat_eq_iff)
qed

lemma be24_ts_field: "be24 (put_u24 (ts_field msg) [] @ rest) = ts_field msg"
  and ts_field_extended: "(ts_field msg = 0xFFFFFF) = (0xFFFFFF \<le> m_timestamp msg)"
proof -
  have "unat (ts_field msg) \<le> 0xFFFFFF" by (simp add: ts_field_def word_le_nat_alt)
  then show "be24 (put_u24 (ts_field msg) [] @ rest) = ts_field msg"
    by (simp add: be24_put_u24 take_bit_24)
  show "(ts_field msg = 0xFFFFFF) = (0xFFFFFF \<le> m_timestamp msg)" by (auto simp: ts_field_def)
qed

lemma be24_length:
  "n \<le> 0xFFFFFF \<Longrightarrow> unat (be24 (put_u24 (of_nat n) [] @ rest)) = n"
proof -
  assume n: "n \<le> 0xFFFFFF"
  then have u: "unat (of_nat n :: u32) = n" by (simp add: unat_of_nat take_bit_nat_eq_self)
  with n have "take_bit 24 (of_nat n :: u32) = of_nat n" by (intro take_bit_24) simp
  with u show ?thesis by (simp add: be24_put_u24)
qed

text \<open>The locals the loop computes for the first chunk and for a continuation chunk.\<close>

lemma chunk_locals_first:
  fixes msg r body
  defines "h \<equiv> put_basic_header 0 (m_chunk_stream_id msg) []"
  defines "q \<equiv> r\<lparr>cr_buffer := first_header msg @ body\<rparr>"
  assumes "writable msg" and idle: "reader_idle r"
  shows "chunk_extended q (m_chunk_stream_id msg) (length h) 0 = (0xFFFFFF \<le> m_timestamp msg)"
    and "chunk_locals q (m_chunk_stream_id msg) (length h) 0 =
      \<lparr>cl_csid = m_chunk_stream_id msg, cl_fmt = 0, cl_ts_field = ts_field msg,
       cl_extended = (0xFFFFFF \<le> m_timestamp msg),
       cl_ext_value = (if 0xFFFFFF \<le> m_timestamp msg then m_timestamp msg else 0),
       cl_length = length (m_payload msg), cl_type = m_type msg, cl_msid = m_message_stream_id msg,
       cl_starting_new = True, cl_prospective = length (m_payload msg),
       cl_header_total = length (first_header msg),
       cl_take = min (length (m_payload msg)) (cr_chunk_size r)\<rparr>"
proof -
  have b: "cr_buffer q = h @ put_u24 (ts_field msg) []
     @ put_u24 (of_nat (length (m_payload msg))) [] @ [m_type msg]
     @ put_u32le (m_message_stream_id msg) [] @ ext_bytes msg @ body"
    by (simp add: q_def h_def first_header_eq)
  have len: "length (m_payload msg) \<le> 0xFFFFFF" using assms(3) by (simp add: writable_def)
  have d0: "be24 (drop (length h) (cr_buffer q)) = ts_field msg"
    unfolding b by (simp add: be24_ts_field)
  have d3: "unat (be24 (drop (length h + 3) (cr_buffer q))) = length (m_payload msg)"
    unfolding b using be24_length [OF len] by simp
  have d6: "cr_buffer q ! (length h + 6) = m_type msg"
    unfolding b by (simp add: nth_append)
  have d7: "le32 (drop (length h + 7) (cr_buffer q)) = m_message_stream_id msg"
    unfolding b by (simp add: le32_put_u32le)
  have d11: "be32 (drop (length h + 11) (cr_buffer q)) = m_timestamp msg"
    if "0xFFFFFF \<le> m_timestamp msg"
    unfolding b using that by (simp add: ext_bytes_def be32_put_u32be)
  show ext: "chunk_extended q (m_chunk_stream_id msg) (length h) 0 = (0xFFFFFF \<le> m_timestamp msg)"
    unfolding chunk_extended_def d0 by (simp add: ts_field_extended)
  have rem: "cs_remaining (csid_state q (m_chunk_stream_id msg)) = 0"
    using idle by (simp add: q_def reader_idle_def)
  have tot: "length (first_header msg)
      = (if 0xFFFFFF \<le> m_timestamp msg then length h + 11 + 4 else length h + 11)"
    by (simp add: first_header_eq h_def ext_bytes_def)
  have sz: "cr_chunk_size q = cr_chunk_size r" by (simp add: q_def)
  show "chunk_locals q (m_chunk_stream_id msg) (length h) 0 =
      \<lparr>cl_csid = m_chunk_stream_id msg, cl_fmt = 0, cl_ts_field = ts_field msg,
       cl_extended = (0xFFFFFF \<le> m_timestamp msg),
       cl_ext_value = (if 0xFFFFFF \<le> m_timestamp msg then m_timestamp msg else 0),
       cl_length = length (m_payload msg), cl_type = m_type msg, cl_msid = m_message_stream_id msg,
       cl_starting_new = True, cl_prospective = length (m_payload msg),
       cl_header_total = length (first_header msg),
       cl_take = min (length (m_payload msg)) (cr_chunk_size r)\<rparr>"
    unfolding chunk_locals_def ext Let_def tot
    using d0 d3 d6 d7 d11 rem sz by (simp add: mh_len_def min_def)
qed

text \<open>What a scan that found a whole chunk gives, on a buffer starting with a basic header.\<close>

lemma chunk_scan_chunk:
  assumes alive: "\<not> cr_failed q" and b: "cr_buffer q = put_basic_header fmt csid [] @ xs"
    and csid: "2 \<le> csid" "csid \<le> 65599" "fmt \<le> 3"
    and len: "mh_len (unat fmt) \<le> length xs"
    and have3: "unat fmt = 3 \<Longrightarrow> cs_have_header (csid_state q csid)"
    and ext: "chunk_extended q csid (length (put_basic_header fmt csid [])) (unat fmt) \<Longrightarrow>
      mh_len (unat fmt) + 4 \<le> length xs"
    and l: "l = chunk_locals q csid (length (put_basic_header fmt csid [])) (unat fmt)"
    and fits: "cl_header_total l + cl_take l \<le> length (cr_buffer q)"
    and budget: "cl_starting_new l \<Longrightarrow> cl_prospective l \<le> kMaxMessageSize
      \<and> cr_assembling_bytes q + cl_prospective l \<le> kMaxOutstanding"
  shows "ChunkReader_step q = (chunk_commit l q, True)"
proof -
  let ?h = "put_basic_header fmt csid []"
  note put = basic_header_put [OF csid]
  have "cr_buffer q ! 0 = hd ?h" using put(2) b by (simp add: hd_conv_nth nth_append)
  then have fmt: "unat (drop_bit 6 (cr_buffer q ! 0)) = unat fmt" using put(3) by simp
  have ne: "cr_buffer q \<noteq> []" using put(2) b by simp
  have "chunk_body_scan q csid (length ?h) (unat fmt) = Scan_Chunk l"
    using ext budget fits b unfolding chunk_body_scan_def l [symmetric] Let_def by auto
  then have "chunk_scan q = Scan_Chunk l"
    using alive ne len have3 put(1) [of xs] fmt unfolding chunk_scan_def Let_def b by simp
  then show ?thesis by (simp add: ChunkReader_step_def)
qed

text \<open>The chunk-stream state a commit leaves before the message is finalized.\<close>

definition body_state :: "ChunkLocals \<Rightarrow> ChunkReader \<Rightarrow> CsidState" where
  "body_state l q =
     (let st = commit_header l (csid_state q (cl_csid l));
          st = (if cl_starting_new l
                then st\<lparr>cs_remaining := cl_prospective l, cs_assembling := []\<rparr> else st)
      in st\<lparr>cs_assembling := cs_assembling st
               @ take (cl_take l) (drop (cl_header_total l) (cr_buffer q)),
            cs_remaining := cs_remaining st - cl_take l\<rparr>)"

lemma chunk_commit_body:
  assumes "body_state l q = assembled msg k" and "cl_csid l = m_chunk_stream_id msg"
    and "(if cl_starting_new l then cr_assembling_bytes q + cl_prospective l
          else cr_assembling_bytes q) = length (m_payload msg)"
    and "q\<lparr>cr_buffer := rest, cr_streams := (cr_streams q)(m_chunk_stream_id msg \<mapsto> assembled msg k),
           cr_assembling_bytes := length (m_payload msg)\<rparr> = at_chunk r msg k rest"
    and "drop (cl_header_total l + cl_take l) (cr_buffer q) = rest"
  shows "chunk_commit l q = after_chunk r msg k rest"
proof -
  have "chunk_commit l q = (let r' = q\<lparr>cr_buffer := rest,
      cr_streams := (cr_streams q)(cl_csid l \<mapsto> body_state l q),
      cr_assembling_bytes := length (m_payload msg)\<rparr>
    in if cs_remaining (body_state l q) = 0 then ChunkReader_finalize (cl_csid l) (body_state l q) r' else r')"
    unfolding chunk_commit_def Let_def assms(3,5) body_state_def ..
  then show ?thesis
    unfolding assms(1,2) Let_def assms(4) by (simp add: after_chunk_def assembled_def)
qed

lemma kMaxMessageSize_lt: "kMaxMessageSize \<le> kMaxOutstanding"
  by (simp add: kMaxMessageSize_def kMaxOutstanding_def)

lemma step_first:
  assumes "deliverable msg" and idle: "reader_idle r"
  shows "ChunkReader_step (r\<lparr>cr_buffer := first_header msg @ take (cr_chunk_size r) (m_payload msg) @ rest\<rparr>)
    = (after_chunk r msg (cr_chunk_size r) rest, True)"
proof -
  let ?c = "cr_chunk_size r" and ?p = "m_payload msg" and ?csid = "m_chunk_stream_id msg"
  let ?h = "put_basic_header 0 ?csid []"
  define q where "q = r\<lparr>cr_buffer := first_header msg @ take ?c ?p @ rest\<rparr>"
  have w: "writable msg" and max: "length ?p \<le> kMaxMessageSize"
    using assms(1) by (simp_all add: deliverable_def)
  note loc = chunk_locals_first [OF w idle, of "take ?c ?p @ rest", folded q_def]
  define l where "l = chunk_locals q ?csid (length ?h) 0"
  note l = loc(2) [folded l_def]
  have qb: "cr_buffer q = first_header msg @ take ?c ?p @ rest" by (simp add: q_def)
  have b: "cr_buffer q = ?h @ (drop (length ?h) (first_header msg) @ take ?c ?p @ rest)"
    by (simp add: q_def first_header_eq)
  have step: "ChunkReader_step q = (chunk_commit l q, True)"
  proof (rule chunk_scan_chunk [OF _ b])
    show "mh_len (unat (0 :: byte)) + 4 \<le> length (drop (length ?h) (first_header msg) @ take ?c ?p @ rest)"
      if "chunk_extended q ?csid (length ?h) (unat (0 :: byte))"
      using that loc(1) by (simp add: mh_len_def first_header_eq ext_bytes_def)
    show "cl_header_total l + cl_take l \<le> length (cr_buffer q)"
      by (simp add: l qb)
    show "cl_prospective l \<le> kMaxMessageSize \<and> cr_assembling_bytes q + cl_prospective l \<le> kMaxOutstanding"
      using max kMaxMessageSize_lt idle by (simp add: l) (simp add: q_def reader_idle_def)
  qed (use w idle in \<open>simp_all add: q_def writable_def reader_idle_def mh_len_def first_header_eq l_def\<close>)
  have "chunk_commit l q = after_chunk r msg ?c rest"
  proof (rule chunk_commit_body)
    show "body_state l q = assembled msg ?c"
      by (rule CsidState.equality)
        (auto simp: l qb body_state_def commit_header_def assembled_def ts_field_def min_def)
  qed (use idle in \<open>auto simp: l qb\<close>, simp_all add: q_def at_chunk_def reader_idle_def)
  with step show ?thesis by (simp add: q_def)
qed

lemma at_chunk_state [simp]:
  "csid_state (at_chunk r msg k b) (m_chunk_stream_id msg) = assembled msg k"
  "cr_buffer (at_chunk r msg k b) = b"
  "cr_chunk_size (at_chunk r msg k b) = cr_chunk_size r"
  "cr_failed (at_chunk r msg k b) = cr_failed r"
  "cr_assembling_bytes (at_chunk r msg k b) = length (m_payload msg)"
  by (simp_all add: at_chunk_def csid_state_def)

lemma chunk_locals_cont:
  fixes msg r body k
  defines "h \<equiv> put_basic_header 3 (m_chunk_stream_id msg) []"
  defines "q \<equiv> at_chunk r msg k (cont_header msg @ body)"
  assumes k: "k < length (m_payload msg)"
  shows "chunk_extended q (m_chunk_stream_id msg) (length h) 3 = (0xFFFFFF \<le> m_timestamp msg)"
    and "chunk_locals q (m_chunk_stream_id msg) (length h) 3 =
      \<lparr>cl_csid = m_chunk_stream_id msg, cl_fmt = 3, cl_ts_field = 0,
       cl_extended = (0xFFFFFF \<le> m_timestamp msg),
       cl_ext_value = (if 0xFFFFFF \<le> m_timestamp msg then m_timestamp msg else 0),
       cl_length = length (m_payload msg), cl_type = m_type msg, cl_msid = m_message_stream_id msg,
       cl_starting_new = False, cl_prospective = length (m_payload msg) - k,
       cl_header_total = length (cont_header msg),
       cl_take = min (length (m_payload msg) - k) (cr_chunk_size r)\<rparr>"
proof -
  have st: "csid_state q (m_chunk_stream_id msg) = assembled msg k" by (simp add: q_def)
  show ext: "chunk_extended q (m_chunk_stream_id msg) (length h) 3 = (0xFFFFFF \<le> m_timestamp msg)"
    by (simp add: chunk_extended_def st) (simp add: assembled_def)
  have d: "be32 (drop (length h) (cr_buffer q)) = m_timestamp msg" if "0xFFFFFF \<le> m_timestamp msg"
    using that by (simp add: q_def h_def cont_header_eq ext_bytes_def be32_put_u32be)
  have tot: "length (cont_header msg)
      = (if 0xFFFFFF \<le> m_timestamp msg then length h + 4 else length h)"
    by (simp add: cont_header_eq h_def ext_bytes_def)
  have sz: "cr_chunk_size q = cr_chunk_size r" by (simp add: q_def)
  show "chunk_locals q (m_chunk_stream_id msg) (length h) 3 =
      \<lparr>cl_csid = m_chunk_stream_id msg, cl_fmt = 3, cl_ts_field = 0,
       cl_extended = (0xFFFFFF \<le> m_timestamp msg),
       cl_ext_value = (if 0xFFFFFF \<le> m_timestamp msg then m_timestamp msg else 0),
       cl_length = length (m_payload msg), cl_type = m_type msg, cl_msid = m_message_stream_id msg,
       cl_starting_new = False, cl_prospective = length (m_payload msg) - k,
       cl_header_total = length (cont_header msg),
       cl_take = min (length (m_payload msg) - k) (cr_chunk_size r)\<rparr>"
    unfolding chunk_locals_def ext Let_def tot st
    using d sz k by (simp add: mh_len_def min_def assembled_def)
qed

lemma step_cont:
  assumes "deliverable msg" and idle: "reader_idle r" and k: "k < length (m_payload msg)"
  shows "ChunkReader_step (at_chunk r msg k
      (cont_header msg @ take (cr_chunk_size r) (drop k (m_payload msg)) @ rest))
    = (after_chunk r msg (k + cr_chunk_size r) rest, True)"
proof -
  let ?c = "cr_chunk_size r" and ?p = "m_payload msg" and ?csid = "m_chunk_stream_id msg"
  let ?h = "put_basic_header 3 ?csid []" and ?body = "take ?c (drop k ?p) @ rest"
  define q where "q = at_chunk r msg k (cont_header msg @ ?body)"
  have w: "writable msg" using assms(1) by (simp add: deliverable_def)
  note loc = chunk_locals_cont [OF k, of r ?body, folded q_def]
  define l where "l = chunk_locals q ?csid (length ?h) 3"
  note l = loc(2) [folded l_def]
  have qb: "cr_buffer q = cont_header msg @ ?body" by (simp add: q_def)
  have st: "csid_state q ?csid = assembled msg k" by (simp add: q_def)
  have b: "cr_buffer q = ?h @ (drop (length ?h) (cont_header msg) @ ?body)"
    by (simp add: qb cont_header_eq)
  have step: "ChunkReader_step q = (chunk_commit l q, True)"
  proof (rule chunk_scan_chunk [OF _ b])
    show "mh_len (unat (3 :: byte)) + 4 \<le> length (drop (length ?h) (cont_header msg) @ ?body)"
      if "chunk_extended q ?csid (length ?h) (unat (3 :: byte))"
      using that loc(1) by (simp add: mh_len_def cont_header_eq ext_bytes_def)
    show "cl_header_total l + cl_take l \<le> length (cr_buffer q)"
      using k by (simp add: l qb)
    show "cl_prospective l \<le> kMaxMessageSize \<and> cr_assembling_bytes q + cl_prospective l \<le> kMaxOutstanding"
      if "cl_starting_new l" using that by (simp add: l)
  qed (use w idle in \<open>simp_all add: q_def writable_def reader_idle_def mh_len_def l_def assembled_def\<close>)
  have tk: "take k ?p @ take (min (length ?p - k) ?c) (drop k ?p) = take (k + ?c) ?p"
    by (cases "length ?p - k \<le> ?c") (simp_all add: take_add min_def)
  have "chunk_commit l q = after_chunk r msg (k + ?c) rest"
  proof (rule chunk_commit_body)
    show "body_state l q = assembled msg (k + ?c)"
      by (rule CsidState.equality)
        (simp_all add: l qb st body_state_def commit_header_def tk, simp_all add: assembled_def tk)
  qed (use idle k in \<open>auto simp: l qb\<close>, simp_all add: q_def at_chunk_def min_def)
  with step show ?thesis by (simp add: q_def)
qed

section \<open>One message\<close>

definition delivered :: "ChunkReader \<Rightarrow> RtmpMessage \<Rightarrow> bytes \<Rightarrow> ChunkReader" where
  "delivered r msg b = apply_control msg
     (r\<lparr>cr_buffer := b,
        cr_streams := (cr_streams r)(m_chunk_stream_id msg \<mapsto>
          (assembled msg (length (m_payload msg)))\<lparr>cs_assembling := []\<rparr>),
        cr_assembling_bytes := 0\<rparr>)"

lemma after_last_chunk:
  assumes "length (m_payload msg) \<le> k"
  shows "after_chunk r msg k b = delivered r msg b"
proof -
  have st: "assembled msg k = assembled msg (length (m_payload msg))"
    using assms by (simp add: assembled_def)
  have "ready_message (m_chunk_stream_id msg) (assembled msg (length (m_payload msg))) = msg"
    by (simp add: ready_message_def assembled_def)
  then show ?thesis
    using assms unfolding after_chunk_def st delivered_def ChunkReader_finalize_def
    by (simp add: at_chunk_def) (simp add: assembled_def)
qed

lemma chunk_bodies_split:
  "chunk_bodies c cont p @ rest = take (Suc c) p
     @ (if length p \<le> Suc c then rest else cont @ chunk_bodies c cont (drop (Suc c) p) @ rest)"
  by (subst chunk_bodies.simps) simp

lemma parse_step: "ChunkReader_step q = (q', True) \<Longrightarrow> ChunkReader_parse q = ChunkReader_parse q'"
  by (simp add: ChunkReader_parse.simps [of q])

lemma parse_cont:
  assumes "deliverable msg" and "reader_idle r" and c: "cr_chunk_size r = Suc c"
    and "k < length (m_payload msg)"
  shows "ChunkReader_parse (at_chunk r msg k
      (cont_header msg @ chunk_bodies c (cont_header msg) (drop k (m_payload msg)) @ rest))
    = ChunkReader_parse (delivered r msg rest)"
  using assms(4)
proof (induction "length (m_payload msg) - k" arbitrary: k rule: less_induct)
  case less
  let ?p = "drop k (m_payload msg)"
  let ?rest = "if length ?p \<le> Suc c then rest
    else cont_header msg @ chunk_bodies c (cont_header msg) (drop (Suc c) ?p) @ rest"
  note step = step_cont [OF assms(1,2) less.prems, of ?rest, unfolded c,
      folded chunk_bodies_split, THEN parse_step]
  show ?case
  proof (cases "length ?p \<le> Suc c")
    case True
    then have "length (m_payload msg) \<le> k + Suc c" by simp
    from after_last_chunk [OF this] step True show ?thesis by simp
  next
    case False
    then have more: "k + Suc c < length (m_payload msg)" by simp
    then have "after_chunk r msg (k + Suc c) b = at_chunk r msg (k + Suc c) b" for b
      by (simp add: after_chunk_def)
    moreover have "drop (Suc c) ?p = drop (k + Suc c) (m_payload msg)" by (simp add: add.commute)
    ultimately show ?thesis
      using step False less.hyps [OF _ more] more by (simp only: if_False)
  qed
qed

lemma parse_message:
  assumes "deliverable msg" and "reader_idle r" and "cr_chunk_size r = unat sz"
  shows "ChunkReader_parse (r\<lparr>cr_buffer := message_bytes sz msg @ rest\<rparr>)
    = ChunkReader_parse (delivered r msg rest)"
proof -
  obtain c where c: "cr_chunk_size r = Suc c"
    using assms(2) by (cases "cr_chunk_size r") (auto simp: reader_idle_def)
  let ?p = "m_payload msg"
  let ?rest = "if length ?p \<le> Suc c then rest
    else cont_header msg @ chunk_bodies c (cont_header msg) (drop (Suc c) ?p) @ rest"
  have b: "message_bytes sz msg @ rest = first_header msg @ take (Suc c) ?p @ ?rest"
  proof -
    have "unat sz - 1 = c" using assms(3) c by simp
    with chunk_bodies_split [of c "cont_header msg" ?p rest] show ?thesis
      by (simp only: message_bytes_def append_assoc)
  qed
  have step: "ChunkReader_parse (r\<lparr>cr_buffer := message_bytes sz msg @ rest\<rparr>)
      = ChunkReader_parse (after_chunk r msg (Suc c) ?rest)"
    unfolding b using step_first [OF assms(1,2), of ?rest, THEN parse_step] c by simp
  show ?thesis
  proof (cases "length ?p \<le> Suc c")
    case True
    with step after_last_chunk [OF True] show ?thesis by simp
  next
    case False
    then have "after_chunk r msg (Suc c) b = at_chunk r msg (Suc c) b" for b
      by (simp add: after_chunk_def)
    with step False parse_cont [OF assms(1,2) c, of "Suc c" rest] show ?thesis by simp
  qed
qed

section \<open>A whole session\<close>

definition plain_message :: "RtmpMessage \<Rightarrow> bool" where
  "plain_message msg \<longleftrightarrow> \<not> (m_type msg = kTypeSetChunkSize \<and> 4 \<le> length (m_payload msg))"

lemma delivered_plain:
  assumes "plain_message msg" and idle: "reader_idle r"
  shows "cr_ready (delivered r msg b) = cr_ready r @ [msg] \<and> cr_buffer (delivered r msg b) = b
    \<and> cr_chunk_size (delivered r msg b) = cr_chunk_size r \<and> reader_idle (delivered r msg b)"
proof -
  have "cs_remaining (case cr_streams r c of None \<Rightarrow> CsidState_new | Some st \<Rightarrow> st) = 0" for c
    using idle unfolding reader_idle_def csid_state_def by blast
  with assms show ?thesis
    unfolding delivered_def apply_control_def plain_message_def reader_idle_def Let_def
    by (auto simp: csid_state_def assembled_def split: option.splits)
qed

definition size_message :: "u32 \<Rightarrow> RtmpMessage" where
  "size_message sz = empty_message\<lparr>m_chunk_stream_id := 2, m_type := kTypeSetChunkSize,
     m_message_stream_id := 0, m_payload := put_u32be sz []\<rparr>"

definition valid_size :: "u32 \<Rightarrow> bool" where
  "valid_size sz \<longleftrightarrow> sz \<noteq> 0 \<and> sz AND 0x80000000 = 0"

lemma delivered_size:
  assumes "valid_size sz" and idle: "reader_idle r"
  shows "cr_ready (delivered r (size_message sz) b) = cr_ready r @ [size_message sz]
    \<and> cr_buffer (delivered r (size_message sz) b) = b
    \<and> cr_chunk_size (delivered r (size_message sz) b) = unat sz
    \<and> reader_idle (delivered r (size_message sz) b)"
proof -
  have "be32 (put_u32be sz []) = sz" using be32_put_u32be [of sz "[]"] by simp
  with assms show ?thesis
    by (simp add: delivered_def apply_control_def size_message_def reader_idle_def valid_size_def
        csid_state_def assembled_def unat_gt_0)
qed

lemma size_message_deliverable: "deliverable (size_message sz)"
  by (simp add: deliverable_def writable_def size_message_def kMaxMessageSize_def)

text \<open>The calls an application makes on a writer, and what the peer should receive.\<close>

datatype writer_call = Write RtmpMessage | Set_Size u32

fun run_writer :: "writer_call list \<Rightarrow> ChunkWriter \<Rightarrow> bytes \<Rightarrow> (ChunkWriter \<times> bytes) option" where
  "run_writer [] w out = Some (w, out)"
| "run_writer (Write msg # cs) w out =
     (case ChunkWriter_write w msg out of None \<Rightarrow> None | Some (_, out) \<Rightarrow> run_writer cs w out)"
| "run_writer (Set_Size sz # cs) w out =
     (case ChunkWriter_set_chunk_size sz w out of None \<Rightarrow> None | Some (w, out) \<Rightarrow> run_writer cs w out)"

fun expected_messages :: "writer_call \<Rightarrow> RtmpMessage list" where
  "expected_messages (Write msg) = [msg]"
| "expected_messages (Set_Size sz) = (if valid_size sz then [size_message sz] else [])"

fun call_ok :: "writer_call \<Rightarrow> bool" where
  "call_ok (Write msg) = (deliverable msg \<and> plain_message msg)"
| "call_ok (Set_Size sz) = True"

lemma set_chunk_size_eq:
  assumes "writer_inv w"
  shows "ChunkWriter_set_chunk_size sz w out =
    Some (if valid_size sz
          then (w\<lparr>cw_chunk_size := sz\<rparr>, out @ message_bytes (cw_chunk_size w) (size_message sz))
          else (w, out))"
proof -
  have "writable (size_message sz)" using size_message_deliverable by (simp add: deliverable_def)
  then show ?thesis
    using write_bytes [OF assms, of "size_message sz" out]
    by (auto simp: ChunkWriter_set_chunk_size_def size_message_def [symmetric] valid_size_def)
qed

lemma run_writer_parse:
  assumes "list_all call_ok cs" and "writer_inv w"
    and "reader_idle r" and "cr_chunk_size r = unat (cw_chunk_size w)"
  shows "\<exists>w' bs. run_writer cs w out = Some (w', out @ bs)
    \<and> (\<exists>r'. ChunkReader_parse (r\<lparr>cr_buffer := bs\<rparr>) = r'
        \<and> cr_ready r' = cr_ready r @ concat (map expected_messages cs) \<and> cr_buffer r' = []
        \<and> reader_idle r' \<and> cr_chunk_size r' = unat (cw_chunk_size w'))"
  using assms
proof (induction cs arbitrary: w r out)
  case Nil
  have "ChunkReader_parse (r\<lparr>cr_buffer := []\<rparr>) = r\<lparr>cr_buffer := []\<rparr>"
    by (subst ChunkReader_parse.simps) (simp add: ChunkReader_step_def chunk_scan_def)
  with Nil show ?case by (auto simp: reader_idle_def)
next
  case (Cons c cs)
  show ?case
  proof (cases "c = Set_Size 0 \<or> (\<exists>sz. c = Set_Size sz \<and> \<not> valid_size sz)")
    case True
    then obtain sz where c: "c = Set_Size sz" "\<not> valid_size sz" by (auto simp: valid_size_def)
    then show ?thesis using Cons by (simp add: set_chunk_size_eq)
  next
    case False
    obtain msg w1 where msg: "deliverable msg" "expected_messages c = [msg]"
      and run: "run_writer (c # cs) w out = run_writer cs w1 (out @ message_bytes (cw_chunk_size w) msg)"
      and w1: "writer_inv w1"
      and del: "\<And>b. cr_ready (delivered r msg b) = cr_ready r @ [msg] \<and> cr_buffer (delivered r msg b) = b
         \<and> cr_chunk_size (delivered r msg b) = unat (cw_chunk_size w1) \<and> reader_idle (delivered r msg b)"
    proof (cases c)
      case (Write m)
      with Cons.prems that [of m w] delivered_plain [of m r] write_bytes [of w m out] show thesis
        by (auto simp: deliverable_def)
    next
      case (Set_Size sz)
      with False have "valid_size sz" by auto
      with Set_Size Cons.prems that [of "size_message sz" "w\<lparr>cw_chunk_size := sz\<rparr>"]
        delivered_size [of sz r] show thesis
        by (auto simp: set_chunk_size_eq size_message_deliverable writer_inv_def valid_size_def)
    qed
    let ?r = "delivered r msg []"
    obtain w' bs r' where ih: "run_writer cs w1 (out @ message_bytes (cw_chunk_size w) msg)
          = Some (w', (out @ message_bytes (cw_chunk_size w) msg) @ bs)"
      "ChunkReader_parse (?r\<lparr>cr_buffer := bs\<rparr>) = r'"
      "cr_ready r' = cr_ready ?r @ concat (map expected_messages cs)" "cr_buffer r' = []"
      "reader_idle r'" "cr_chunk_size r' = unat (cw_chunk_size w')"
      using Cons.IH [of w1 ?r "out @ message_bytes (cw_chunk_size w) msg"] Cons.prems w1 del [of "[]"] by auto
    have "?r\<lparr>cr_buffer := bs\<rparr> = delivered r msg bs"
      by (simp add: delivered_def apply_control_def Let_def split: option.splits)
    then have "ChunkReader_parse (r\<lparr>cr_buffer := message_bytes (cw_chunk_size w) msg @ bs\<rparr>) = r'"
      using ih(2) parse_message [OF msg(1) Cons.prems(3,4), of bs] by simp
    with ih run msg(2) del [of "[]"] show ?thesis by auto
  qed
qed

lemma view_alive: "ChunkReader_view s = ChunkReader_view t \<Longrightarrow> \<not> cr_failed t \<Longrightarrow> s = t"
  using chunk_reader.view_dead [of s] chunk_reader.view_dead [of t]
  by (simp add: ChunkReader_view_def split: if_splits)

lemma run_writer_feed:
  assumes "list_all call_ok cs"
  obtains w' out r where "run_writer cs (ChunkWriter_new kDefaultChunkSize) [] = Some (w', out)"
    and "\<And>ds. ds \<noteq> [] \<Longrightarrow> concat ds = out \<Longrightarrow> fold ChunkReader_feed ds ChunkReader_new = r"
    and "cr_ready r = concat (map expected_messages cs)" "cr_buffer r = []" "\<not> cr_failed r"
      "cr_chunk_size r = unat (cw_chunk_size w')"
proof -
  have idle: "reader_idle ChunkReader_new"
    by (simp add: reader_idle_def ChunkReader_new_def kDefaultChunkSize_def csid_state_def CsidState_new_def)
  obtain w' out r where run: "run_writer cs (ChunkWriter_new kDefaultChunkSize) [] = Some (w', out)"
    and r: "ChunkReader_parse (ChunkReader_new\<lparr>cr_buffer := out\<rparr>) = r"
      "cr_ready r = concat (map expected_messages cs)" "cr_buffer r = []" "reader_idle r"
      "cr_chunk_size r = unat (cw_chunk_size w')"
    using run_writer_parse [OF assms ChunkWriter_new_inv idle, of kDefaultChunkSize "[]"]
    by (auto simp: ChunkReader_new_def ChunkWriter_new_def kDefaultChunkSize_def)
  have feed: "ChunkReader_feed out ChunkReader_new = r"
    using r(1) by (simp add: ChunkReader_feed_def ChunkReader_new_def)
  have alive: "\<not> cr_failed r" using r(4) by (simp add: reader_idle_def)
  have "fold ChunkReader_feed ds ChunkReader_new = r" if "ds \<noteq> []" "concat ds = out" for ds
  proof -
    have "ChunkReader_view (fold ChunkReader_feed ds ChunkReader_new) = ChunkReader_view r"
      using chunk_reader.feed_fragments [of ds ChunkReader_new] that feed by simp
    then show ?thesis using alive by (rule view_alive)
  qed
  with run r alive that show thesis by blast
qed

text \<open>
  C3. RTMP chunk round trip: whatever messages (each of at most 8 MiB, on a legal chunk stream
  id, and not itself a Set Chunk Size) and chunk-size changes an application puts through a
  writer, every call returns, and the bytes, cut into \<open>feed\<close> calls in any way, give a fresh
  reader exactly those messages in order (a Set Chunk Size message for each valid size change),
  with nothing left over, no failure, and the reader's chunk size equal to the writer's.
\<close>

theorem chunk_roundtrip:
  assumes "list_all call_ok cs"
  shows "\<exists>w' out. run_writer cs (ChunkWriter_new kDefaultChunkSize) [] = Some (w', out)
    \<and> (\<forall>ds d. concat (d # ds) = out \<longrightarrow>
        (let r = fold ChunkReader_feed (d # ds) ChunkReader_new in
          cr_ready r = concat (map expected_messages cs) \<and> cr_buffer r = [] \<and> \<not> cr_failed r
          \<and> cr_chunk_size r = unat (cw_chunk_size w')))"
proof -
  obtain w' out r where r: "run_writer cs (ChunkWriter_new kDefaultChunkSize) [] = Some (w', out)"
    "\<And>ds. ds \<noteq> [] \<Longrightarrow> concat ds = out \<Longrightarrow> fold ChunkReader_feed ds ChunkReader_new = r"
    "cr_ready r = concat (map expected_messages cs)" "cr_buffer r = []" "\<not> cr_failed r"
    "cr_chunk_size r = unat (cw_chunk_size w')"
    using run_writer_feed [OF assms] by metis
  have "fold ChunkReader_feed (d # ds) ChunkReader_new = r" if "concat (d # ds) = out" for d ds
    using r(2) [of "d # ds"] that by simp
  with r(1,3-6) show ?thesis by (simp add: Let_def)
qed

definition sample_message :: RtmpMessage where
  "sample_message = \<lparr>m_timestamp = 0x1000000, m_type = 9, m_message_stream_id = 1,
     m_chunk_stream_id = 70, m_payload = replicate 5 7\<rparr>"

theorem chunk_roundtrip_witness:
  "\<exists>w' out. run_writer [Set_Size 2, Write sample_message] (ChunkWriter_new kDefaultChunkSize) [] = Some (w', out)
    \<and> (\<forall>ds d. concat (d # ds) = out \<longrightarrow>
        (let r = fold ChunkReader_feed (d # ds) ChunkReader_new in
          cr_ready r = concat (map expected_messages [Set_Size 2, Write sample_message])
          \<and> cr_buffer r = [] \<and> \<not> cr_failed r
          \<and> cr_chunk_size r = unat (cw_chunk_size w')))"
  by (rule chunk_roundtrip)
    (simp add: deliverable_def writable_def plain_message_def sample_message_def message_types kMaxMessageSize_def)

end
