(* ===== verification/Handshake.thy ===== *)
theory Handshake
  imports Interfaces
begin

text \<open>
  \<^verbatim>\<open>rtmp/src/handshake.cpp\<close>: the RTMP simple handshake, both ends, without I/O. The random
  numbers of \<open>make_packet\<close> are a parameter: \<open>rng i\<close> is the value drawn for byte \<open>i\<close> of the
  packet. \<open>feed\<close> appends to its \<open>out\<close> argument, so it takes the output so far and returns it
  extended.
\<close>

section \<open>The code\<close>

definition kHandshakePacketSize :: nat where "kHandshakePacketSize = 1536"
definition kRtmpVersion :: byte where "kRtmpVersion = 3"

definition make_packet :: "(nat \<Rightarrow> byte) \<Rightarrow> bytes" where
  "make_packet rng = map (\<lambda>i. if 8 \<le> i then rng i else 0) [0..<kHandshakePacketSize]"

definition make_echo :: "bytes \<Rightarrow> bytes" where
  "make_echo peer_packet = take 4 peer_packet @ replicate 4 0 @ drop 8 peer_packet"

definition random_matches :: "bytes \<Rightarrow> bytes \<Rightarrow> bool" where
  "random_matches echo original \<longleftrightarrow> drop 8 echo = take (length echo - 8) (drop 8 original)"

datatype ResponderState = WaitC0C1 | WaitC2 | R_Done | R_Failed

record HandshakeResponder =
  hr_state :: ResponderState
  hr_buffer :: bytes
  hr_s1 :: bytes

definition HandshakeResponder_new :: HandshakeResponder where
  "HandshakeResponder_new = \<lparr>hr_state = WaitC0C1, hr_buffer = [], hr_s1 = []\<rparr>"

text \<open>Lines 59--71: what follows once the state is not \<open>WaitC0C1\<close> any more.\<close>

definition responder_c2 :: "HandshakeResponder \<Rightarrow> bytes \<Rightarrow> bool \<times> HandshakeResponder \<times> bytes" where
  "responder_c2 h out =
     (if hr_state h = WaitC2 then
        if length (hr_buffer h) < kHandshakePacketSize then (True, h, out)
        else if \<not> random_matches (take kHandshakePacketSize (hr_buffer h)) (hr_s1 h)
        then (False, h\<lparr>hr_state := R_Failed\<rparr>, out)
        else (True, h\<lparr>hr_state := R_Done, hr_buffer := drop kHandshakePacketSize (hr_buffer h)\<rparr>, out)
      else (True, h, out))"

definition HandshakeResponder_feed ::
  "(nat \<Rightarrow> byte) \<Rightarrow> bytes \<Rightarrow> HandshakeResponder \<Rightarrow> bytes \<Rightarrow> bool \<times> HandshakeResponder \<times> bytes" where
  "HandshakeResponder_feed rng data h out =
     (if hr_state h = R_Failed then (False, h, out)
      else let h = h\<lparr>hr_buffer := hr_buffer h @ data\<rparr>; b = hr_buffer h in
        if hr_state h = WaitC0C1 then
          if b = [] then (True, h, out)
          else if b ! 0 \<noteq> kRtmpVersion then (False, h\<lparr>hr_state := R_Failed\<rparr>, out)
          else if length b < 1 + kHandshakePacketSize then (True, h, out)
          else let c1 = take kHandshakePacketSize (drop 1 b);
                   s1 = make_packet rng
               in responder_c2
                    (h\<lparr>hr_state := WaitC2, hr_buffer := drop (1 + kHandshakePacketSize) b, hr_s1 := s1\<rparr>)
                    (out @ [kRtmpVersion] @ s1 @ make_echo c1)
        else responder_c2 h out)"

definition HandshakeResponder_done :: "HandshakeResponder \<Rightarrow> bool" where
  "HandshakeResponder_done h \<longleftrightarrow> hr_state h = R_Done"

definition HandshakeResponder_take_leftover :: "HandshakeResponder \<Rightarrow> bytes \<times> HandshakeResponder" where
  "HandshakeResponder_take_leftover h = (hr_buffer h, h\<lparr>hr_buffer := []\<rparr>)"

datatype InitiatorState = I_Idle | WaitS0S1S2 | I_Done | I_Failed

record HandshakeInitiator =
  hi_state :: InitiatorState
  hi_buffer :: bytes
  hi_c1 :: bytes

definition HandshakeInitiator_new :: HandshakeInitiator where
  "HandshakeInitiator_new = \<lparr>hi_state = I_Idle, hi_buffer = [], hi_c1 = []\<rparr>"

definition HandshakeInitiator_start ::
  "(nat \<Rightarrow> byte) \<Rightarrow> HandshakeInitiator \<Rightarrow> bytes \<times> HandshakeInitiator" where
  "HandshakeInitiator_start rng h =
     (let c1 = make_packet rng
      in ([kRtmpVersion] @ c1, h\<lparr>hi_state := WaitS0S1S2, hi_c1 := c1\<rparr>))"

definition HandshakeInitiator_feed ::
  "bytes \<Rightarrow> HandshakeInitiator \<Rightarrow> bytes \<Rightarrow> bool \<times> HandshakeInitiator \<times> bytes" where
  "HandshakeInitiator_feed data h out =
     (if hi_state h = I_Failed then (False, h, out)
      else if hi_state h \<noteq> WaitS0S1S2 then
        (hi_state h = I_Done,
         if hi_state h = I_Done then h\<lparr>hi_buffer := hi_buffer h @ data\<rparr> else h, out)
      else let h = h\<lparr>hi_buffer := hi_buffer h @ data\<rparr>; b = hi_buffer h in
        if b \<noteq> [] \<and> b ! 0 \<noteq> kRtmpVersion then (False, h\<lparr>hi_state := I_Failed\<rparr>, out)
        else if length b < 1 + 2 * kHandshakePacketSize then (True, h, out)
        else let s1 = take kHandshakePacketSize (drop 1 b);
                 s2 = take kHandshakePacketSize (drop (1 + kHandshakePacketSize) b)
             in if \<not> random_matches s2 (hi_c1 h) then (False, h\<lparr>hi_state := I_Failed\<rparr>, out)
                else (True, h\<lparr>hi_state := I_Done, hi_buffer := drop (1 + 2 * kHandshakePacketSize) b\<rparr>,
                      out @ make_echo s1))"

definition HandshakeInitiator_done :: "HandshakeInitiator \<Rightarrow> bool" where
  "HandshakeInitiator_done h \<longleftrightarrow> hi_state h = I_Done"

definition HandshakeInitiator_take_leftover :: "HandshakeInitiator \<Rightarrow> bytes \<times> HandshakeInitiator" where
  "HandshakeInitiator_take_leftover h = (hi_buffer h, h\<lparr>hi_buffer := []\<rparr>)"

section \<open>Both ends as incremental parsers\<close>

text \<open>
  For the contract of \<open>incremental_stream\<close> the object is the handshake state together with the
  output so far, and one step is one packet.
\<close>

type_synonym responder_io = "HandshakeResponder \<times> bytes"

definition responder_input :: "(nat \<Rightarrow> byte) \<Rightarrow> bytes \<Rightarrow> responder_io \<Rightarrow> responder_io" where
  "responder_input rng data s = snd (HandshakeResponder_feed rng data (fst s) (snd s))"

definition responder_step :: "(nat \<Rightarrow> byte) \<Rightarrow> responder_io \<Rightarrow> responder_io \<times> bool" where
  "responder_step rng s =
     (let h = fst s; b = hr_buffer h in
      case hr_state h of
        WaitC0C1 \<Rightarrow>
          if b = [] then (s, False)
          else if b ! 0 \<noteq> kRtmpVersion then ((h\<lparr>hr_state := R_Failed\<rparr>, snd s), False)
          else if length b < 1 + kHandshakePacketSize then (s, False)
          else ((h\<lparr>hr_state := WaitC2, hr_buffer := drop (1 + kHandshakePacketSize) b, hr_s1 := make_packet rng\<rparr>,
                 snd s @ [kRtmpVersion] @ make_packet rng @ make_echo (take kHandshakePacketSize (drop 1 b))), True)
      | WaitC2 \<Rightarrow>
          if length b < kHandshakePacketSize then (s, False)
          else if \<not> random_matches (take kHandshakePacketSize b) (hr_s1 h)
          then ((h\<lparr>hr_state := R_Failed\<rparr>, snd s), False)
          else ((h\<lparr>hr_state := R_Done, hr_buffer := drop kHandshakePacketSize b\<rparr>, snd s), True)
      | _ \<Rightarrow> (s, False))"

abbreviation responder_extend :: "bytes \<Rightarrow> responder_io \<Rightarrow> responder_io" where
  "responder_extend d s \<equiv> ((fst s)\<lparr>hr_buffer := hr_buffer (fst s) @ d\<rparr>, snd s)"

definition responder_view :: "responder_io \<Rightarrow> responder_io" where
  "responder_view s = (if hr_state (fst s) = R_Failed then ((fst s)\<lparr>hr_buffer := []\<rparr>, snd s) else s)"

lemma packet_pos: "0 < kHandshakePacketSize"
  by (simp add: kHandshakePacketSize_def)

lemma responder_step_progress:
  "responder_step rng s = (s', True) \<Longrightarrow> length (hr_buffer (fst s')) < length (hr_buffer (fst s))"
  using packet_pos
  by (auto simp: responder_step_def Let_def split: ResponderState.splits if_splits)

function responder_parse :: "(nat \<Rightarrow> byte) \<Rightarrow> responder_io \<Rightarrow> responder_io" where
  "responder_parse rng s =
     (if snd (responder_step rng s) then responder_parse rng (fst (responder_step rng s))
      else fst (responder_step rng s))"
  by pat_completeness auto
termination
  by (relation "measure (\<lambda>(rng, s). length (hr_buffer (fst s)))")
    (use responder_step_progress in \<open>auto simp: prod_eq_iff\<close>)

declare responder_parse.simps [simp del]

lemma responder_input_parse:
  "responder_input rng d s = (if hr_state (fst s) = R_Failed then s else responder_parse rng (responder_extend d s))"
proof -
  have stuck: "responder_parse rng s = s" if "hr_state (fst s) = R_Done \<or> hr_state (fst s) = R_Failed" for s
    using that by (subst responder_parse.simps) (auto simp: responder_step_def)
  have c2: "responder_parse rng s = snd (responder_c2 (fst s) (snd s))" if "hr_state (fst s) = WaitC2" for s
    using that by (subst responder_parse.simps) (auto simp: responder_step_def responder_c2_def Let_def stuck)
  show ?thesis
    unfolding responder_input_def HandshakeResponder_feed_def
    by (cases "hr_state (fst s)")
      (auto simp: Let_def stuck c2 responder_c2_def responder_parse.simps [of rng "responder_extend d s"]
        responder_step_def)
qed

lemma responder_step_go:
  assumes "responder_step rng s = (s', True)"
  shows "responder_step rng (responder_extend d s) = (responder_extend d s', True)"
proof -
  let ?b = "hr_buffer (fst s)" and ?K = kHandshakePacketSize
  consider "hr_state (fst s) = WaitC0C1" "?b \<noteq> []" "?b ! 0 = kRtmpVersion" "1 + ?K \<le> length ?b"
    | "hr_state (fst s) = WaitC2" "?K \<le> length ?b" "random_matches (take ?K ?b) (hr_s1 (fst s))"
    using assms by (auto simp: responder_step_def Let_def not_less split: ResponderState.splits if_splits)
  then show ?thesis
    using assms by cases (simp_all add: responder_step_def Let_def nth_append, auto)
qed

lemma responder_step_fail:
  assumes "hr_state (fst s) \<noteq> R_Failed" and "responder_step rng s = (s', False)" and "hr_state (fst s') = R_Failed"
  shows "\<exists>e. responder_step rng (responder_extend d s) = (e, False) \<and> responder_view e = responder_view s'"
proof -
  let ?b = "hr_buffer (fst s)" and ?K = kHandshakePacketSize
  have s': "s' = ((fst s)\<lparr>hr_state := R_Failed\<rparr>, snd s)"
    using assms by (auto simp: responder_step_def Let_def split: ResponderState.splits if_splits)
  consider "hr_state (fst s) = WaitC0C1" "?b \<noteq> []" "?b ! 0 \<noteq> kRtmpVersion"
    | "hr_state (fst s) = WaitC2" "?K \<le> length ?b" "\<not> random_matches (take ?K ?b) (hr_s1 (fst s))"
    using assms by (auto simp: responder_step_def Let_def not_less split: ResponderState.splits if_splits)
  then show ?thesis
    unfolding s' by cases (simp_all add: responder_step_def responder_view_def Let_def nth_append)
qed

interpretation responder: incremental_stream "responder_step rng" "responder_parse rng"
  "responder_input rng" "\<lambda>s. hr_buffer (fst s)" responder_extend
  "\<lambda>s. hr_state (fst s) = R_Failed" responder_view for rng
proof
  fix s s' :: responder_io and d :: bytes
  assume alive: "hr_state (fst s) \<noteq> R_Failed"
  {
    assume "responder_step rng s = (s', True)"
    then show "responder_step rng (responder_extend d s) = (responder_extend d s', True)"
      by (rule responder_step_go)
  next
    assume "responder_step rng s = (s', True)" and "hr_state (fst s') = R_Failed"
    then show "responder_step rng (responder_extend d s') = (responder_extend d s', False)
        \<and> responder_view (responder_extend d s') = responder_view s'"
      by (auto simp: responder_step_def Let_def split: ResponderState.splits if_splits)
  next
    assume "responder_step rng s = (s', False)" and "hr_state (fst s') \<noteq> R_Failed"
    then have "s' = s"
      by (auto simp: responder_step_def Let_def split: ResponderState.splits if_splits)
    then show "responder_step rng (responder_extend d s') = responder_step rng (responder_extend d s)" by simp
  next
    assume "responder_step rng s = (s', False)" and "hr_state (fst s') = R_Failed"
    with alive show "\<exists>e. responder_step rng (responder_extend d s) = (e, False)
        \<and> responder_view e = responder_view s'"
      by (rule responder_step_fail)
  }
next
  fix s t :: responder_io and d :: bytes
  assume eq: "responder_view s = responder_view t"
  then have "(hr_state (fst s) = R_Failed) = (hr_state (fst t) = R_Failed)"
    by (auto simp: responder_view_def split: if_splits)
  with eq show "responder_view (responder_input rng d s) = responder_view (responder_input rng d t)"
    by (auto simp: responder_view_def responder_input_def HandshakeResponder_feed_def split: if_splits)
qed (simp_all add: responder_parse.simps [symmetric] responder_input_parse responder_view_def
      responder_step_progress)

type_synonym initiator_io = "HandshakeInitiator \<times> bytes"

definition initiator_input :: "bytes \<Rightarrow> initiator_io \<Rightarrow> initiator_io" where
  "initiator_input data s = snd (HandshakeInitiator_feed data (fst s) (snd s))"

definition initiator_dead :: "initiator_io \<Rightarrow> bool" where
  "initiator_dead s \<longleftrightarrow> hi_state (fst s) = I_Failed \<or> hi_state (fst s) = I_Idle"

definition initiator_step :: "initiator_io \<Rightarrow> initiator_io \<times> bool" where
  "initiator_step s =
     (let h = fst s; b = hi_buffer h in
      if hi_state h \<noteq> WaitS0S1S2 then (s, False)
      else if b \<noteq> [] \<and> b ! 0 \<noteq> kRtmpVersion then ((h\<lparr>hi_state := I_Failed\<rparr>, snd s), False)
      else if length b < 1 + 2 * kHandshakePacketSize then (s, False)
      else if \<not> random_matches (take kHandshakePacketSize (drop (1 + kHandshakePacketSize) b)) (hi_c1 h)
      then ((h\<lparr>hi_state := I_Failed\<rparr>, snd s), False)
      else ((h\<lparr>hi_state := I_Done, hi_buffer := drop (1 + 2 * kHandshakePacketSize) b\<rparr>,
             snd s @ make_echo (take kHandshakePacketSize (drop 1 b))), True))"

abbreviation initiator_extend :: "bytes \<Rightarrow> initiator_io \<Rightarrow> initiator_io" where
  "initiator_extend d s \<equiv> ((fst s)\<lparr>hi_buffer := hi_buffer (fst s) @ d\<rparr>, snd s)"

definition initiator_view :: "initiator_io \<Rightarrow> initiator_io" where
  "initiator_view s = (if initiator_dead s then ((fst s)\<lparr>hi_buffer := []\<rparr>, snd s) else s)"

lemma initiator_view_state: "hi_state (fst (initiator_view s)) = hi_state (fst s)"
  by (simp add: initiator_view_def)

definition initiator_parse :: "initiator_io \<Rightarrow> initiator_io" where
  "initiator_parse s = fst (initiator_step s)"

lemma initiator_step_stops: "initiator_step s = (s', True) \<Longrightarrow> initiator_step s' = (s', False)"
  by (auto simp: initiator_step_def Let_def split: if_splits)

lemma initiator_input_parse:
  "initiator_input d s = (if initiator_dead s then s else initiator_parse (initiator_extend d s))"
  by (cases "hi_state (fst s)")
    (auto simp: initiator_input_def HandshakeInitiator_feed_def initiator_dead_def initiator_parse_def
      initiator_step_def Let_def)

lemma initiator_step_go:
  assumes "initiator_step s = (s', True)"
  shows "initiator_step (initiator_extend d s) = (initiator_extend d s', True)"
proof -
  let ?b = "hi_buffer (fst s)" and ?K = kHandshakePacketSize
  have "hi_state (fst s) = WaitS0S1S2" and len: "1 + 2 * ?K \<le> length ?b"
    and "?b = [] \<or> ?b ! 0 = kRtmpVersion" and m: "random_matches (take ?K (drop (1 + ?K) ?b)) (hi_c1 (fst s))"
    and s': "s' = ((fst s)\<lparr>hi_state := I_Done, hi_buffer := drop (1 + 2 * ?K) ?b\<rparr>,
                  snd s @ make_echo (take ?K (drop 1 ?b)))"
    using assms by (auto simp: initiator_step_def Let_def not_less split: if_splits)
  moreover have "?b \<noteq> []" using len by auto
  ultimately show ?thesis unfolding s' by (simp add: initiator_step_def Let_def nth_append)
qed

lemma initiator_step_fail:
  assumes "\<not> initiator_dead s" and "initiator_step s = (s', False)" and "initiator_dead s'"
  shows "\<exists>e. initiator_step (initiator_extend d s) = (e, False) \<and> initiator_view e = initiator_view s'"
proof -
  let ?b = "hi_buffer (fst s)" and ?K = kHandshakePacketSize
  have st: "hi_state (fst s) = WaitS0S1S2" and s': "s' = ((fst s)\<lparr>hi_state := I_Failed\<rparr>, snd s)"
    using assms by (auto simp: initiator_step_def initiator_dead_def Let_def split: if_splits)
  consider "?b \<noteq> []" "?b ! 0 \<noteq> kRtmpVersion"
    | "1 + 2 * ?K \<le> length ?b" "?b \<noteq> []" "?b ! 0 = kRtmpVersion"
      "\<not> random_matches (take ?K (drop (1 + ?K) ?b)) (hi_c1 (fst s))"
    using assms st s' by (fastforce simp: initiator_step_def Let_def not_less split: if_splits)
  then show ?thesis
    using st unfolding s'
    by cases (simp_all add: initiator_step_def initiator_view_def initiator_dead_def Let_def nth_append)
qed

interpretation initiator: incremental_stream initiator_step initiator_parse initiator_input
  "\<lambda>s. hi_buffer (fst s)" initiator_extend initiator_dead initiator_view
proof
  fix s s' :: initiator_io and d :: bytes
  show "initiator_parse s = (if snd (initiator_step s) then initiator_parse (fst (initiator_step s))
      else fst (initiator_step s))"
    using initiator_step_stops [of s] by (cases "initiator_step s") (auto simp: initiator_parse_def)
  show "initiator_step s = (s', True) \<Longrightarrow> length (hi_buffer (fst s')) < length (hi_buffer (fst s))"
    by (auto simp: initiator_step_def Let_def split: if_splits)
  assume alive: "\<not> initiator_dead s"
  {
    assume "initiator_step s = (s', True)"
    then show "initiator_step (initiator_extend d s) = (initiator_extend d s', True)"
      by (rule initiator_step_go)
  next
    assume go: "initiator_step s = (s', True)" and "initiator_dead s'"
    moreover have "hi_state (fst s') = I_Done"
      using go by (auto simp: initiator_step_def Let_def split: if_splits)
    ultimately show "initiator_step (initiator_extend d s') = (initiator_extend d s', False)
        \<and> initiator_view (initiator_extend d s') = initiator_view s'"
      by (simp add: initiator_dead_def)
  next
    assume "initiator_step s = (s', False)" and "\<not> initiator_dead s'"
    then have "s' = s"
      by (auto simp: initiator_step_def initiator_dead_def Let_def split: if_splits)
    then show "initiator_step (initiator_extend d s') = initiator_step (initiator_extend d s)" by simp
  next
    assume "initiator_step s = (s', False)" and "initiator_dead s'"
    with alive show "\<exists>e. initiator_step (initiator_extend d s) = (e, False)
        \<and> initiator_view e = initiator_view s'"
      by (rule initiator_step_fail)
  }
next
  fix s t :: initiator_io and d :: bytes
  assume eq: "initiator_view s = initiator_view t"
  then have "initiator_dead s = initiator_dead t" by (metis initiator_dead_def initiator_view_state)
  with eq show "initiator_view (initiator_input d s) = initiator_view (initiator_input d t)"
    by (cases "initiator_dead s") (simp_all add: initiator_view_def initiator_input_parse)
qed (simp_all add: initiator_input_parse initiator_view_def initiator_dead_def)

section \<open>A handshake between the two\<close>

lemma length_make_packet [simp]: "length (make_packet rng) = kHandshakePacketSize"
  by (simp add: make_packet_def)

lemma length_make_echo [simp]: "length p = kHandshakePacketSize \<Longrightarrow> length (make_echo p) = kHandshakePacketSize"
  by (simp add: make_echo_def kHandshakePacketSize_def)

lemma echo_matches [simp]:
  "length p = kHandshakePacketSize \<Longrightarrow> random_matches (make_echo p) p"
  by (simp add: random_matches_def make_echo_def kHandshakePacketSize_def)

lemma responder_reads_c0c1:
  assumes "length c1 = kHandshakePacketSize"
  shows "responder_input rng ([kRtmpVersion] @ c1) (HandshakeResponder_new, out) =
    (\<lparr>hr_state = WaitC2, hr_buffer = [], hr_s1 = make_packet rng\<rparr>,
     out @ [kRtmpVersion] @ make_packet rng @ make_echo c1)"
  using assms packet_pos
  by (simp add: responder_input_def HandshakeResponder_feed_def HandshakeResponder_new_def
      responder_c2_def Let_def)

lemma responder_reads_c2:
  assumes "length c2 = kHandshakePacketSize" and "random_matches c2 s1"
  shows "responder_input rng (c2 @ rest) (\<lparr>hr_state = WaitC2, hr_buffer = [], hr_s1 = s1\<rparr>, out) =
    (\<lparr>hr_state = R_Done, hr_buffer = rest, hr_s1 = s1\<rparr>, out)"
  using assms by (simp add: responder_input_def HandshakeResponder_feed_def responder_c2_def Let_def)

lemma initiator_reads:
  assumes "length s1 = kHandshakePacketSize" and "length s2 = kHandshakePacketSize" and "random_matches s2 c1"
  shows "initiator_input ([kRtmpVersion] @ s1 @ s2 @ rest) (\<lparr>hi_state = WaitS0S1S2, hi_buffer = [], hi_c1 = c1\<rparr>, out) =
    (\<lparr>hi_state = I_Done, hi_buffer = rest, hi_c1 = c1\<rparr>, out @ make_echo s1)"
  using assms by (simp add: initiator_input_def HandshakeInitiator_feed_def Let_def mult_2)

lemma responder_view_alive: "responder_view s = t \<Longrightarrow> hr_state (fst t) \<noteq> R_Failed \<Longrightarrow> s = t"
  by (auto simp: responder_view_def split: if_splits)

lemma initiator_view_alive: "initiator_view s = t \<Longrightarrow> \<not> initiator_dead t \<Longrightarrow> s = t"
  by (auto simp: initiator_view_def initiator_dead_def split: if_splits)

lemma responder_fragments:
  assumes "ds \<noteq> []" and "responder_input rng (concat ds) s = t" and "hr_state (fst t) \<noteq> R_Failed"
  shows "fold (responder_input rng) ds s = t"
proof (rule responder_view_alive)
  show "responder_view (fold (responder_input rng) ds s) = t"
    using responder.feed_fragments [OF assms(1), of rng s] assms(2,3) by (simp add: responder_view_def)
qed (rule assms(3))

lemma initiator_fragments:
  assumes "ds \<noteq> []" and "initiator_input (concat ds) s = t" and "\<not> initiator_dead t"
  shows "fold initiator_input ds s = t"
proof (rule initiator_view_alive)
  show "initiator_view (fold initiator_input ds s) = t"
    using initiator.feed_fragments [OF assms(1), of s] assms(2,3) by (simp add: initiator_view_def)
qed (rule assms(3))

section \<open>Properties\<close>

text \<open>
  C22. The handshake completes: whatever random packets the two ends draw and however the bytes
  of each flight are cut into \<open>feed\<close> calls, the initiator's C0C1 makes the responder answer,
  the answer (with any pipelined data \<open>x\<close> after it) makes the initiator finish and send C2,
  and C2 (with any pipelined data \<open>y\<close>) makes the responder finish; both are done and hand out
  exactly the pipelined bytes as leftover.
\<close>

theorem handshake_completes:
  assumes start: "HandshakeInitiator_start rng1 HandshakeInitiator_new = (c0c1, i)"
    and ds: "ds \<noteq> []" "concat ds = c0c1"
    and r: "fold (responder_input rng2) ds (HandshakeResponder_new, []) = (r, s0s1s2)"
    and es: "es \<noteq> []" "concat es = s0s1s2 @ x"
    and i: "fold initiator_input es (i, []) = (i', c2)"
    and fs: "fs \<noteq> []" "concat fs = c2 @ y"
  shows "\<exists>r'. fold (responder_input rng2) fs (r, out) = (r', out)
    \<and> HandshakeInitiator_done i' \<and> fst (HandshakeInitiator_take_leftover i') = x
    \<and> HandshakeResponder_done r' \<and> fst (HandshakeResponder_take_leftover r') = y"
proof -
  let ?c1 = "make_packet rng1" and ?s1 = "make_packet rng2"
  have c0c1: "c0c1 = [kRtmpVersion] @ ?c1" and i0: "i = \<lparr>hi_state = WaitS0S1S2, hi_buffer = [], hi_c1 = ?c1\<rparr>"
    using start by (auto simp: HandshakeInitiator_start_def HandshakeInitiator_new_def Let_def)
  have "fold (responder_input rng2) ds (HandshakeResponder_new, [])
      = (\<lparr>hr_state = WaitC2, hr_buffer = [], hr_s1 = ?s1\<rparr>, [] @ [kRtmpVersion] @ ?s1 @ make_echo ?c1)"
    using ds(1) by (rule responder_fragments)
      (unfold ds(2) c0c1, rule responder_reads_c0c1, simp_all)
  with r have r': "r = \<lparr>hr_state = WaitC2, hr_buffer = [], hr_s1 = ?s1\<rparr>"
    and s: "s0s1s2 = [kRtmpVersion] @ ?s1 @ make_echo ?c1" by auto
  have "fold initiator_input es (i, [])
      = (\<lparr>hi_state = I_Done, hi_buffer = x, hi_c1 = ?c1\<rparr>, [] @ make_echo ?s1)"
    using es(1) by (rule initiator_fragments)
      (unfold es(2) s i0 append_assoc, rule initiator_reads, simp_all add: initiator_dead_def)
  with i have i': "i' = \<lparr>hi_state = I_Done, hi_buffer = x, hi_c1 = ?c1\<rparr>" and c2: "c2 = make_echo ?s1" by auto
  have "fold (responder_input rng2) fs (r, out) = (\<lparr>hr_state = R_Done, hr_buffer = y, hr_s1 = ?s1\<rparr>, out)"
    using fs(1) by (rule responder_fragments)
      (unfold fs(2) c2 r', rule responder_reads_c2, simp_all)
  with i' show ?thesis
    by (simp add: HandshakeInitiator_done_def HandshakeInitiator_take_leftover_def
        HandshakeResponder_done_def HandshakeResponder_take_leftover_def)
qed

theorem handshake_completes_witness:
  "\<exists>r'. fold (responder_input (\<lambda>_. 2)) [make_echo (make_packet (\<lambda>_. 2)) @ [9]]
      (\<lparr>hr_state = WaitC2, hr_buffer = [], hr_s1 = make_packet (\<lambda>_. 2)\<rparr>, []) = (r', [])
    \<and> HandshakeInitiator_done \<lparr>hi_state = I_Done, hi_buffer = [8], hi_c1 = make_packet (\<lambda>_. 1)\<rparr>
    \<and> fst (HandshakeInitiator_take_leftover \<lparr>hi_state = I_Done, hi_buffer = [8], hi_c1 = make_packet (\<lambda>_. 1)\<rparr>) = [8]
    \<and> HandshakeResponder_done r' \<and> fst (HandshakeResponder_take_leftover r') = [9]"
proof (rule handshake_completes)
  let ?c1 = "make_packet (\<lambda>_. 1)" and ?s1 = "make_packet (\<lambda>_. 2)"
  show "HandshakeInitiator_start (\<lambda>_. 1) HandshakeInitiator_new
      = ([kRtmpVersion] @ ?c1, \<lparr>hi_state = WaitS0S1S2, hi_buffer = [], hi_c1 = ?c1\<rparr>)"
    by (simp add: HandshakeInitiator_start_def HandshakeInitiator_new_def Let_def)
  show "fold (responder_input (\<lambda>_. 2)) [[kRtmpVersion] @ ?c1] (HandshakeResponder_new, [])
      = (\<lparr>hr_state = WaitC2, hr_buffer = [], hr_s1 = ?s1\<rparr>, [] @ [kRtmpVersion] @ ?s1 @ make_echo ?c1)"
    by (simp add: responder_reads_c0c1 [simplified])
  show "fold initiator_input [[kRtmpVersion] @ ?s1 @ make_echo ?c1 @ [8]]
      (\<lparr>hi_state = WaitS0S1S2, hi_buffer = [], hi_c1 = ?c1\<rparr>, [])
    = (\<lparr>hi_state = I_Done, hi_buffer = [8], hi_c1 = ?c1\<rparr>, make_echo ?s1)"
    by (simp add: initiator_reads [simplified])
qed simp_all

text \<open>
  C23. Failure is exact and latched: \<open>feed\<close> returns false exactly when it leaves the responder
  (initiator) failed (or the initiator not started); a first byte other than the RTMP version
  fails either end at once; a complete C2 (S2) that does not echo the random bytes of the
  packet sent fails it; and a failed end answers nothing and changes nothing ever after.
\<close>

theorem handshake_failure:
  "fst (HandshakeResponder_feed rng data h out) = (hr_state (fst (snd (HandshakeResponder_feed rng data h out))) \<noteq> R_Failed)
   \<and> fst (HandshakeInitiator_feed data g out) = (hi_state (fst (snd (HandshakeInitiator_feed data g out))) \<notin> {I_Failed, I_Idle})
   \<and> fst (HandshakeResponder_feed rng (b # data) HandshakeResponder_new out)
       = (b = kRtmpVersion \<and> (if length data < 2 * kHandshakePacketSize then True
            else random_matches (take kHandshakePacketSize (drop kHandshakePacketSize data)) (make_packet rng)))
   \<and> fst (HandshakeInitiator_feed (b # data) \<lparr>hi_state = WaitS0S1S2, hi_buffer = [], hi_c1 = c1\<rparr> out)
       = (b = kRtmpVersion \<and> (if length data < 2 * kHandshakePacketSize then True
            else random_matches (take kHandshakePacketSize (drop kHandshakePacketSize data)) c1))
   \<and> fst (HandshakeResponder_feed rng data \<lparr>hr_state = WaitC2, hr_buffer = [], hr_s1 = s1\<rparr> out)
       = (if length data < kHandshakePacketSize then True else random_matches (take kHandshakePacketSize data) s1)
   \<and> fold (responder_input rng) ds (h\<lparr>hr_state := R_Failed\<rparr>, out) = (h\<lparr>hr_state := R_Failed\<rparr>, out)
   \<and> fold initiator_input ds (g\<lparr>hi_state := I_Failed\<rparr>, out) = (g\<lparr>hi_state := I_Failed\<rparr>, out)"
proof (intro conjI)
  show "fst (HandshakeResponder_feed rng data h out)
      = (hr_state (fst (snd (HandshakeResponder_feed rng data h out))) \<noteq> R_Failed)"
    by (simp add: HandshakeResponder_feed_def responder_c2_def Let_def)
  show "fst (HandshakeInitiator_feed data g out)
      = (hi_state (fst (snd (HandshakeInitiator_feed data g out))) \<notin> {I_Failed, I_Idle})"
    by (cases "hi_state g") (simp_all add: HandshakeInitiator_feed_def Let_def)
  show "fold (responder_input rng) ds (h\<lparr>hr_state := R_Failed\<rparr>, out) = (h\<lparr>hr_state := R_Failed\<rparr>, out)"
    by (induction ds) (simp_all add: responder_input_def HandshakeResponder_feed_def)
  show "fold initiator_input ds (g\<lparr>hi_state := I_Failed\<rparr>, out) = (g\<lparr>hi_state := I_Failed\<rparr>, out)"
    by (induction ds) (simp_all add: initiator_input_def HandshakeInitiator_feed_def)
qed (auto simp add: HandshakeResponder_feed_def HandshakeResponder_new_def HandshakeInitiator_feed_def
      responder_c2_def Let_def)

end
