(* ===== verification/Amf0.thy ===== *)
theory Amf0
  imports Interfaces
begin

text \<open>
  \<^verbatim>\<open>rtmp/src/amf0.cpp\<close>: AMF0 values, their encoder and their decoder.

  A value is a \<open>datatype\<close> with one constructor per \<open>Type\<close>, carrying the fields that the static
  factories of \<open>Amf0Value\<close> set for it; the parallel vectors \<open>keys_\<close> and \<open>values_\<close> are a list
  of pairs. A \<open>double\<close> is its IEEE 754 bit pattern (\<open>std::bit_cast<uint64_t>\<close>), since the code
  never computes with it. The \<open>Reader\<close> is what is left of its input, \<open>data.subspan(pos)\<close>; its
  position is the difference of the lengths. A \<open>false\<close> result is \<open>None\<close>: no caller looks at the
  partly built value.

  The decoder recurses through \<open>decode_properties\<close> and the strict-array loop, each level one
  deeper, until \<open>depth > kMaxDepth\<close>. The model counts the levels left, so that the recursion
  is structural: \<open>decode_value n\<close> is the call with \<open>depth = kMaxDepth + 1 - n\<close>.
\<close>

section \<open>Values\<close>

datatype Amf0Value =
    Amf_Number u64
  | Amf_Boolean bool
  | Amf_String string
  | Amf_Object "(string \<times> Amf0Value) list"
  | Amf_EcmaArray "(string \<times> Amf0Value) list"
  | Amf_StrictArray "Amf0Value list"
  | Amf_Null
  | Amf_Undefined
  | Amf_Date u64 u16

text \<open>The static factories.\<close>

definition Amf0Value_number :: "u64 \<Rightarrow> Amf0Value" where "Amf0Value_number v = Amf_Number v"
definition Amf0Value_boolean :: "bool \<Rightarrow> Amf0Value" where "Amf0Value_boolean v = Amf_Boolean v"
definition Amf0Value_string :: "string \<Rightarrow> Amf0Value" where "Amf0Value_string v = Amf_String v"
definition Amf0Value_object :: Amf0Value where "Amf0Value_object = Amf_Object []"
definition Amf0Value_ecma_array :: Amf0Value where "Amf0Value_ecma_array = Amf_EcmaArray []"
definition Amf0Value_strict_array :: Amf0Value where "Amf0Value_strict_array = Amf_StrictArray []"
definition Amf0Value_null :: Amf0Value where "Amf0Value_null = Amf_Null"
definition Amf0Value_undefined :: Amf0Value where "Amf0Value_undefined = Amf_Undefined"
definition Amf0Value_date :: "u64 \<Rightarrow> u16 \<Rightarrow> Amf0Value" where "Amf0Value_date ms tz = Amf_Date ms tz"

definition kNumber :: byte where "kNumber = 0x00"
definition kBoolean :: byte where "kBoolean = 0x01"
definition kString :: byte where "kString = 0x02"
definition kObject :: byte where "kObject = 0x03"
definition kNull :: byte where "kNull = 0x05"
definition kUndefined :: byte where "kUndefined = 0x06"
definition kEcmaArray :: byte where "kEcmaArray = 0x08"
definition kObjectEnd :: byte where "kObjectEnd = 0x09"
definition kStrictArray :: byte where "kStrictArray = 0x0A"
definition kDate :: byte where "kDate = 0x0B"
definition kLongString :: byte where "kLongString = 0x0C"

lemmas amf_markers = kNumber_def kBoolean_def kString_def kObject_def kNull_def kUndefined_def
  kEcmaArray_def kObjectEnd_def kStrictArray_def kDate_def kLongString_def

text \<open>The accessors return the default of a field the value's type does not set.\<close>

fun as_number :: "Amf0Value \<Rightarrow> u64" where
  "as_number (Amf_Number v) = v"
| "as_number (Amf_Date ms tz) = ms"
| "as_number v = 0"

fun as_boolean :: "Amf0Value \<Rightarrow> bool" where
  "as_boolean (Amf_Boolean b) = b"
| "as_boolean v = False"

fun as_string :: "Amf0Value \<Rightarrow> string" where
  "as_string (Amf_String s) = s"
| "as_string v = ''''"

fun date_tz :: "Amf0Value \<Rightarrow> u16" where
  "date_tz (Amf_Date ms tz) = tz"
| "date_tz v = 0"

fun amf_properties :: "Amf0Value \<Rightarrow> (string \<times> Amf0Value) list" where
  "amf_properties (Amf_Object ps) = ps"
| "amf_properties (Amf_EcmaArray ps) = ps"
| "amf_properties v = []"

text \<open>\<open>Amf0Value::find\<close>: the first property of that name.\<close>

fun find_property :: "string \<Rightarrow> (string \<times> Amf0Value) list \<Rightarrow> Amf0Value option" where
  "find_property key [] = None"
| "find_property key ((k, v) # ps) = (if k = key then Some v else find_property key ps)"

definition Amf0Value_find :: "string \<Rightarrow> Amf0Value \<Rightarrow> Amf0Value option" where
  "Amf0Value_find key v = find_property key (amf_properties v)"

text \<open>\<open>Amf0Value::set\<close>; \<open>None\<close> is the failed assertion on the type.\<close>

fun set_property :: "string \<Rightarrow> Amf0Value \<Rightarrow> (string \<times> Amf0Value) list \<Rightarrow> (string \<times> Amf0Value) list" where
  "set_property key value [] = [(key, value)]"
| "set_property key value ((k, v) # ps) =
     (if k = key then (k, value) # ps else (k, v) # set_property key value ps)"

fun Amf0Value_set :: "string \<Rightarrow> Amf0Value \<Rightarrow> Amf0Value \<Rightarrow> Amf0Value option" where
  "Amf0Value_set key value (Amf_Object ps) = Some (Amf_Object (set_property key value ps))"
| "Amf0Value_set key value (Amf_EcmaArray ps) = Some (Amf_EcmaArray (set_property key value ps))"
| "Amf0Value_set key value v = None"

fun Amf0Value_push :: "Amf0Value \<Rightarrow> Amf0Value \<Rightarrow> Amf0Value option" where
  "Amf0Value_push value (Amf_StrictArray vs) = Some (Amf_StrictArray (vs @ [value]))"
| "Amf0Value_push value v = None"

section \<open>Encoding\<close>

definition put_u16 :: "u16 \<Rightarrow> bytes \<Rightarrow> bytes" where
  "put_u16 v out = out @ [ucast (drop_bit 8 v), ucast v]"

definition put_u32 :: "u32 \<Rightarrow> bytes \<Rightarrow> bytes" where
  "put_u32 v out = out @ [ucast (drop_bit 24 v), ucast (drop_bit 16 v), ucast (drop_bit 8 v), ucast v]"

definition put_f64 :: "u64 \<Rightarrow> bytes \<Rightarrow> bytes" where
  "put_f64 b out = out @ map (\<lambda>shift. ucast (drop_bit shift b)) [56, 48, 40, 32, 24, 16, 8, 0]"

definition put_property_name :: "string \<Rightarrow> bytes \<Rightarrow> bytes" where
  "put_property_name name out = put_u16 (of_nat (length name)) out @ string_bytes name"

fun amf0_encode :: "Amf0Value \<Rightarrow> bytes \<Rightarrow> bytes"
  and put_properties :: "(string \<times> Amf0Value) list \<Rightarrow> bytes \<Rightarrow> bytes"
  and put_elements :: "Amf0Value list \<Rightarrow> bytes \<Rightarrow> bytes"
where
  "amf0_encode (Amf_Number v) out = put_f64 v (out @ [kNumber])"
| "amf0_encode (Amf_Boolean b) out = out @ [kBoolean] @ [if b then 1 else 0]"
| "amf0_encode (Amf_String s) out =
     (if 0xFFFF < length s then put_u32 (of_nat (length s)) (out @ [kLongString])
      else put_u16 (of_nat (length s)) (out @ [kString])) @ string_bytes s"
| "amf0_encode (Amf_Object ps) out = put_properties ps (out @ [kObject])"
| "amf0_encode (Amf_EcmaArray ps) out =
     put_properties ps (put_u32 (of_nat (length ps)) (out @ [kEcmaArray]))"
| "amf0_encode (Amf_StrictArray vs) out =
     put_elements vs (put_u32 (of_nat (length vs)) (out @ [kStrictArray]))"
| "amf0_encode Amf_Null out = out @ [kNull]"
| "amf0_encode Amf_Undefined out = out @ [kUndefined]"
| "amf0_encode (Amf_Date ms tz) out = put_u16 tz (put_f64 ms (out @ [kDate]))"
| "put_properties [] out = put_u16 0 out @ [kObjectEnd]"
| "put_properties ((k, v) # ps) out = put_properties ps (amf0_encode v (put_property_name k out))"
| "put_elements [] out = out"
| "put_elements (v # vs) out = put_elements vs (amf0_encode v out)"

section \<open>Decoding\<close>

definition kMaxDepth :: nat where "kMaxDepth = 32"

definition reader_u8 :: "bytes \<Rightarrow> (byte \<times> bytes) option" where
  "reader_u8 r = (if 1 \<le> length r then Some (r ! 0, drop 1 r) else None)"

definition reader_u16 :: "bytes \<Rightarrow> (u16 \<times> bytes) option" where
  "reader_u16 r = (if 2 \<le> length r
     then Some (push_bit 8 (ucast (r ! 0)) OR ucast (r ! 1), drop 2 r) else None)"

definition reader_u32 :: "bytes \<Rightarrow> (u32 \<times> bytes) option" where
  "reader_u32 r = (if 4 \<le> length r
     then Some (push_bit 24 (ucast (r ! 0)) OR push_bit 16 (ucast (r ! 1))
            OR push_bit 8 (ucast (r ! 2)) OR ucast (r ! 3), drop 4 r) else None)"

definition reader_f64 :: "bytes \<Rightarrow> (u64 \<times> bytes) option" where
  "reader_f64 r = (if 8 \<le> length r then Some (be_fold 0 (take 8 r), drop 8 r) else None)"

definition reader_str :: "nat \<Rightarrow> bytes \<Rightarrow> (string \<times> bytes) option" where
  "reader_str n r = (if n \<le> length r then Some (bytes_string (take n r), drop n r) else None)"

text \<open>
  The loops over properties and elements, with the recursive call as an argument. The
  length test of the first only serves its definition: \<open>decode_properties_unfold\<close> below shows
  that it never fails and gives the loop as the code has it.
\<close>

function properties_loop ::
  "(bytes \<Rightarrow> (Amf0Value \<times> bytes) option) \<Rightarrow> bytes \<Rightarrow> (string \<times> Amf0Value) list
     \<Rightarrow> ((string \<times> Amf0Value) list \<times> bytes) option" where
  "properties_loop dv r ps =
     (case reader_u16 r of None \<Rightarrow> None
      | Some (name_len, r1) \<Rightarrow>
          if name_len = 0 then
            (case reader_u8 r1 of None \<Rightarrow> None
             | Some (m, r2) \<Rightarrow> if m = 0x09 then Some (ps, r2) else None)
          else
            (case reader_str (unat name_len) r1 of None \<Rightarrow> None
             | Some (name, r2) \<Rightarrow>
                 (case dv r2 of None \<Rightarrow> None
                  | Some (v, r3) \<Rightarrow>
                      if length r3 < length r then properties_loop dv r3 (set_property name v ps)
                      else None)))"
  by pat_completeness auto
termination by (relation "measure (\<lambda>(dv, r, ps). length r)") auto

declare properties_loop.simps [simp del]

fun elements_loop ::
  "(bytes \<Rightarrow> (Amf0Value \<times> bytes) option) \<Rightarrow> nat \<Rightarrow> bytes \<Rightarrow> Amf0Value list
     \<Rightarrow> (Amf0Value list \<times> bytes) option" where
  "elements_loop dv 0 r vs = Some (vs, r)"
| "elements_loop dv (Suc n) r vs =
     (case dv r of None \<Rightarrow> None | Some (v, r') \<Rightarrow> elements_loop dv n r' (vs @ [v]))"

primrec decode_value :: "nat \<Rightarrow> bytes \<Rightarrow> (Amf0Value \<times> bytes) option" where
  "decode_value 0 r = None"
| "decode_value (Suc n) r =
     do {
       (marker, r) \<leftarrow> reader_u8 r;
       if marker = kNumber then do { (v, r) \<leftarrow> reader_f64 r; Some (Amf_Number v, r) }
       else if marker = kBoolean then do { (b, r) \<leftarrow> reader_u8 r; Some (Amf_Boolean (b \<noteq> 0), r) }
       else if marker = kString then
         do { (len, r) \<leftarrow> reader_u16 r; (s, r) \<leftarrow> reader_str (unat len) r; Some (Amf_String s, r) }
       else if marker = kLongString then
         do { (len, r) \<leftarrow> reader_u32 r; (s, r) \<leftarrow> reader_str (unat len) r; Some (Amf_String s, r) }
       else if marker = kObject then
         do { (ps, r) \<leftarrow> properties_loop (decode_value n) r []; Some (Amf_Object ps, r) }
       else if marker = kEcmaArray then
         do { (_, r) \<leftarrow> reader_u32 r;
              (ps, r) \<leftarrow> properties_loop (decode_value n) r []; Some (Amf_EcmaArray ps, r) }
       else if marker = kStrictArray then
         do { (count, r) \<leftarrow> reader_u32 r;
              (vs, r) \<leftarrow> elements_loop (decode_value n) (unat count) r []; Some (Amf_StrictArray vs, r) }
       else if marker = kNull then Some (Amf_Null, r)
       else if marker = kUndefined then Some (Amf_Undefined, r)
       else if marker = kDate then
         (if 10 \<le> length r then
            do { (ms, r) \<leftarrow> reader_f64 r; (tz, r) \<leftarrow> reader_u16 r; Some (Amf_Date ms tz, r) }
          else None)
       else None
     }"

declare decode_value.simps(2) [simp del]

definition amf0_decode :: "bytes \<Rightarrow> (Amf0Value \<times> nat) option" where
  "amf0_decode data =
     map_option (\<lambda>(v, r). (v, length data - length r)) (decode_value (Suc kMaxDepth) data)"

section \<open>The decoder consumes a prefix of its input\<close>

text \<open>
  A decoder that, when it succeeds, has consumed a prefix of its input, whatever follows it;
  \<open>consumes_prefix\<close> demands in addition that the prefix is not empty.
\<close>

definition consumed_by :: "(bytes \<Rightarrow> ('a \<times> bytes) option) \<Rightarrow> bytes \<Rightarrow> bytes \<Rightarrow> 'a \<Rightarrow> bytes \<Rightarrow> bool" where
  "consumed_by dv c r v r' \<longleftrightarrow> r = c @ r' \<and> (\<forall>ext. dv (c @ ext) = Some (v, ext))"

definition consumes :: "(bytes \<Rightarrow> ('a \<times> bytes) option) \<Rightarrow> bool" where
  "consumes dv \<longleftrightarrow> (\<forall>r v r'. dv r = Some (v, r') \<longrightarrow> (\<exists>c. consumed_by dv c r v r'))"

definition consumes_prefix :: "(bytes \<Rightarrow> ('a \<times> bytes) option) \<Rightarrow> bool" where
  "consumes_prefix dv \<longleftrightarrow> (\<forall>r v r'. dv r = Some (v, r') \<longrightarrow> (\<exists>c. c \<noteq> [] \<and> consumed_by dv c r v r'))"

lemma consumes_prefix_weaken: "consumes_prefix f \<Longrightarrow> consumes f"
  unfolding consumes_prefix_def consumes_def by blast

lemma consumes_prefix_shrinks:
  "consumes_prefix dv \<Longrightarrow> dv r = Some (v, r') \<Longrightarrow> length r' < length r"
  by (fastforce simp: consumes_prefix_def consumed_by_def)

lemma consumes_first:
  assumes "\<And>r. dv r = (if k \<le> length r then Some (g (take k r), drop k r) else None)"
  shows "consumes dv" and "0 < k \<Longrightarrow> consumes_prefix dv"
proof -
  have c: "consumed_by dv (take k r) r v r'" if "dv r = Some (v, r')" for r v r'
    using that by (auto simp: consumed_by_def assms min_def split: if_splits)
  then show "consumes dv" unfolding consumes_def by blast
  have "take k r \<noteq> []" if "dv r = Some (v, r')" "0 < k" for r v r'
    using that by (auto simp: assms split: if_splits)
  with c show "0 < k \<Longrightarrow> consumes_prefix dv" unfolding consumes_prefix_def by blast
qed

lemma reader_consumes:
  "consumes_prefix reader_u8" "consumes_prefix reader_u16" "consumes_prefix reader_u32"
  "consumes_prefix reader_f64"
proof -
  show "consumes_prefix reader_u8"
    by (rule consumes_first(2) [where k = 1 and g = "\<lambda>c. c ! 0"]) (simp_all add: reader_u8_def)
  show "consumes_prefix reader_u16"
    by (rule consumes_first(2) [where k = 2 and g = "\<lambda>c. push_bit 8 (ucast (c ! 0)) OR ucast (c ! 1)"])
      (simp_all add: reader_u16_def)
  show "consumes_prefix reader_u32"
    by (rule consumes_first(2) [where k = 4 and g = "\<lambda>c. push_bit 24 (ucast (c ! 0))
          OR push_bit 16 (ucast (c ! 1)) OR push_bit 8 (ucast (c ! 2)) OR ucast (c ! 3)"])
      (simp_all add: reader_u32_def)
  show "consumes_prefix reader_f64"
    by (rule consumes_first(2) [where k = 8 and g = "be_fold 0"]) (simp_all add: reader_f64_def)
qed

lemma reader_str_consumes: "consumes (reader_str k)"
  by (rule consumes_first(1) [where g = bytes_string]) (simp add: reader_str_def)

lemma consumesE:
  assumes "consumes dv" and "dv r = Some (v, r')"
  obtains c where "r = c @ r'" and "\<And>ext. dv (c @ ext) = Some (v, ext)"
  using assms unfolding consumes_def consumed_by_def by blast

lemma properties_loop_consumes:
  assumes "consumes_prefix dv" and "properties_loop dv r ps = Some (qs, r')"
  shows "\<exists>c. consumed_by (\<lambda>r. properties_loop dv r ps) c r qs r'"
  using assms
proof (induction dv r ps rule: properties_loop.induct)
  case (1 dv r ps)
  note loop = "1.prems"(2)
  from loop obtain len r1 where u: "reader_u16 r = Some (len, r1)"
    by (subst (asm) properties_loop.simps) (auto split: option.splits)
  obtain c1 where c1: "r = c1 @ r1" "\<And>ext. reader_u16 (c1 @ ext) = Some (len, ext)"
    using reader_consumes(2) u by (blast elim: consumesE dest: consumes_prefix_weaken)
  show ?case
  proof (cases "len = 0")
    case True
    with loop u obtain m where m: "reader_u8 r1 = Some (m, r')" and "m = 0x09" and "qs = ps"
      by (subst (asm) properties_loop.simps) (auto split: option.splits if_splits)
    moreover obtain c2 where c2: "r1 = c2 @ r'" "\<And>ext. reader_u8 (c2 @ ext) = Some (m, ext)"
      using reader_consumes(1) m by (blast elim: consumesE dest: consumes_prefix_weaken)
    ultimately have "consumed_by (\<lambda>r. properties_loop dv r ps) (c1 @ c2) r qs r'"
      using True c1 unfolding consumed_by_def by (subst properties_loop.simps) simp
    then show ?thesis ..
  next
    case False
    with loop u obtain name r2 v r3 where s: "reader_str (unat len) r1 = Some (name, r2)"
      and d: "dv r2 = Some (v, r3)"
      and rec: "properties_loop dv r3 (set_property name v ps) = Some (qs, r')" "length r3 < length r"
      by (subst (asm) properties_loop.simps) (auto split: option.splits if_splits)
    obtain c2 where c2: "r1 = c2 @ r2" "\<And>ext. reader_str (unat len) (c2 @ ext) = Some (name, ext)"
      using reader_str_consumes s by (blast elim: consumesE)
    obtain c3 where c3: "c3 \<noteq> []" "r2 = c3 @ r3" "\<And>ext. dv (c3 @ ext) = Some (v, ext)"
      using "1.prems"(1) d unfolding consumes_prefix_def consumed_by_def by blast
    obtain c4 where c4: "r3 = c4 @ r'"
      "\<And>ext. properties_loop dv (c4 @ ext) (set_property name v ps) = Some (qs, ext)"
      using "1.IH" [OF u _ False s _ d] rec "1.prems"(1) unfolding consumed_by_def by auto
    have "consumed_by (\<lambda>r. properties_loop dv r ps) (c1 @ c2 @ c3 @ c4) r qs r'"
      using False c1 c2 c3 c4 unfolding consumed_by_def by (subst properties_loop.simps) simp
    then show ?thesis ..
  qed
qed

lemma elements_loop_consumes:
  assumes "consumes dv"
  shows "elements_loop dv n r vs = Some (ws, r') \<Longrightarrow> \<exists>c. consumed_by (\<lambda>r. elements_loop dv n r vs) c r ws r'"
proof (induction n arbitrary: r vs)
  case 0
  then show ?case by (simp add: consumed_by_def)
next
  case (Suc n)
  from Suc.prems obtain v r1 where d: "dv r = Some (v, r1)"
    and rec: "elements_loop dv n r1 (vs @ [v]) = Some (ws, r')" by (auto split: option.splits)
  obtain c1 where "r = c1 @ r1" "\<And>ext. dv (c1 @ ext) = Some (v, ext)"
    using assms d by (blast elim: consumesE)
  moreover obtain c2 where "r1 = c2 @ r'" "\<And>ext. elements_loop dv n (c2 @ ext) (vs @ [v]) = Some (ws, ext)"
    using Suc.IH [OF rec] by (auto simp: consumed_by_def)
  ultimately have "consumed_by (\<lambda>r. elements_loop dv (Suc n) r vs) (c1 @ c2) r ws r'"
    by (simp add: consumed_by_def)
  then show ?case ..
qed

text \<open>Decoders compose: what the monadic code builds from consuming readers consumes.\<close>

named_theorems consuming \<open>decoders that consume a prefix of their input\<close>

lemma consumes_basic [consuming]:
  "consumes (\<lambda>r. Some (v, r))" "consumes (\<lambda>r. None)"
  "consumes f \<Longrightarrow> consumes g \<Longrightarrow> consumes (\<lambda>r. if b then f r else g r)"
  by (auto simp: consumes_def consumed_by_def)

lemma consumes_bind [consuming]:
  assumes "consumes f" and "\<And>x. consumes (g x)"
  shows "consumes (\<lambda>r. f r \<bind> (\<lambda>(x, r). g x r))"
  unfolding consumes_def
proof (intro allI impI)
  fix r v r' assume "f r \<bind> (\<lambda>(x, r). g x r) = Some (v, r')"
  then obtain x r1 where f: "f r = Some (x, r1)" and g: "g x r1 = Some (v, r')"
    by (auto simp: bind_eq_Some_conv)
  obtain c1 where c1: "r = c1 @ r1" "\<And>ext. f (c1 @ ext) = Some (x, ext)"
    using assms(1) f by (blast elim: consumesE)
  obtain c2 where c2: "r1 = c2 @ r'" "\<And>ext. g x (c2 @ ext) = Some (v, ext)"
    using assms(2) g by (blast elim: consumesE)
  have "consumed_by (\<lambda>r. f r \<bind> (\<lambda>(x, r). g x r)) (c1 @ c2) r v r'"
    using c1 c2 by (simp add: consumed_by_def)
  then show "\<exists>c. consumed_by (\<lambda>r. f r \<bind> (\<lambda>(x, r). g x r)) c r v r'" ..
qed

lemma consumes_readers [consuming]:
  "consumes reader_u8" "consumes reader_u16" "consumes reader_u32" "consumes reader_f64"
  "consumes (reader_str k)"
  by (simp_all add: consumes_prefix_weaken reader_consumes reader_str_consumes)

lemma consumes_date [consuming]:
  "consumes (\<lambda>r. if 10 \<le> length r then reader_f64 r \<bind> (\<lambda>(ms, r). reader_u16 r \<bind>
     (\<lambda>(tz, r). Some (Amf_Date ms tz, r))) else None)"
proof -
  have "consumes (\<lambda>r. reader_f64 r \<bind> (\<lambda>(ms, r). reader_u16 r \<bind> (\<lambda>(tz, r). Some (Amf_Date ms tz, r))))"
    by (intro consuming)
  moreover have "(\<lambda>r. if 10 \<le> length r then reader_f64 r \<bind> (\<lambda>(ms, r). reader_u16 r \<bind>
     (\<lambda>(tz, r). Some (Amf_Date ms tz, r))) else None)
    = (\<lambda>r. reader_f64 r \<bind> (\<lambda>(ms, r). reader_u16 r \<bind> (\<lambda>(tz, r). Some (Amf_Date ms tz, r))))"
    by (rule ext) (simp add: reader_f64_def reader_u16_def, linarith)
  ultimately show ?thesis by simp
qed

lemma consumes_nonempty: "consumes dv \<Longrightarrow> dv [] = None \<Longrightarrow> consumes_prefix dv"
  unfolding consumes_prefix_def consumes_def consumed_by_def
  by (metis append_Nil option.distinct(1))

lemma decode_value_consumes: "consumes_prefix (decode_value n)"
proof (induction n)
  case 0
  show ?case by (simp add: consumes_prefix_def)
next
  case (Suc n)
  have "consumes (\<lambda>r. properties_loop (decode_value n) r ps)" for ps
    using properties_loop_consumes [OF Suc.IH] unfolding consumes_def by blast
  moreover have "consumes (\<lambda>r. elements_loop (decode_value n) k r vs)" for k vs
    using elements_loop_consumes [OF consumes_prefix_weaken [OF Suc.IH]] unfolding consumes_def by blast
  moreover have "decode_value (Suc n) = (\<lambda>r. decode_value (Suc n) r)" ..
  ultimately have "consumes (decode_value (Suc n))"
    unfolding decode_value.simps by (intro consuming)
  then show ?case
    by (rule consumes_nonempty) (simp add: decode_value.simps reader_u8_def)
qed

lemma decode_value_shrinks: "decode_value n r = Some (v, r') \<Longrightarrow> length r' < length r"
  by (rule consumes_prefix_shrinks [OF decode_value_consumes])

lemma decode_value_prefix:
  assumes "decode_value n r = Some (v, r')"
  obtains c where "r = c @ r'" and "\<And>ext. decode_value n (c @ ext) = Some (v, ext)"
  using consumesE [OF consumes_prefix_weaken [OF decode_value_consumes] assms] by blast

text \<open>\<open>decode_properties\<close> as the code has it.\<close>

definition decode_properties ::
  "nat \<Rightarrow> bytes \<Rightarrow> (string \<times> Amf0Value) list \<Rightarrow> ((string \<times> Amf0Value) list \<times> bytes) option" where
  "decode_properties n r ps = properties_loop (decode_value n) r ps"

lemma decode_properties_unfold:
  "decode_properties n r ps =
     (case reader_u16 r of None \<Rightarrow> None
      | Some (name_len, r1) \<Rightarrow>
          if name_len = 0 then
            (case reader_u8 r1 of None \<Rightarrow> None
             | Some (m, r2) \<Rightarrow> if m = 0x09 then Some (ps, r2) else None)
          else
            (case reader_str (unat name_len) r1 of None \<Rightarrow> None
             | Some (name, r2) \<Rightarrow>
                 (case decode_value n r2 of None \<Rightarrow> None
                  | Some (v, r3) \<Rightarrow> decode_properties n r3 (set_property name v ps))))"
proof -
  have "length r3 < length r"
    if "reader_u16 r = Some (k, r1)" "reader_str (unat k) r1 = Some (name, r2)"
      "decode_value n r2 = Some (v, r3)" for k r1 name r2 v r3
    using consumes_prefix_shrinks [OF reader_consumes(2) that(1)] decode_value_shrinks [OF that(3)]
      that(2) by (auto simp: reader_str_def split: if_splits)
  then show ?thesis
    unfolding decode_properties_def
    by (subst properties_loop.simps) (simp split: option.splits)
qed

lemma amf0_decode_consumed: "amf0_decode data = Some (v, n) \<Longrightarrow> 0 < n \<and> n \<le> length data"
  by (auto simp: amf0_decode_def dest!: decode_value_shrinks)

text \<open>The loop of \<open>amf0_decode_all\<close>.\<close>

function amf0_decode_loop :: "bytes \<Rightarrow> nat \<Rightarrow> Amf0Value list \<Rightarrow> Amf0Value list option" where
  "amf0_decode_loop data pos values =
     (if pos < length data then
        (case amf0_decode (drop pos data) of None \<Rightarrow> None
         | Some (v, n) \<Rightarrow> amf0_decode_loop data (pos + n) (values @ [v]))
      else Some values)"
  by pat_completeness auto
termination
  by (relation "measure (\<lambda>(data, pos, values). length data - pos)") (auto dest!: amf0_decode_consumed)

declare amf0_decode_loop.simps [simp del]

definition amf0_decode_all :: "bytes \<Rightarrow> Amf0Value list option" where
  "amf0_decode_all data = amf0_decode_loop data 0 []"

section \<open>Round trip\<close>

text \<open>
  The values the format can carry: at most \<open>n\<close> levels, property names of 1 to 65535 bytes
  and without repetition, strings and strict arrays whose length fits in 32 bits.
\<close>

definition names_ok :: "(string \<times> 'a) list \<Rightarrow> bool" where
  "names_ok ps \<longleftrightarrow> distinct (map fst ps) \<and> (\<forall>(k, v) \<in> set ps. k \<noteq> [] \<and> length k \<le> 0xFFFF)"

primrec amf0_ok :: "nat \<Rightarrow> Amf0Value \<Rightarrow> bool" where
  "amf0_ok 0 v = False"
| "amf0_ok (Suc n) v =
     (case v of
        Amf_String s \<Rightarrow> length s < 2 ^ 32
      | Amf_Object ps \<Rightarrow> names_ok ps \<and> list_all (\<lambda>(k, v). amf0_ok n v) ps
      | Amf_EcmaArray ps \<Rightarrow> names_ok ps \<and> list_all (\<lambda>(k, v). amf0_ok n v) ps
      | Amf_StrictArray vs \<Rightarrow> length vs < 2 ^ 32 \<and> list_all (amf0_ok n) vs
      | _ \<Rightarrow> True)"

lemma reader_put [simp]:
  "reader_u16 (put_u16 v [] @ r) = Some (v, r)"
  "reader_u32 (put_u32 w [] @ r) = Some (w, r)"
  "reader_f64 (put_f64 x [] @ r) = Some (x, r)"
  "reader_u8 (b # r) = Some (b, r)"
  "reader_str (length str) (string_bytes str @ r) = Some (str, r)"
proof -
  have "be_fold 0 (be_bytes 2 v) = v" by (rule be_fold_be_bytes_full) simp
  then show "reader_u16 (put_u16 v [] @ r) = Some (v, r)"
    by (simp add: reader_u16_def put_u16_def be_bytes_unrolled be_fold_def)
  have "be_fold 0 (be_bytes 4 w) = w" by (rule be_fold_be_bytes_full) simp
  then show "reader_u32 (put_u32 w [] @ r) = Some (w, r)"
    by (simp add: reader_u32_def put_u32_def be_bytes_unrolled be_fold_def push_bit_or or.assoc
        numeral_2_eq_2 numeral_3_eq_3)
  have "be_bytes (Suc (Suc (Suc (Suc (Suc (Suc (Suc (Suc 0)))))))) x = put_f64 x []"
    unfolding be_bytes_Suc_front by (simp add: put_f64_def)
  moreover have "be_fold 0 (be_bytes (Suc (Suc (Suc (Suc (Suc (Suc (Suc (Suc 0)))))))) x) = x"
    by (rule be_fold_be_bytes_full) simp
  ultimately show "reader_f64 (put_f64 x [] @ r) = Some (x, r)"
    by (simp add: reader_f64_def put_f64_def)
qed (simp_all add: reader_u8_def reader_str_def)

lemma put_extends:
  "NO_MATCH [] out \<Longrightarrow> put_u16 v out = out @ put_u16 v []"
  "NO_MATCH [] out \<Longrightarrow> put_u32 w out = out @ put_u32 w []"
  "NO_MATCH [] out \<Longrightarrow> put_f64 x out = out @ put_f64 x []"
  "NO_MATCH [] out \<Longrightarrow> put_property_name k out = out @ put_property_name k []"
  by (simp_all add: put_u16_def put_u32_def put_f64_def put_property_name_def)

lemma amf_put_length [simp]:
  "length (put_u16 v out) = length out + 2" "length (put_u32 w out) = length out + 4"
  "length (put_f64 x out) = length out + 8"
  by (simp_all add: put_u16_def put_u32_def put_f64_def)

lemma encode_extends_all:
  fixes dummy :: bytes
  shows "\<forall>out. amf0_encode v out = out @ amf0_encode v []"
    and "\<forall>out. put_properties ps out = out @ put_properties ps []"
    and "\<forall>out. put_elements vs out = out @ put_elements vs []"
proof (induction v dummy and ps dummy and vs dummy rule: amf0_encode_put_properties_put_elements.induct)
  case (11 k v ps out)
  then show ?case
    by (metis put_properties.simps(2) append_assoc put_extends(4) NO_MATCH_def)
next
  case (13 v vs out)
  then show ?case by (metis put_elements.simps(2) append_assoc)
next
  case (4 ps out)
  then show ?case by (metis amf0_encode.simps(4) append_assoc append_Nil)
next
  case (5 ps out)
  then show ?case
    by (metis amf0_encode.simps(5) append_assoc append_Nil put_extends(2) NO_MATCH_def)
next
  case (6 vs out)
  then show ?case
    by (metis amf0_encode.simps(6) append_assoc append_Nil put_extends(2) NO_MATCH_def)
qed (simp_all add: put_u16_def put_u32_def put_f64_def)

lemmas encode_extends = encode_extends_all [rule_format]

lemma encode_extends_simps:
  "NO_MATCH [] out \<Longrightarrow> put_properties ps out = out @ put_properties ps []"
  "NO_MATCH [] out \<Longrightarrow> put_elements vs out = out @ put_elements vs []"
  "NO_MATCH [] out \<Longrightarrow> amf0_encode v out = out @ amf0_encode v []"
  by (rule encode_extends)+

lemma set_property_new: "key \<notin> fst ` set ps \<Longrightarrow> set_property key v ps = ps @ [(key, v)]"
  by (induction ps) auto

lemma put_properties_Cons:
  "put_properties ((k, v) # ps) [] = put_u16 (of_nat (length k)) [] @ string_bytes k
     @ amf0_encode v [] @ put_properties ps []"
  unfolding put_properties.simps
  by (subst encode_extends(2), subst encode_extends(1)) (simp add: put_property_name_def)

lemma unat_of_nat_u16: "n \<le> 0xFFFF \<Longrightarrow> unat (of_nat n :: u16) = n"
  by (simp add: unat_of_nat take_bit_nat_eq_self)

lemma unat_of_nat_u32: "n < 2 ^ 32 \<Longrightarrow> unat (of_nat n :: u32) = n"
  by (simp add: unat_of_nat take_bit_nat_eq_self)

lemma decode_properties_put:
  assumes "names_ok (acc @ ps)"
    and "list_all (\<lambda>(k, v). \<forall>r. decode_value n (amf0_encode v [] @ r) = Some (v, r)) ps"
  shows "decode_properties n (put_properties ps [] @ rest) acc = Some (acc @ ps, rest)"
  using assms
proof (induction ps arbitrary: acc)
  case Nil
  show ?case by (simp add: decode_properties_unfold kObjectEnd_def)
next
  case (Cons p ps)
  obtain k v where p: "p = (k, v)" by (cases p)
  have k: "unat (of_nat (length k) :: u16) = length k" and "length k \<noteq> 0" and new: "k \<notin> fst ` set acc"
    using Cons.prems(1) by (auto simp: p names_ok_def intro!: unat_of_nat_u16)
  then have "(of_nat (length k) :: u16) \<noteq> 0" by (metis unsigned_0)
  then show ?case
    using Cons.IH [of "acc @ [(k, v)]"] Cons.prems k new
    by (subst decode_properties_unfold)
      (simp add: p put_properties_Cons set_property_new del: put_properties.simps(2))
qed

lemma elements_loop_put:
  assumes "list_all (\<lambda>v. \<forall>r. dv (amf0_encode v [] @ r) = Some (v, r)) vs"
  shows "elements_loop dv (length vs) (put_elements vs [] @ rest) acc = Some (acc @ vs, rest)"
  using assms
proof (induction vs arbitrary: acc)
  case Nil
  show ?case by simp
next
  case (Cons v vs)
  have "put_elements (v # vs) [] = amf0_encode v [] @ put_elements vs []"
    by (simp add: encode_extends(3) [of vs "amf0_encode v []"])
  with Cons show ?case by simp
qed

lemma decode_encode:
  "amf0_ok n v \<Longrightarrow> decode_value n (amf0_encode v [] @ rest) = Some (v, rest)"
proof (induction n arbitrary: v rest)
  case 0
  then show ?case by simp
next
  case (Suc n)
  note enc = decode_value.simps(2) amf_markers put_extends encode_extends_simps(1,2)
  have props: "properties_loop (decode_value n) (put_properties ps [] @ rest) [] = Some (ps, rest)"
    if "names_ok ps" "list_all (\<lambda>(k, v). amf0_ok n v) ps" for ps rest
    using decode_properties_put [of "[]" ps n rest] that Suc.IH
    by (fastforce simp: decode_properties_def list_all_iff)
  have elems: "elements_loop (decode_value n) (length vs) (put_elements vs [] @ rest) [] = Some (vs, rest)"
    if "list_all (amf0_ok n) vs" for vs rest
    using elements_loop_put [of "decode_value n" vs rest "[]"] that Suc.IH by (simp add: list_all_iff)
  show ?case
  proof (cases v)
    case (Amf_String s)
    with Suc.prems show ?thesis
      by (simp add: enc unat_of_nat_u16 unat_of_nat_u32)
  next
    case (Amf_Object ps)
    with Suc.prems props show ?thesis by (simp add: enc)
  next
    case (Amf_EcmaArray ps)
    with Suc.prems props show ?thesis by (simp add: enc)
  next
    case (Amf_StrictArray vs)
    with Suc.prems elems show ?thesis by (simp add: enc unat_of_nat_u32)
  next
    case (Amf_Date ms tz)
    then show ?thesis by (simp add: enc amf_put_length)
  qed (simp_all add: enc)
qed

section \<open>What the decoder can return\<close>

definition returns :: "('a \<Rightarrow> bool) \<Rightarrow> (bytes \<Rightarrow> ('a \<times> bytes) option) \<Rightarrow> bool" where
  "returns P dv \<longleftrightarrow> (\<forall>r v r'. dv r = Some (v, r') \<longrightarrow> P v)"

lemma returns_intros:
  "P v \<Longrightarrow> returns P (\<lambda>r. Some (v, r))" "returns P (\<lambda>r. None)"
  "(b \<Longrightarrow> returns P f) \<Longrightarrow> (\<not> b \<Longrightarrow> returns P g) \<Longrightarrow> returns P (\<lambda>r. if b then f r else g r)"
  "returns P f \<Longrightarrow> returns P (\<lambda>r. if k \<le> length r then f r else None)"
  by (auto simp: returns_def)

lemma returns_bind:
  "returns Q f \<Longrightarrow> (\<And>x. Q x \<Longrightarrow> returns P (g x)) \<Longrightarrow> returns P (\<lambda>r. f r \<bind> (\<lambda>(x, r). g x r))"
  unfolding returns_def bind_eq_Some_conv by fastforce

lemma returns_readers:
  "returns (\<lambda>_. True) reader_u8" "returns (\<lambda>_. True) reader_u16" "returns (\<lambda>_. True) reader_u32"
  "returns (\<lambda>_. True) reader_f64" "returns (\<lambda>s. length s = k) (reader_str k)"
  by (auto simp: returns_def reader_str_def split: if_splits)

definition props_ok :: "nat \<Rightarrow> (string \<times> Amf0Value) list \<Rightarrow> bool" where
  "props_ok n ps \<longleftrightarrow> names_ok ps \<and> list_all (\<lambda>(k, v). amf0_ok n v) ps"

lemma set_property_names: "fst ` set (set_property k v ps) = insert k (fst ` set ps)"
  by (induction k v ps rule: set_property.induct) (simp_all add: insert_commute)

lemma props_ok_set:
  assumes "props_ok n ps" and "k \<noteq> []" and "length k \<le> 0xFFFF" and "amf0_ok n v"
  shows "props_ok n (set_property k v ps)"
  using assms(1)
proof (induction ps)
  case Nil
  with assms show ?case by (simp add: props_ok_def names_ok_def)
next
  case (Cons p ps)
  obtain k' v' where p: "p = (k', v')" by (cases p)
  from Cons.prems have "props_ok n ps" by (auto simp: props_ok_def names_ok_def)
  from Cons.IH [OF this] Cons.prems assms p set_property_names [of k v ps] show ?case
    by (auto simp: props_ok_def names_ok_def)
qed

lemma u16_bound: "unat (w :: u16) \<le> 0xFFFF"
proof -
  have "unat w < 2 ^ 16" by (rule order_less_le_trans [OF unsigned_less]) simp
  then show ?thesis by simp
qed

lemma properties_loop_ok:
  assumes "returns (amf0_ok n) dv" and "props_ok n ps" and "properties_loop dv r ps = Some (qs, r')"
  shows "props_ok n qs"
  using assms
proof (induction dv r ps rule: properties_loop.induct)
  case (1 dv r ps)
  note loop = "1.prems"(3)
  from loop obtain len r1 where u: "reader_u16 r = Some (len, r1)"
    by (subst (asm) properties_loop.simps) (auto split: option.splits)
  show ?case
  proof (cases "len = 0")
    case True
    with loop u have "qs = ps"
      by (subst (asm) properties_loop.simps) (auto split: option.splits if_splits)
    with "1.prems" show ?thesis by simp
  next
    case False
    with loop u obtain name r2 v r3 where s: "reader_str (unat len) r1 = Some (name, r2)"
      and d: "dv r2 = Some (v, r3)" and lt: "length r3 < length r"
      and rec: "properties_loop dv r3 (set_property name v ps) = Some (qs, r')"
      by (subst (asm) properties_loop.simps) (auto split: option.splits if_splits)
    have "length name = unat len" using returns_readers(5) s by (auto simp: returns_def)
    then have "name \<noteq> []" and "length name \<le> 0xFFFF" using False u16_bound [of len] by (auto simp: unat_eq_0)
    moreover have "amf0_ok n v" using "1.prems"(1) d by (auto simp: returns_def)
    ultimately have "props_ok n (set_property name v ps)" using "1.prems"(2) by (intro props_ok_set)
    with "1.IH" [OF u _ False s _ d] rec lt "1.prems"(1) show ?thesis by auto
  qed
qed

lemma elements_loop_ok:
  assumes "returns (amf0_ok n) dv"
  shows "list_all (amf0_ok n) vs \<Longrightarrow> elements_loop dv k r vs = Some (ws, r') \<Longrightarrow>
    list_all (amf0_ok n) ws \<and> length ws = length vs + k"
proof (induction k arbitrary: r vs)
  case 0
  then show ?case by simp
next
  case (Suc k)
  from Suc.prems obtain v r1 where d: "dv r = Some (v, r1)"
    and rec: "elements_loop dv k r1 (vs @ [v]) = Some (ws, r')" by (auto split: option.splits)
  have "amf0_ok n v" using assms d by (auto simp: returns_def)
  with Suc.IH [OF _ rec] Suc.prems(1) show ?case by simp
qed

lemma decode_value_ok: "returns (amf0_ok n) (decode_value n)"
proof (induction n)
  case 0
  show ?case by (simp add: returns_def)
next
  case (Suc n)
  have "returns (props_ok n) (\<lambda>r. properties_loop (decode_value n) r [])"
    using properties_loop_ok [OF Suc.IH, of "[]"]
    by (auto simp: returns_def props_ok_def names_ok_def)
  moreover have "returns (\<lambda>vs. list_all (amf0_ok n) vs \<and> length vs = k)
      (\<lambda>r. elements_loop (decode_value n) k r [])" for k
    using elements_loop_ok [OF Suc.IH, of "[]" k] by (auto simp: returns_def)
  moreover have "unat len < 2 ^ 32" for len :: u16 using u16_bound [of len] by simp
  moreover have "unat len < 2 ^ 32" for len :: u32
    by (rule order_less_le_trans [OF unsigned_less]) simp
  moreover have "decode_value (Suc n) = (\<lambda>r. decode_value (Suc n) r)" ..
  ultimately show ?case
    unfolding decode_value.simps
    by - (rule returns_bind returns_readers returns_intros | assumption | simp add: props_ok_def)+
qed

section \<open>Sequences of values\<close>

lemma decode_rest: "decode_value n r = Some (v, r') \<Longrightarrow> r' = drop (length r - length r') r"
  by (erule decode_value_prefix) simp

lemma amf0_decode_loop_all:
  "amf0_decode_loop data pos values = map_option ((@) values) (amf0_decode_all (drop pos data))"
proof -
  have shift: "amf0_decode_loop data (pos + k) (values @ ws)
      = map_option ((@) values) (amf0_decode_loop (drop pos data) k ws)" for k ws
  proof (induction "length data - (pos + k)" arbitrary: k ws rule: less_induct)
    case less
    show ?case
    proof (cases "pos + k < length data")
      case True
      have "drop k (drop pos data) = drop (pos + k) data" by (simp add: add.commute)
      moreover have "k < length (drop pos data)" using True by simp
      ultimately show ?thesis
        using True less [of "k + n" "ws @ [v]" for n v]
        by (subst (1 2) amf0_decode_loop.simps)
          (auto split: option.splits dest!: amf0_decode_consumed simp: add.assoc)
    next
      case False
      then have "\<not> k < length (drop pos data)" by simp
      with False show ?thesis by (subst (1 2) amf0_decode_loop.simps) simp
    qed
  qed
  from shift [of 0 "[]"] show ?thesis by (simp add: amf0_decode_all_def)
qed

interpretation amf0: list_codec "\<lambda>v. amf0_encode v []" "decode_value (Suc kMaxDepth)"
  "amf0_ok (Suc kMaxDepth)" amf0_decode_all
proof
  show "decode_value (Suc kMaxDepth) (amf0_encode v [] @ rest) = Some (v, rest)"
    if "amf0_ok (Suc kMaxDepth) v" for v rest using that by (rule decode_encode)
  show "length rest < length bs" if "decode_value (Suc kMaxDepth) bs = Some (v, rest)" for bs v rest
    using that by (rule decode_value_shrinks)
  show "amf0_decode_all bs = (if bs = [] then Some [] else case decode_value (Suc kMaxDepth) bs of
      None \<Rightarrow> None | Some (v, rest) \<Rightarrow> map_option (Cons v) (amf0_decode_all rest))" for bs
  proof (cases "decode_value (Suc kMaxDepth) bs")
    case None
    then show ?thesis
      unfolding amf0_decode_all_def by (subst amf0_decode_loop.simps) (simp add: amf0_decode_def)
  next
    case (Some p)
    obtain v rest where p: "p = (v, rest)" by (cases p)
    then have "drop (length bs - length rest) bs = rest"
      using Some decode_rest [of "Suc kMaxDepth" bs v rest] by simp
    moreover have "amf0_decode bs = Some (v, length bs - length rest)"
      using Some p by (simp add: amf0_decode_def)
    moreover have "amf0_decode_all bs = amf0_decode_loop bs (length bs - length rest) [v]" if "bs \<noteq> []"
      using that calculation(2) unfolding amf0_decode_all_def by (subst amf0_decode_loop.simps) simp
    moreover have "amf0_decode_all [] = Some []"
      unfolding amf0_decode_all_def by (subst amf0_decode_loop.simps) simp
    moreover have "(@) [v] = (#) v" by (rule ext) simp
    ultimately show ?thesis using Some p by (simp add: amf0_decode_loop_all)
  qed
qed

lemma encode_all: "fold amf0_encode vs out = out @ concat (map (\<lambda>v. amf0_encode v []) vs)"
  by (induction vs arbitrary: out) (simp_all add: encode_extends_simps(3))

section \<open>Properties\<close>

lemma kMaxDepth_Suc: "kMaxDepth = Suc 31"
  by (simp add: kMaxDepth_def)

text \<open>
  C20. AMF0 round trip: a sequence of values, each within the format's limits (at most 33 levels,
  property names distinct and of 1 to 65535 bytes, lengths below 2^32), encoded one after the
  other, is decoded by \<open>amf0_decode_all\<close> to exactly those values; and one value is decoded
  from the front of any input, consuming exactly its encoding.
\<close>

theorem amf0_roundtrip:
  assumes "list_all (amf0_ok (Suc kMaxDepth)) (v # vs)"
  shows "amf0_decode_all (fold amf0_encode (v # vs) []) = Some (v # vs)
    \<and> amf0_decode (amf0_encode v [] @ rest) = Some (v, length (amf0_encode v []))"
proof
  show "amf0_decode_all (fold amf0_encode (v # vs) []) = Some (v # vs)"
    using amf0.dec_all_concat [OF assms] encode_all [of "v # vs" "[]"] by simp
  show "amf0_decode (amf0_encode v [] @ rest) = Some (v, length (amf0_encode v []))"
    using assms amf0.dec_enc [of v rest] by (simp add: amf0_decode_def)
qed

theorem amf0_roundtrip_witness:
  "amf0_decode_all (fold amf0_encode [Amf_String ''connect'', Amf_Object [(''app'', Amf_String ''live'')]] [])
     = Some [Amf_String ''connect'', Amf_Object [(''app'', Amf_String ''live'')]]
   \<and> amf0_decode (amf0_encode (Amf_String ''connect'') [] @ [5])
     = Some (Amf_String ''connect'', length (amf0_encode (Amf_String ''connect'') []))"
  by (rule amf0_roundtrip) (simp add: names_ok_def kMaxDepth_Suc del: Suc_numeral)

text \<open>
  C21. Whatever bytes arrive, a decoded value respects the format's limits, was read from a
  non-empty prefix of the input, does not depend on what follows that prefix, and encodes to
  bytes that decode to it again.
\<close>

theorem amf0_decode_sound:
  assumes "amf0_decode data = Some (v, n)"
  shows "0 < n \<and> n \<le> length data \<and> amf0_ok (Suc kMaxDepth) v
    \<and> amf0_decode (take n data @ ext) = Some (v, n)
    \<and> amf0_decode (amf0_encode v [] @ ext) = Some (v, length (amf0_encode v []))"
proof -
  obtain r where d: "decode_value (Suc kMaxDepth) data = Some (v, r)" and n: "n = length data - length r"
    using assms by (auto simp: amf0_decode_def)
  obtain c where c: "data = c @ r" and "decode_value (Suc kMaxDepth) (c @ ext) = Some (v, ext)"
    using decode_value_prefix [OF d] by metis
  have ok: "amf0_ok (Suc kMaxDepth) v" using decode_value_ok d unfolding returns_def by blast
  note \<open>decode_value (Suc kMaxDepth) (c @ ext) = Some (v, ext)\<close>
  moreover have "take n data = c" using n c by simp
  ultimately have "amf0_decode (take n data @ ext) = Some (v, n)" using n c by (simp add: amf0_decode_def)
  then show ?thesis
    using amf0_decode_consumed [OF assms] ok amf0.dec_enc [OF ok, of ext] by (simp add: amf0_decode_def)
qed

theorem amf0_decode_sound_witness:
  "0 < (2 :: nat) \<and> 2 \<le> length [1, 7, 3 :: byte] \<and> amf0_ok (Suc kMaxDepth) (Amf_Boolean True)
    \<and> amf0_decode (take 2 [1, 7, 3] @ [9]) = Some (Amf_Boolean True, 2)
    \<and> amf0_decode (amf0_encode (Amf_Boolean True) [] @ [9])
        = Some (Amf_Boolean True, length (amf0_encode (Amf_Boolean True) []))"
  by (rule amf0_decode_sound) code_simp

text \<open>
  Properties behave like an ordered map: \<open>set\<close> is accepted exactly on objects and ECMA
  arrays; afterwards \<open>find\<close> returns the new value for that name and what it returned before
  for every other name, and the number of properties grows exactly when the name is new.
\<close>

theorem amf0_find_set:
  "(if (\<exists>ps. v = Amf_Object ps \<or> v = Amf_EcmaArray ps)
    then \<exists>v'. Amf0Value_set key x v = Some v'
      \<and> (\<forall>k. Amf0Value_find k v' = (if k = key then Some x else Amf0Value_find k v))
      \<and> length (amf_properties v') = length (amf_properties v)
          + (if Amf0Value_find key v = None then 1 else 0)
    else Amf0Value_set key x v = None)"
proof -
  have f: "find_property k (set_property key x ps) = (if k = key then Some x else find_property k ps)" for k ps
    by (induction ps) auto
  have l: "length (set_property key x ps) = length ps + (if find_property key ps = None then 1 else 0)" for ps
    by (induction key x ps rule: set_property.induct) auto
  show ?thesis by (cases v) (simp_all add: Amf0Value_find_def f l)
qed

end
