(* ===== verification/Server_Session.thy ===== *)
theory Server_Session
  imports Chunk_Roundtrip Handshake Amf0
begin

text \<open>
  \<^verbatim>\<open>rtmp/src/server_session.cpp\<close>: one RTMP session of a publisher or player.

  The session thread's \<open>run\<close> is one step per returning \<^verbatim>\<open>recv\<close> (\<open>session_recv\<close>); between these steps
  other threads may \<open>send\<close> or \<open>close\<close>. The handlers that are invoked, and the shutdown of the socket,
  are appended to \<open>ss_log\<close>, the bytes that went out to \<open>ss_wire\<close>. The return value of the \<open>k\<close>-th
  \<^verbatim>\<open>::send\<close> is the parameter \<open>sock\<close>, the random bytes of the handshake are \<open>rng\<close>. A handler that
  throws is caught by the code: it is the same as one that returns.

  A chunk writer whose loop did not end would leave the session in \<open>write\<close> for ever: \<open>ss_stuck\<close>. It is
  shown never to happen.
\<close>

section \<open>The code\<close>

definition kAckWindow :: u32 where "kAckWindow = 2500000"
definition kOutChunkSize :: u32 where "kOutChunkSize = 4096"

record SessionEvents =
  ev_on_message :: bool
  ev_on_connect :: bool
  ev_on_stream :: bool
  ev_on_close :: bool

datatype session_event =
    Ses_Message RtmpMessage
  | Ses_Connect string
  | Ses_Stream string bool
  | Ses_Close
  | Ses_Shutdown

datatype session_phase = Ph_Handshake | Ph_Message | Ph_Finished

record Session =
  ss_events :: SessionEvents
  ss_handshake :: HandshakeResponder
  ss_reader :: ChunkReader
  ss_writer :: ChunkWriter
  ss_app :: string
  ss_stream_name :: string
  ss_publishing :: bool
  ss_received :: u64
  ss_last_ack :: u64
  ss_closing :: bool
  ss_phase :: session_phase
  ss_log :: "session_event list"
  ss_wire :: bytes
  ss_sends :: nat
  ss_stuck :: bool

definition ServerSession_new :: "SessionEvents \<Rightarrow> Session" where
  "ServerSession_new events = \<lparr>ss_events = events, ss_handshake = HandshakeResponder_new,
     ss_reader = ChunkReader_new, ss_writer = ChunkWriter_new kDefaultChunkSize,
     ss_app = '''', ss_stream_name = '''', ss_publishing = False, ss_received = 0, ss_last_ack = 0,
     ss_closing = False, ss_phase = Ph_Handshake, ss_log = [], ss_wire = [], ss_sends = 0, ss_stuck = False\<rparr>"

definition ses_note :: "session_event \<Rightarrow> Session \<Rightarrow> Session" where
  "ses_note e s = s\<lparr>ss_log := ss_log s @ [e]\<rparr>"

text \<open>\<open>send_all\<close>: success, the bytes written, and the number of \<^verbatim>\<open>::send\<close> calls so far.\<close>

function send_all :: "(nat \<Rightarrow> int) \<Rightarrow> bytes \<Rightarrow> nat \<Rightarrow> bool \<times> bytes \<times> nat" where
  "send_all sock data k =
     (if data = [] then (True, [], k)
      else if sock k \<le> 0 then (False, [], Suc k)
      else let n = nat (sock k)
           in case send_all sock (drop n data) (Suc k) of (ok, w, k') \<Rightarrow> (ok, take n data @ w, k'))"
  by pat_completeness auto
termination
  by (relation "measure (\<lambda>(sock, data, k). length data)") auto

declare send_all.simps [simp del]

definition socket_write :: "(nat \<Rightarrow> int) \<Rightarrow> bytes \<Rightarrow> Session \<Rightarrow> bool \<times> Session" where
  "socket_write sock data s =
     (case send_all sock data (ss_sends s) of
        (ok, w, k) \<Rightarrow> (ok, s\<lparr>ss_wire := ss_wire s @ w, ss_sends := k\<rparr>))"

definition make_command :: "u32 \<Rightarrow> u32 \<Rightarrow> Amf0Value list \<Rightarrow> RtmpMessage" where
  "make_command csid msid values =
     empty_message\<lparr>m_chunk_stream_id := csid, m_type := kTypeCommandAmf0, m_message_stream_id := msid,
       m_payload := fold amf0_encode values []\<rparr>"

definition session_status_info :: "string \<Rightarrow> string \<Rightarrow> (string \<times> Amf0Value) list" where
  "session_status_info code desc =
     set_property ''description'' (Amf_String desc)
       (set_property ''code'' (Amf_String code)
         (set_property ''level'' (Amf_String ''status'') []))"

definition make_control :: "byte \<Rightarrow> bytes \<Rightarrow> RtmpMessage" where
  "make_control type payload =
     empty_message\<lparr>m_chunk_stream_id := 2, m_type := type, m_message_stream_id := 0, m_payload := payload\<rparr>"

definition u32be :: "u32 \<Rightarrow> bytes" where
  "u32be v = [ucast (drop_bit 24 v), ucast (drop_bit 16 v), ucast (drop_bit 8 v), ucast v]"

definition send_message :: "(nat \<Rightarrow> int) \<Rightarrow> RtmpMessage \<Rightarrow> Session \<Rightarrow> bool \<times> Session" where
  "send_message sock m s =
     (case ChunkWriter_write (ss_writer s) m [] of
        None \<Rightarrow> (False, s\<lparr>ss_stuck := True\<rparr>)
      | Some (False, wire) \<Rightarrow> (False, s)
      | Some (True, wire) \<Rightarrow> socket_write sock wire s)"

definition send_chunk_size :: "(nat \<Rightarrow> int) \<Rightarrow> Session \<Rightarrow> Session" where
  "send_chunk_size sock s =
     (case ChunkWriter_set_chunk_size kOutChunkSize (ss_writer s) [] of
        None \<Rightarrow> s\<lparr>ss_stuck := True\<rparr>
      | Some (w, wire) \<Rightarrow> snd (socket_write sock wire (s\<lparr>ss_writer := w\<rparr>)))"

definition send_command :: "(nat \<Rightarrow> int) \<Rightarrow> u32 \<Rightarrow> u32 \<Rightarrow> Amf0Value list \<Rightarrow> Session \<Rightarrow> Session" where
  "send_command sock csid msid values s = snd (send_message sock (make_command csid msid values) s)"

text \<open>The branches of \<open>handle_command\<close>.\<close>

definition command_connect :: "(nat \<Rightarrow> int) \<Rightarrow> Amf0Value list \<Rightarrow> u64 \<Rightarrow> Session \<Rightarrow> Session" where
  "command_connect sock values txn s =
     (let s = (if 2 < length values then
                 (case Amf0Value_find ''app'' (values ! 2) of
                    Some (Amf_String a) \<Rightarrow> s\<lparr>ss_app := a\<rparr>
                  | _ \<Rightarrow> s)
               else s);
          s = snd (send_message sock (make_control kTypeWindowAckSize (u32be kAckWindow)) s);
          s = snd (send_message sock (make_control kTypeSetPeerBandwidth (u32be kAckWindow @ [2])) s);
          s = send_chunk_size sock s;
          props = Amf_Object (set_property ''capabilities'' (Amf_Number 0x403F000000000000)
                    (set_property ''fmsVer'' (Amf_String ''FMS/3,0,1,123'') []));
          info = Amf_Object (set_property ''objectEncoding'' (Amf_Number 0)
                   (session_status_info ''NetConnection.Connect.Success'' ''Connection succeeded.''));
          s = send_command sock 3 0 [Amf_String ''_result'', Amf_Number txn, props, info] s
      in if ev_on_connect (ss_events s) then ses_note (Ses_Connect (ss_app s)) s else s)"

definition command_create_stream :: "(nat \<Rightarrow> int) \<Rightarrow> u64 \<Rightarrow> Session \<Rightarrow> Session" where
  "command_create_stream sock txn s =
     send_command sock 3 0 [Amf_String ''_result'', Amf_Number txn, Amf_Null, Amf_Number 0x3FF0000000000000] s"

definition set_stream_name :: "Amf0Value list \<Rightarrow> Session \<Rightarrow> Session" where
  "set_stream_name values s =
     (if 3 < length values then
        (case values ! 3 of Amf_String n \<Rightarrow> s\<lparr>ss_stream_name := n\<rparr> | _ \<Rightarrow> s)
      else s)"

definition on_status :: "string \<Rightarrow> string \<Rightarrow> Amf0Value list" where
  "on_status code desc = [Amf_String ''onStatus'', Amf_Number 0, Amf_Null, Amf_Object (session_status_info code desc)]"

definition command_publish :: "(nat \<Rightarrow> int) \<Rightarrow> Amf0Value list \<Rightarrow> Session \<Rightarrow> Session" where
  "command_publish sock values s =
     (let s = (set_stream_name values s)\<lparr>ss_publishing := True\<rparr>;
          s = send_command sock 5 1 (on_status ''NetStream.Publish.Start'' (''Publishing '' @ ss_stream_name s)) s
      in if ev_on_stream (ss_events s) then ses_note (Ses_Stream (ss_stream_name s) True) s else s)"

definition command_play :: "(nat \<Rightarrow> int) \<Rightarrow> Amf0Value list \<Rightarrow> Session \<Rightarrow> Session" where
  "command_play sock values s =
     (let s = set_stream_name values s;
          s = snd (send_message sock (make_control kTypeUserControl ([0, 0] @ u32be 1)) s);
          s = send_command sock 5 1 (on_status ''NetStream.Play.Reset'' (''Resetting '' @ ss_stream_name s)) s;
          s = send_command sock 5 1 (on_status ''NetStream.Play.Start'' (''Playing '' @ ss_stream_name s)) s
      in if ev_on_stream (ss_events s) then ses_note (Ses_Stream (ss_stream_name s) False) s else s)"

definition session_message :: "RtmpMessage \<Rightarrow> Session \<Rightarrow> Session" where
  "session_message m s = (if ev_on_message (ss_events s) then ses_note (Ses_Message m) s else s)"

definition handle_command :: "(nat \<Rightarrow> int) \<Rightarrow> RtmpMessage \<Rightarrow> Session \<Rightarrow> Session" where
  "handle_command sock m s =
     (case amf0_decode_all (m_payload m) of
        Some (Amf_String name # rest) \<Rightarrow>
          (let values = Amf_String name # rest;
               txn = (case rest of Amf_Number n # _ \<Rightarrow> n | _ \<Rightarrow> 0)
           in if name = ''connect'' then command_connect sock values txn s
              else if name = ''createStream'' then command_create_stream sock txn s
              else if name = ''publish'' then command_publish sock values s
              else if name = ''play'' then command_play sock values s
              else session_message m s)
      | _ \<Rightarrow> s)"

definition maybe_ack :: "(nat \<Rightarrow> int) \<Rightarrow> Session \<Rightarrow> Session" where
  "maybe_ack sock s =
     (if ucast kAckWindow \<le> ss_received s - ss_last_ack s then
        snd (send_message sock (make_control kTypeAcknowledgement (u32be (ucast (ss_received s AND 0xFFFFFFFF))))
               (s\<lparr>ss_last_ack := ss_received s\<rparr>))
      else s)"

definition is_protocol_control :: "byte \<Rightarrow> bool" where
  "is_protocol_control ty \<longleftrightarrow> ty = kTypeSetChunkSize \<or> ty = kTypeAbort \<or> ty = kTypeAcknowledgement
     \<or> ty = kTypeWindowAckSize \<or> ty = kTypeSetPeerBandwidth"

definition dispatch :: "(nat \<Rightarrow> int) \<Rightarrow> RtmpMessage \<Rightarrow> Session \<Rightarrow> Session" where
  "dispatch sock m s =
     (if m_type m = kTypeCommandAmf0 then handle_command sock m s
      else if is_protocol_control (m_type m) then s
      else session_message m s)"

text \<open>The loop of \<open>drain_ready\<close>, one message at a time, with the messages of the reader.\<close>

function drain_ready :: "(nat \<Rightarrow> int) \<Rightarrow> ChunkReader \<Rightarrow> Session \<Rightarrow> Session" where
  "drain_ready sock r s =
     (case ChunkReader_next r of
        (None, r) \<Rightarrow> s\<lparr>ss_reader := r\<rparr>
      | (Some m, r) \<Rightarrow> drain_ready sock r (dispatch sock m s))"
  by pat_completeness auto
termination
  by (relation "measure (\<lambda>(sock, r, s). length (cr_ready r))")
    (auto simp: ChunkReader_next_def split: list.splits)

declare drain_ready.simps [simp del]

definition finish :: "bool \<Rightarrow> Session \<Rightarrow> Session" where
  "finish shut s =
     (let s = (if shut then ses_note Ses_Shutdown s else s);
          s = (if ev_on_close (ss_events s) then ses_note Ses_Close s else s)
      in s\<lparr>ss_phase := Ph_Finished\<rparr>)"

text \<open>Bytes for the chunk reader, with what \<open>run\<close> does for them; a failed reader ends the session.\<close>

definition take_bytes :: "(nat \<Rightarrow> int) \<Rightarrow> bytes \<Rightarrow> Session \<Rightarrow> Session" where
  "take_bytes sock bytes s =
     (let s = s\<lparr>ss_received := ss_received s + of_nat (length bytes),
                ss_reader := ChunkReader_feed bytes (ss_reader s)\<rparr>
      in if cr_failed (ss_reader s) then finish True s
         else maybe_ack sock (drain_ready sock (ss_reader s) s))"

definition start_messages :: "(nat \<Rightarrow> int) \<Rightarrow> Session \<Rightarrow> Session" where
  "start_messages sock s =
     (case HandshakeResponder_take_leftover (ss_handshake s) of
        (leftover, h) \<Rightarrow>
          (let s = s\<lparr>ss_handshake := h, ss_phase := Ph_Message\<rparr>
           in if leftover \<noteq> [] then take_bytes sock leftover s else s))"

definition handshake_bytes :: "(nat \<Rightarrow> byte) \<Rightarrow> (nat \<Rightarrow> int) \<Rightarrow> bytes \<Rightarrow> Session \<Rightarrow> Session" where
  "handshake_bytes rng sock bytes s =
     (case HandshakeResponder_feed rng bytes (ss_handshake s) [] of
        (ok, h, out) \<Rightarrow>
          (let s = s\<lparr>ss_handshake := h\<rparr>
           in if \<not> ok then finish True s
              else (case (if out \<noteq> [] then socket_write sock out s else (True, s)) of
                      (sent, s) \<Rightarrow>
                        if \<not> sent then finish False s
                        else if HandshakeResponder_done (ss_handshake s) then start_messages sock s
                        else s)))"

text \<open>One \<^verbatim>\<open>recv\<close> of \<open>run\<close>: its bytes, none for the end of the stream or an error.\<close>

definition session_recv :: "(nat \<Rightarrow> byte) \<Rightarrow> (nat \<Rightarrow> int) \<Rightarrow> bytes \<Rightarrow> Session \<Rightarrow> Session" where
  "session_recv rng sock bytes s =
     (case ss_phase s of
        Ph_Handshake \<Rightarrow>
          if bytes = [] \<or> ss_closing s then finish False s else handshake_bytes rng sock bytes s
      | Ph_Message \<Rightarrow>
          if bytes = [] \<or> ss_closing s then finish True s else take_bytes sock bytes s
      | Ph_Finished \<Rightarrow> s)"

definition ServerSession_send :: "(nat \<Rightarrow> int) \<Rightarrow> RtmpMessage \<Rightarrow> Session \<Rightarrow> bool \<times> Session" where
  "ServerSession_send sock msg s = send_message sock msg s"

definition ServerSession_close :: "Session \<Rightarrow> Session" where
  "ServerSession_close s = ses_note Ses_Shutdown (s\<lparr>ss_closing := True\<rparr>)"

definition ServerSession_app :: "Session \<Rightarrow> string" where
  "ServerSession_app s = ss_app s"

definition ServerSession_stream_name :: "Session \<Rightarrow> string" where
  "ServerSession_stream_name s = ss_stream_name s"

definition ServerSession_publishing :: "Session \<Rightarrow> bool" where
  "ServerSession_publishing s = ss_publishing s"

section \<open>What sending leaves alone\<close>

lemma send_message_fields [simp]:
  "ss_log (snd (send_message sock m s)) = ss_log s"
  "ss_app (snd (send_message sock m s)) = ss_app s"
  "ss_stream_name (snd (send_message sock m s)) = ss_stream_name s"
  "ss_publishing (snd (send_message sock m s)) = ss_publishing s"
  "ss_events (snd (send_message sock m s)) = ss_events s"
  "ss_closing (snd (send_message sock m s)) = ss_closing s"
  "ss_phase (snd (send_message sock m s)) = ss_phase s"
  "ss_reader (snd (send_message sock m s)) = ss_reader s"
  "ss_handshake (snd (send_message sock m s)) = ss_handshake s"
  "ss_received (snd (send_message sock m s)) = ss_received s"
  "ss_last_ack (snd (send_message sock m s)) = ss_last_ack s"
  by (simp_all add: send_message_def socket_write_def split: option.split prod.split bool.split)

lemma send_chunk_size_fields [simp]:
  "ss_log (send_chunk_size sock s) = ss_log s"
  "ss_app (send_chunk_size sock s) = ss_app s"
  "ss_stream_name (send_chunk_size sock s) = ss_stream_name s"
  "ss_publishing (send_chunk_size sock s) = ss_publishing s"
  "ss_events (send_chunk_size sock s) = ss_events s"
  "ss_closing (send_chunk_size sock s) = ss_closing s"
  "ss_phase (send_chunk_size sock s) = ss_phase s"
  "ss_reader (send_chunk_size sock s) = ss_reader s"
  "ss_handshake (send_chunk_size sock s) = ss_handshake s"
  "ss_received (send_chunk_size sock s) = ss_received s"
  "ss_last_ack (send_chunk_size sock s) = ss_last_ack s"
  by (simp_all add: send_chunk_size_def socket_write_def split: option.split prod.split bool.split)

lemma send_command_fields [simp]:
  "ss_log (send_command sock csid msid vs s) = ss_log s"
  "ss_app (send_command sock csid msid vs s) = ss_app s"
  "ss_stream_name (send_command sock csid msid vs s) = ss_stream_name s"
  "ss_publishing (send_command sock csid msid vs s) = ss_publishing s"
  "ss_events (send_command sock csid msid vs s) = ss_events s"
  "ss_closing (send_command sock csid msid vs s) = ss_closing s"
  "ss_phase (send_command sock csid msid vs s) = ss_phase s"
  "ss_reader (send_command sock csid msid vs s) = ss_reader s"
  "ss_handshake (send_command sock csid msid vs s) = ss_handshake s"
  "ss_received (send_command sock csid msid vs s) = ss_received s"
  "ss_last_ack (send_command sock csid msid vs s) = ss_last_ack s"
  by (simp_all add: send_command_def)

lemma maybe_ack_fields [simp]:
  "ss_log (maybe_ack sock s) = ss_log s"
  "ss_app (maybe_ack sock s) = ss_app s"
  "ss_stream_name (maybe_ack sock s) = ss_stream_name s"
  "ss_publishing (maybe_ack sock s) = ss_publishing s"
  "ss_events (maybe_ack sock s) = ss_events s"
  "ss_closing (maybe_ack sock s) = ss_closing s"
  "ss_phase (maybe_ack sock s) = ss_phase s"
  "ss_reader (maybe_ack sock s) = ss_reader s"
  "ss_handshake (maybe_ack sock s) = ss_handshake s"
  "ss_received (maybe_ack sock s) = ss_received s"
  by (simp_all add: maybe_ack_def)

text \<open>What the handlers and the accessors can see of a session.\<close>

definition session_core :: "Session \<Rightarrow> session_event list \<times> string \<times> string \<times> bool \<times> SessionEvents \<times> bool \<times> session_phase" where
  "session_core s = (ss_log s, ss_app s, ss_stream_name s, ss_publishing s, ss_events s, ss_closing s, ss_phase s)"

lemma set_stream_name_fields [simp]:
  "ss_reader (set_stream_name vs s) = ss_reader s"
  "ss_received (set_stream_name vs s) = ss_received s"
  "ss_phase (set_stream_name vs s) = ss_phase s"
  "ss_closing (set_stream_name vs s) = ss_closing s"
  "ss_events (set_stream_name vs s) = ss_events s"
  "ss_last_ack (set_stream_name vs s) = ss_last_ack s"
  "ss_handshake (set_stream_name vs s) = ss_handshake s"
  by (simp_all add: set_stream_name_def split: Amf0Value.split)

lemma command_fields [simp]:
  "ss_reader (command_connect sock vs txn s) = ss_reader s"
  "ss_received (command_connect sock vs txn s) = ss_received s"
  "ss_phase (command_connect sock vs txn s) = ss_phase s"
  "ss_closing (command_connect sock vs txn s) = ss_closing s"
  "ss_events (command_connect sock vs txn s) = ss_events s"
  "ss_last_ack (command_connect sock vs txn s) = ss_last_ack s"
  "ss_handshake (command_connect sock vs txn s) = ss_handshake s"
  by (simp_all add: command_connect_def ses_note_def Let_def split: option.split Amf0Value.split)

lemma command_stream_fields [simp]:
  "ss_reader (command_create_stream sock txn s) = ss_reader s"
  "ss_received (command_create_stream sock txn s) = ss_received s"
  "ss_phase (command_create_stream sock txn s) = ss_phase s"
  "ss_closing (command_create_stream sock txn s) = ss_closing s"
  "ss_events (command_create_stream sock txn s) = ss_events s"
  "ss_last_ack (command_create_stream sock txn s) = ss_last_ack s"
  "ss_handshake (command_create_stream sock txn s) = ss_handshake s"
  by (simp_all add: command_create_stream_def)

lemma command_publish_fields [simp]:
  "ss_reader (command_publish sock vs s) = ss_reader s"
  "ss_received (command_publish sock vs s) = ss_received s"
  "ss_phase (command_publish sock vs s) = ss_phase s"
  "ss_closing (command_publish sock vs s) = ss_closing s"
  "ss_events (command_publish sock vs s) = ss_events s"
  "ss_last_ack (command_publish sock vs s) = ss_last_ack s"
  "ss_handshake (command_publish sock vs s) = ss_handshake s"
  by (simp_all add: command_publish_def ses_note_def Let_def)

lemma command_play_fields [simp]:
  "ss_reader (command_play sock vs s) = ss_reader s"
  "ss_received (command_play sock vs s) = ss_received s"
  "ss_phase (command_play sock vs s) = ss_phase s"
  "ss_closing (command_play sock vs s) = ss_closing s"
  "ss_events (command_play sock vs s) = ss_events s"
  "ss_last_ack (command_play sock vs s) = ss_last_ack s"
  "ss_handshake (command_play sock vs s) = ss_handshake s"
  by (simp_all add: command_play_def ses_note_def Let_def)

lemma session_message_fields [simp]:
  "ss_reader (session_message m s) = ss_reader s"
  "ss_received (session_message m s) = ss_received s"
  "ss_phase (session_message m s) = ss_phase s"
  "ss_closing (session_message m s) = ss_closing s"
  "ss_events (session_message m s) = ss_events s"
  "ss_last_ack (session_message m s) = ss_last_ack s"
  "ss_handshake (session_message m s) = ss_handshake s"
  by (simp_all add: session_message_def ses_note_def)

lemma handle_command_cases:
  obtains "\<And>s sock. handle_command sock m s = s"
  | vs txn where "\<And>s sock. handle_command sock m s = command_connect sock vs txn s"
  | txn where "\<And>s sock. handle_command sock m s = command_create_stream sock txn s"
  | vs where "\<And>s sock. handle_command sock m s = command_publish sock vs s"
  | vs where "\<And>s sock. handle_command sock m s = command_play sock vs s"
  | "\<And>s sock. handle_command sock m s = session_message m s"
proof (cases "\<exists>name rest. amf0_decode_all (m_payload m) = Some (Amf_String name # rest)")
  case True
  then obtain name rest where v: "amf0_decode_all (m_payload m) = Some (Amf_String name # rest)" by blast
  consider "name = ''connect''" | "name = ''createStream''" | "name = ''publish''" | "name = ''play''"
    | "name \<notin> {''connect'', ''createStream'', ''publish'', ''play''}" by auto
  then show thesis
    by cases (use that v in \<open>simp_all add: handle_command_def Let_def\<close>)
next
  case False
  then have "handle_command sock m s = s" for sock s
    by (auto simp: handle_command_def split: option.split list.split Amf0Value.split)
  then show thesis by (rule that(1))
qed

lemma dispatch_reader [simp]:
  "ss_reader (dispatch sock m s) = ss_reader s"
  "ss_received (dispatch sock m s) = ss_received s"
  "ss_phase (dispatch sock m s) = ss_phase s"
  "ss_closing (dispatch sock m s) = ss_closing s"
  "ss_events (dispatch sock m s) = ss_events s"
  "ss_last_ack (dispatch sock m s) = ss_last_ack s"
  "ss_handshake (dispatch sock m s) = ss_handshake s"
  by (cases rule: handle_command_cases [of m]; simp add: dispatch_def)+

lemma core_commands:
  assumes "session_core s = session_core t"
  shows "session_core (session_message m s) = session_core (session_message m t)"
    and "session_core (set_stream_name vs s) = session_core (set_stream_name vs t)"
    and "session_core (command_create_stream sock txn s) = session_core (command_create_stream sock' txn t)"
    and "session_core (command_connect sock vs txn s) = session_core (command_connect sock' vs txn t)"
proof -
  show "session_core (session_message m s) = session_core (session_message m t)"
    "session_core (set_stream_name vs s) = session_core (set_stream_name vs t)"
    "session_core (command_create_stream sock txn s) = session_core (command_create_stream sock' txn t)"
    using assms
    by (simp_all add: session_core_def session_message_def set_stream_name_def command_create_stream_def ses_note_def
        split: Amf0Value.split)
  show "session_core (command_connect sock vs txn s) = session_core (command_connect sock' vs txn t)"
    using assms
    by (simp add: session_core_def command_connect_def ses_note_def Let_def split: option.split Amf0Value.split)
qed

lemma core_stream_commands:
  assumes "session_core s = session_core t"
  shows "session_core (command_publish sock vs s) = session_core (command_publish sock' vs t)"
    and "session_core (command_play sock vs s) = session_core (command_play sock' vs t)"
  using core_commands(2) [OF assms, of vs]
  by (simp_all add: session_core_def command_publish_def command_play_def ses_note_def Let_def)

lemma core_dispatch: "session_core s = session_core t \<Longrightarrow> session_core (dispatch sock m s) = session_core (dispatch sock' m t)"
  by (cases rule: handle_command_cases [of m])
    (auto simp: dispatch_def intro: core_commands core_stream_commands)

lemma core_dispatches:
  "session_core s = session_core t \<Longrightarrow> session_core (fold (dispatch sock) ms s) = session_core (fold (dispatch sock') ms t)"
proof (induction ms arbitrary: s t)
  case (Cons m ms)
  then show ?case using core_dispatch [OF Cons.prems, of sock m sock'] by simp
qed simp

lemma drain_ready_all:
  "drain_ready sock r s = (fold (dispatch sock) (cr_ready r) s)\<lparr>ss_reader := r\<lparr>cr_ready := []\<rparr>\<rparr>"
proof (induction "cr_ready r" arbitrary: r s)
  case Nil
  then show ?case by (subst drain_ready.simps) (simp add: ChunkReader_next_def)
next
  case (Cons m ms)
  then show ?case by (subst drain_ready.simps) (simp add: ChunkReader_next_def flip: Cons(2))
qed

section \<open>Messages taken between two receives\<close>

lemma chunk_scan_ready: "chunk_scan (r\<lparr>cr_ready := ms\<rparr>) = chunk_scan r"
  by (simp add: chunk_scan_def chunk_body_scan_def chunk_locals_def chunk_extended_def csid_state_def Let_def
      cong: option.case_cong if_cong)

lemma apply_control_ready:
  "apply_control m (r\<lparr>cr_ready := ms @ cr_ready r\<rparr>) = (apply_control m r)\<lparr>cr_ready := ms @ cr_ready (apply_control m r)\<rparr>"
  by (simp add: apply_control_def Let_def split: option.split)

lemma chunk_commit_ready:
  "chunk_commit l (r\<lparr>cr_ready := ms @ cr_ready r\<rparr>) = (chunk_commit l r)\<lparr>cr_ready := ms @ cr_ready (chunk_commit l r)\<rparr>"
proof -
  have "ChunkReader_finalize csid st (r\<lparr>cr_ready := ms @ cr_ready r\<rparr>)
      = (ChunkReader_finalize csid st r)\<lparr>cr_ready := ms @ cr_ready (ChunkReader_finalize csid st r)\<rparr>" for csid st r
  proof -
    let ?upd = "\<lambda>r. r\<lparr>cr_streams := (cr_streams r)(csid \<mapsto> st\<lparr>cs_assembling := []\<rparr>),
      cr_assembling_bytes := cr_assembling_bytes r - min (cr_assembling_bytes r) (length (cs_assembling st))\<rparr>"
    have "?upd (r\<lparr>cr_ready := ms @ cr_ready r\<rparr>) = (?upd r)\<lparr>cr_ready := ms @ cr_ready (?upd r)\<rparr>" by (cases r) simp
    with apply_control_ready [of "ready_message csid st" ms "?upd r"] show ?thesis
      unfolding ChunkReader_finalize_def by metis
  qed
  from this [of _ _ "r\<lparr>cr_buffer := b, cr_streams := m, cr_assembling_bytes := n\<rparr>" for b m n] show ?thesis
    by (cases r) (simp add: chunk_commit_def csid_state_def Let_def)
qed

lemma ChunkReader_step_ready:
  "ChunkReader_step (r\<lparr>cr_ready := ms @ cr_ready r\<rparr>)
     = map_prod (\<lambda>r. r\<lparr>cr_ready := ms @ cr_ready r\<rparr>) id (ChunkReader_step r)"
  by (simp add: ChunkReader_step_def chunk_scan_ready chunk_commit_ready touch_csid_def csid_state_def
      split: scan_result.split)

lemma ChunkReader_parse_ready:
  "ChunkReader_parse (r\<lparr>cr_ready := ms @ cr_ready r\<rparr>)
     = (ChunkReader_parse r)\<lparr>cr_ready := ms @ cr_ready (ChunkReader_parse r)\<rparr>"
proof (induction r rule: ChunkReader_parse.induct)
  case (1 r)
  then show ?case
    using ChunkReader_step_ready [of ms r]
    by (cases "ChunkReader_step r")
      (auto simp: ChunkReader_parse.simps [of r] ChunkReader_parse.simps [of "r\<lparr>cr_ready := ms @ cr_ready r\<rparr>"])
qed

interpretation chunk_messages: draining ChunkReader_feed cr_ready "\<lambda>ms. cr_ready_update (\<lambda>_. ms)"
proof
  show "ChunkReader_feed b (s\<lparr>cr_ready := ms @ cr_ready s\<rparr>)
      = (ChunkReader_feed b s)\<lparr>cr_ready := ms @ cr_ready (ChunkReader_feed b s)\<rparr>" for b ms s
    using ChunkReader_parse_ready [of ms "s\<lparr>cr_buffer := cr_buffer s @ b\<rparr>"]
    by (cases s) (auto simp: ChunkReader_feed_def)
qed simp_all

lemma failed_latched: "cr_failed r \<Longrightarrow> fold ChunkReader_feed bs r = r"
  by (induction bs) (simp_all add: ChunkReader_feed_def)

section \<open>The session keeps its promises\<close>

definition sending_ok :: "Session \<Rightarrow> bool" where
  "sending_ok s \<longleftrightarrow> writer_inv (ss_writer s) \<and> \<not> ss_stuck s"

lemma sending_ok_send [simp]: "sending_ok s \<Longrightarrow> sending_ok (snd (send_message sock m s))"
  by (simp add: sending_ok_def send_message_def socket_write_def write_bytes split: prod.split)

lemma sending_ok_chunk_size [simp]: "sending_ok s \<Longrightarrow> sending_ok (send_chunk_size sock s)"
  using set_chunk_size_eq [of "ss_writer s" kOutChunkSize "[]"]
  by (simp add: sending_ok_def send_chunk_size_def socket_write_def valid_size_def kOutChunkSize_def writer_inv_def
      split: prod.split)

lemma sending_ok_command [simp]: "sending_ok s \<Longrightarrow> sending_ok (send_command sock csid msid vs s)"
  by (simp add: send_command_def)

lemma sending_ok_fields [simp]:
  "sending_ok (ses_note e s) = sending_ok s"
  "sending_ok (s\<lparr>ss_app := a\<rparr>) = sending_ok s"
  "sending_ok (s\<lparr>ss_stream_name := a\<rparr>) = sending_ok s"
  "sending_ok (s\<lparr>ss_publishing := b\<rparr>) = sending_ok s"
  "sending_ok (s\<lparr>ss_last_ack := w\<rparr>) = sending_ok s"
  "sending_ok (s\<lparr>ss_reader := r\<rparr>) = sending_ok s"
  "sending_ok (s\<lparr>ss_phase := p\<rparr>) = sending_ok s"
  "sending_ok (s\<lparr>ss_received := w\<rparr>) = sending_ok s"
  "sending_ok (s\<lparr>ss_handshake := h\<rparr>) = sending_ok s"
  "sending_ok (s\<lparr>ss_closing := b\<rparr>) = sending_ok s"
  by (simp_all add: sending_ok_def ses_note_def)

lemma sending_ok_handlers:
  assumes "sending_ok s"
  shows "sending_ok (session_message m s)" "sending_ok (set_stream_name vs s)"
    "sending_ok (command_create_stream sock txn s)" "sending_ok (command_connect sock vs txn s)"
  using assms
  by (simp_all add: session_message_def set_stream_name_def command_create_stream_def command_connect_def Let_def
      split: option.split Amf0Value.split)

lemma sending_ok_streams:
  assumes "sending_ok s"
  shows "sending_ok (command_publish sock vs s)" "sending_ok (command_play sock vs s)"
  using sending_ok_handlers(2) [OF assms] by (simp_all add: command_publish_def command_play_def Let_def)

lemma sending_ok_dispatch: "sending_ok s \<Longrightarrow> sending_ok (dispatch sock m s)"
  by (cases rule: handle_command_cases [of m])
    (simp_all add: dispatch_def sending_ok_handlers sending_ok_streams)

lemma sending_ok_dispatches: "sending_ok s \<Longrightarrow> sending_ok (fold (dispatch sock) ms s)"
  by (induction ms arbitrary: s) (simp_all add: sending_ok_dispatch)

lemma sending_ok_ack: "sending_ok s \<Longrightarrow> sending_ok (maybe_ack sock s)"
  by (simp add: maybe_ack_def)

text \<open>No handler runs the close event.\<close>

lemma closes_handlers:
  "Ses_Close \<in> set (ss_log (session_message m s)) \<longleftrightarrow> Ses_Close \<in> set (ss_log s)"
  "ss_log (set_stream_name vs s) = ss_log s"
  "Ses_Close \<in> set (ss_log (command_create_stream sock txn s)) \<longleftrightarrow> Ses_Close \<in> set (ss_log s)"
  "Ses_Close \<in> set (ss_log (command_connect sock vs txn s)) \<longleftrightarrow> Ses_Close \<in> set (ss_log s)"
  by (simp_all add: session_message_def set_stream_name_def command_create_stream_def command_connect_def ses_note_def
      Let_def split: option.split Amf0Value.split)

lemma closes_dispatch: "Ses_Close \<in> set (ss_log (dispatch sock m s)) \<longleftrightarrow> Ses_Close \<in> set (ss_log s)"
  by (cases rule: handle_command_cases [of m])
    (simp_all add: dispatch_def closes_handlers command_publish_def command_play_def ses_note_def Let_def)

lemma closes_dispatches: "Ses_Close \<in> set (ss_log (fold (dispatch sock) ms s)) \<longleftrightarrow> Ses_Close \<in> set (ss_log s)"
  by (induction ms arbitrary: s) (simp_all add: closes_dispatch)

text \<open>The handlers that ran; a shutdown of the socket is not one.\<close>

definition handled :: "Session \<Rightarrow> session_event list" where
  "handled s = filter (\<lambda>e. e \<noteq> Ses_Shutdown) (ss_log s)"

definition session_inv :: "Session \<Rightarrow> bool" where
  "session_inv s \<longleftrightarrow> sending_ok s
     \<and> (if ss_phase s = Ph_Finished then True else ss_received s - ss_last_ack s < ucast kAckWindow)
     \<and> (if ss_phase s = Ph_Finished \<and> ev_on_close (ss_events s)
        then \<exists>xs. handled s = xs @ [Ses_Close] \<and> Ses_Close \<notin> set xs
        else Ses_Close \<notin> set (ss_log s))"

lemma session_inv_new: "session_inv (ServerSession_new events)"
  by (simp add: session_inv_def sending_ok_def ServerSession_new_def ChunkWriter_new_inv kAckWindow_def)

lemma session_inv_finish:
  assumes "sending_ok s" and "Ses_Close \<notin> set (ss_log s)"
  shows "session_inv (finish shut s)"
proof (cases "ev_on_close (ss_events s)")
  case True
  then have "handled (finish shut s) = handled s @ [Ses_Close]" "ss_events (finish shut s) = ss_events s"
    by (simp_all add: handled_def finish_def ses_note_def Let_def)
  moreover have "Ses_Close \<notin> set (handled s)" using assms(2) by (simp add: handled_def)
  moreover have "ss_phase (finish shut s) = Ph_Finished" "sending_ok (finish shut s)"
    using assms(1) by (simp_all add: finish_def Let_def)
  ultimately show ?thesis using True by (simp add: session_inv_def)
next
  case False
  with assms show ?thesis by (simp add: session_inv_def finish_def ses_note_def sending_ok_def Let_def)
qed

lemma maybe_ack_window: "ss_received (maybe_ack sock s) - ss_last_ack (maybe_ack sock s) < ucast kAckWindow"
  by (simp add: maybe_ack_def kAckWindow_def linorder_not_le)

lemma session_inv_take_bytes:
  assumes "sending_ok s" and "Ses_Close \<notin> set (ss_log s)" and "ss_phase s = Ph_Message"
  shows "session_inv (take_bytes sock bs s)"
proof -
  define s1 where "s1 = s\<lparr>ss_received := ss_received s + of_nat (length bs), ss_reader := ChunkReader_feed bs (ss_reader s)\<rparr>"
  define s2 where "s2 = drain_ready sock (ss_reader s1) s1"
  have 1: "sending_ok s1" "Ses_Close \<notin> set (ss_log s1)" "ss_phase s1 = Ph_Message"
    using assms by (simp_all add: s1_def)
  have 2: "sending_ok s2" "Ses_Close \<notin> set (ss_log s2)"
    using 1 by (simp_all add: s2_def drain_ready_all sending_ok_dispatches closes_dispatches)
  have "ss_phase (fold (dispatch sock) ms s) = ss_phase s" for ms s
    by (induction ms arbitrary: s) simp_all
  with 1 have "ss_phase s2 = Ph_Message" by (simp add: s2_def drain_ready_all)
  with 2 have "session_inv (maybe_ack sock s2)"
    using maybe_ack_window [of sock s2] by (simp add: session_inv_def sending_ok_ack)
  moreover have "take_bytes sock bs s = (if cr_failed (ss_reader s1) then finish True s1 else maybe_ack sock s2)"
    by (simp add: take_bytes_def s1_def s2_def Let_def)
  ultimately show ?thesis using session_inv_finish [OF 1(1,2)] by simp
qed

lemma session_inv_start:
  assumes "session_inv s" and "ss_phase s = Ph_Handshake"
  shows "session_inv (start_messages sock s)"
proof -
  obtain l h where l: "HandshakeResponder_take_leftover (ss_handshake s) = (l, h)"
    by (cases "HandshakeResponder_take_leftover (ss_handshake s)")
  let ?s = "s\<lparr>ss_handshake := h, ss_phase := Ph_Message\<rparr>"
  have "session_inv ?s" using assms by (simp add: session_inv_def sending_ok_def)
  moreover have "session_inv (take_bytes sock l ?s)"
    by (rule session_inv_take_bytes) (use assms in \<open>simp_all add: session_inv_def sending_ok_def\<close>)
  ultimately show ?thesis using l by (simp add: start_messages_def Let_def)
qed

lemma session_inv_handshake:
  assumes "session_inv s" and "ss_phase s = Ph_Handshake"
  shows "session_inv (handshake_bytes rng sock bs s)"
proof -
  obtain ok h out where f: "HandshakeResponder_feed rng bs (ss_handshake s) [] = (ok, h, out)"
    by (cases "HandshakeResponder_feed rng bs (ss_handshake s) []")
  let ?s = "s\<lparr>ss_handshake := h\<rparr>"
  obtain sent s1 where w: "(if out \<noteq> [] then socket_write sock out ?s else (True, ?s)) = (sent, s1)"
    by (cases "if out \<noteq> [] then socket_write sock out ?s else (True, ?s)")
  then have "session_inv s1 \<and> ss_phase s1 = Ph_Handshake"
    using assms by (auto simp: session_inv_def sending_ok_def socket_write_def split: prod.splits if_splits)
  moreover have "session_inv (finish True ?s)"
    by (rule session_inv_finish) (use assms in \<open>simp_all add: session_inv_def\<close>)
  moreover have "session_inv (finish False s1)" if "session_inv s1" "ss_phase s1 = Ph_Handshake"
    by (rule session_inv_finish) (use that in \<open>simp_all add: session_inv_def\<close>)
  ultimately show ?thesis
    using f w session_inv_start [of s1 sock] by (simp add: handshake_bytes_def Let_def)
qed

datatype session_call = Recv bytes | Send RtmpMessage | Close

fun run_session_call :: "(nat \<Rightarrow> byte) \<Rightarrow> (nat \<Rightarrow> int) \<Rightarrow> session_call \<Rightarrow> Session \<Rightarrow> Session" where
  "run_session_call rng sock (Recv bs) s = session_recv rng sock bs s"
| "run_session_call rng sock (Send m) s = snd (ServerSession_send sock m s)"
| "run_session_call rng sock Close s = ServerSession_close s"

lemma session_inv_call: "session_inv s \<Longrightarrow> session_inv (run_session_call rng sock c s)"
proof (cases c)
  case (Recv bs)
  assume inv: "session_inv s"
  show ?thesis
  proof (cases "ss_phase s")
    case Ph_Handshake
    with inv Recv session_inv_finish [of s] session_inv_handshake [of s] show ?thesis
      by (simp add: session_recv_def) (simp add: session_inv_def)
  next
    case Ph_Message
    with inv Recv session_inv_finish [of s] session_inv_take_bytes [of s] show ?thesis
      by (simp add: session_recv_def) (simp add: session_inv_def)
  next
    case Ph_Finished
    with inv Recv show ?thesis by (simp add: session_recv_def)
  qed
next
  case (Send m)
  assume "session_inv s"
  moreover have "handled (snd (send_message sock m s)) = handled s" by (simp add: handled_def)
  ultimately show ?thesis using Send by (simp add: ServerSession_send_def session_inv_def)
next
  case Close
  assume "session_inv s"
  moreover have "handled (ServerSession_close s) = handled s"
    by (simp add: handled_def ServerSession_close_def ses_note_def)
  ultimately show ?thesis
    using Close by (simp add: session_inv_def) (simp add: ServerSession_close_def ses_note_def sending_ok_def)
qed

interpretation session_calls: guarded_ops "run_session_call rng sock" session_inv for rng sock
  by unfold_locales (rule session_inv_call)

section \<open>Delivery\<close>

lemma core_fields:
  "session_core (s\<lparr>ss_reader := r\<rparr>) = session_core s"
  "session_core (s\<lparr>ss_received := w\<rparr>) = session_core s"
  "session_core (maybe_ack sock s) = session_core s"
  by (simp_all add: session_core_def)

lemma core_phase: "session_core s = session_core t \<Longrightarrow> ss_phase s = ss_phase t \<and> ss_closing s = ss_closing t"
  by (simp add: session_core_def)

lemma take_bytes_core:
  assumes "\<not> cr_failed (ChunkReader_feed b (ss_reader s))"
  shows "session_core (take_bytes sock b s) = session_core (fold (dispatch sock) (cr_ready (ChunkReader_feed b (ss_reader s))) s)
    \<and> ss_reader (take_bytes sock b s) = (ChunkReader_feed b (ss_reader s))\<lparr>cr_ready := []\<rparr>
    \<and> ss_received (take_bytes sock b s) = ss_received s + of_nat (length b)"
proof -
  let ?r = "ChunkReader_feed b (ss_reader s)"
  let ?s = "s\<lparr>ss_received := ss_received s + of_nat (length b), ss_reader := ?r\<rparr>"
  have "take_bytes sock b s = maybe_ack sock ((fold (dispatch sock) (cr_ready ?r) ?s)\<lparr>ss_reader := ?r\<lparr>cr_ready := []\<rparr>\<rparr>)"
    using assms by (simp add: take_bytes_def drain_ready_all Let_def)
  moreover have "session_core (fold (dispatch sock) (cr_ready ?r) ?s) = session_core (fold (dispatch sock) (cr_ready ?r) s)"
    by (rule core_dispatches) (simp add: session_core_def)
  moreover have "ss_received (fold (dispatch sock) ms s) = ss_received s" for ms s
    by (induction ms arbitrary: s) simp_all
  ultimately show ?thesis by (simp add: core_fields)
qed

lemma session_recvs_core:
  assumes "ss_phase s = Ph_Message" "\<not> ss_closing s" "cr_ready (ss_reader s) = []"
    and "[] \<notin> set bs" and "\<not> cr_failed (fold ChunkReader_feed bs (ss_reader s))"
  shows "session_core (fold (session_recv rng sock) bs s)
      = session_core (fold (dispatch sock) (cr_ready (fold ChunkReader_feed bs (ss_reader s))) s)
    \<and> ss_received (fold (session_recv rng sock) bs s) = ss_received s + of_nat (length (concat bs))"
  using assms
proof (induction bs arbitrary: s)
  case (Cons b bs)
  let ?r = "ChunkReader_feed b (ss_reader s)"
  have ok: "\<not> cr_failed ?r" using Cons.prems(5) failed_latched [of ?r bs] by auto
  define t where "t = take_bytes sock b s"
  have recv: "session_recv rng sock b s = t"
    using Cons.prems by (auto simp: session_recv_def t_def)
  note t = take_bytes_core [OF ok, of sock, folded t_def]
  have fr: "ss_phase (fold (dispatch sock) ms s) = ss_phase s \<and> ss_closing (fold (dispatch sock) ms s) = ss_closing s" for ms s
    by (induction ms arbitrary: s) simp_all
  have ph: "ss_phase t = Ph_Message" "\<not> ss_closing t"
    using core_phase [OF conjunct1 [OF t]] fr Cons.prems(1,2) by simp_all
  have rest: "cr_ready (fold ChunkReader_feed bs ?r) = cr_ready ?r @ cr_ready (fold ChunkReader_feed bs (ss_reader t))"
    and alive: "\<not> cr_failed (fold ChunkReader_feed bs (ss_reader t))"
    using chunk_messages.fold_drained [of bs ?r] t Cons.prems(5) by simp_all
  have "session_core (fold (session_recv rng sock) bs t)
      = session_core (fold (dispatch sock) (cr_ready (fold ChunkReader_feed bs (ss_reader t))) t)
      \<and> ss_received (fold (session_recv rng sock) bs t) = ss_received t + of_nat (length (concat bs))"
    by (rule Cons.IH) (use ph t alive Cons.prems(4) in simp_all)
  moreover have "session_core (fold (dispatch sock) ms t)
      = session_core (fold (dispatch sock) ms (fold (dispatch sock) (cr_ready ?r) s))" for ms
    by (rule core_dispatches) (simp add: t)
  ultimately show ?case using recv rest t by (simp add: add.assoc)
qed simp

lemma session_serves_core:
  assumes "list_all call_ok cs" and "run_writer cs (ChunkWriter_new kDefaultChunkSize) [] = Some (w, out)"
    and "concat bs = out" "bs \<noteq> []" "[] \<notin> set bs"
    and "ss_phase s = Ph_Message" "\<not> ss_closing s" "ss_reader s = ChunkReader_new"
  shows "session_core (fold (session_recv rng sock) bs s)
      = session_core (fold (dispatch sock) (concat (map expected_messages cs)) s)
    \<and> ss_received (fold (session_recv rng sock) bs s) = ss_received s + of_nat (length out)"
proof -
  obtain r where r: "fold ChunkReader_feed bs ChunkReader_new = r" "cr_ready r = concat (map expected_messages cs)" "\<not> cr_failed r"
    using run_writer_feed [OF assms(1)] assms(2-4) by (metis option.inject prod.inject)
  then show ?thesis
    using session_recvs_core [OF assms(6,7) _ assms(5), of rng sock] assms(3,8)
    by (simp add: ChunkReader_new_def)
qed

lemma send_all_succeeds:
  assumes "\<forall>k. 0 < sock k"
  shows "fst (send_all sock data k)"
proof (induction data arbitrary: k rule: length_induct)
  case (1 data)
  then show ?case
  proof (cases "data = []")
    case False
    then have "length (drop (nat (sock k)) data) < length data" using assms by simp
    with 1 have "fst (send_all sock (drop (nat (sock k)) data) (Suc k))" by blast
    moreover have "\<not> sock k \<le> 0" using assms by (simp add: not_le)
    ultimately show ?thesis
      by (subst send_all.simps) (cases "send_all sock (drop (nat (sock k)) data) (Suc k)", simp add: Let_def)
  qed (simp add: send_all.simps)
qed

lemma socket_write_succeeds:
  assumes "\<forall>k. 0 < sock k"
  obtains s' where "socket_write sock data s = (True, s')" "session_core s' = session_core s" "ss_reader s' = ss_reader s"
    "ss_handshake s' = ss_handshake s" "ss_phase s' = ss_phase s" "ss_closing s' = ss_closing s"
  using send_all_succeeds [OF assms, of data "ss_sends s"] that
  by (cases "send_all sock data (ss_sends s)") (simp add: socket_write_def session_core_def)

text \<open>The handshake of a peer that echoes what it was sent, and the session after it.\<close>

abbreviation client_hello :: "(nat \<Rightarrow> byte) \<Rightarrow> bytes \<Rightarrow> bytes list" where
  "client_hello rng c1 \<equiv> [[kRtmpVersion] @ c1, make_echo (make_packet rng)]"

lemma session_handshake:
  assumes sock: "\<forall>k. 0 < sock k" and c1: "length c1 = kHandshakePacketSize"
  shows "let s = fold (session_recv rng sock) (client_hello rng c1) (ServerSession_new ev) in
    session_core s = session_core (ServerSession_new ev\<lparr>ss_phase := Ph_Message\<rparr>) \<and> ss_reader s = ChunkReader_new"
proof -
  define h where "h = \<lparr>hr_state = WaitC2, hr_buffer = [], hr_s1 = make_packet rng\<rparr>"
  let ?s0 = "ServerSession_new ev" and ?out = "[kRtmpVersion] @ make_packet rng @ make_echo c1"
  have new: "ss_phase ?s0 = Ph_Handshake" "\<not> ss_closing ?s0" "ss_handshake ?s0 = HandshakeResponder_new"
    "ss_reader ?s0 = ChunkReader_new"
    by (simp_all add: ServerSession_new_def)
  have f1: "HandshakeResponder_feed rng ([kRtmpVersion] @ c1) HandshakeResponder_new [] = (True, h, ?out)"
    using c1 packet_pos by (simp add: HandshakeResponder_feed_def HandshakeResponder_new_def responder_c2_def h_def Let_def)
  obtain s1 where s1: "socket_write sock ?out (?s0\<lparr>ss_handshake := h\<rparr>) = (True, s1)"
    "session_core s1 = session_core (?s0\<lparr>ss_handshake := h\<rparr>)" "ss_reader s1 = ChunkReader_new" "ss_handshake s1 = h"
    "ss_phase s1 = Ph_Handshake" "\<not> ss_closing s1"
    using socket_write_succeeds [OF sock, of ?out "?s0\<lparr>ss_handshake := h\<rparr>"] new by auto
  have r1: "session_recv rng sock ([kRtmpVersion] @ c1) ?s0 = s1"
    using f1 s1 new by (simp add: session_recv_def handshake_bytes_def HandshakeResponder_done_def Let_def) (simp add: h_def)
  have "make_echo (make_packet rng) \<noteq> []" using length_make_echo [of "make_packet rng"] packet_pos by (metis length_make_packet less_nat_zero_code list.size(3))
  moreover have "HandshakeResponder_feed rng (make_echo (make_packet rng)) h []
      = (True, h\<lparr>hr_state := R_Done\<rparr>, [])"
    by (simp add: HandshakeResponder_feed_def responder_c2_def h_def Let_def)
  ultimately have r2: "session_recv rng sock (make_echo (make_packet rng)) s1
      = s1\<lparr>ss_handshake := h\<lparr>hr_state := R_Done\<rparr>, ss_phase := Ph_Message\<rparr>"
    using s1 by (simp add: session_recv_def handshake_bytes_def HandshakeResponder_done_def start_messages_def
        HandshakeResponder_take_leftover_def Let_def) (simp add: h_def)
  show ?thesis using r1 r2 s1 by (simp add: session_core_def)
qed

text \<open>A whole connection: the handshake, then the chunks of the peer's writer in pieces of any size.\<close>

lemma session_connection:
  assumes sock: "\<forall>k. 0 < sock k" and c1: "length c1 = kHandshakePacketSize"
    and w: "list_all call_ok cs" "run_writer cs (ChunkWriter_new kDefaultChunkSize) [] = Some (w, out)"
      "concat bs = out" "bs \<noteq> []" "[] \<notin> set bs"
  shows "session_core (fold (session_recv rng sock) (client_hello rng c1 @ bs) (ServerSession_new ev))
    = session_core (fold (dispatch sock) (concat (map expected_messages cs)) (ServerSession_new ev\<lparr>ss_phase := Ph_Message\<rparr>))"
proof -
  define s where "s = fold (session_recv rng sock) (client_hello rng c1) (ServerSession_new ev)"
  have s: "session_core s = session_core (ServerSession_new ev\<lparr>ss_phase := Ph_Message\<rparr>)" "ss_reader s = ChunkReader_new"
    using session_handshake [OF sock c1, of rng ev] by (simp_all add: s_def Let_def)
  then have "ss_phase s = Ph_Message" "\<not> ss_closing s" using core_phase [OF s(1)] by (simp_all add: ServerSession_new_def)
  with session_serves_core [OF w this(1) _ s(2), of rng sock] core_dispatches [OF s(1)]
  show ?thesis by (simp add: s_def)
qed

section \<open>Properties\<close>

text \<open>
  C12. A session serves what the peer sent: in the message phase, whatever messages and chunk-size
  changes a peer put through its chunk writer and however the bytes are cut into receives, the
  handlers, the application and stream names and the publishing flag end as if the messages had
  been dispatched one after the other, and every byte is counted.
\<close>

theorem session_serves:
  assumes "list_all call_ok cs" and "run_writer cs (ChunkWriter_new kDefaultChunkSize) [] = Some (w, out)"
    and "concat bs = out" "bs \<noteq> []" "[] \<notin> set bs"
    and "ss_phase s = Ph_Message" "\<not> ss_closing s" "ss_reader s = ChunkReader_new"
  shows "session_core (fold (session_recv rng sock) bs s)
      = session_core (fold (dispatch sock) (concat (map expected_messages cs)) s)
    \<and> ss_received (fold (session_recv rng sock) bs s) = ss_received s + of_nat (length out)"
  using assms by (rule session_serves_core)

definition demo_session :: Session where
  "demo_session = (ServerSession_new \<lparr>ev_on_message = True, ev_on_connect = False, ev_on_stream = False, ev_on_close = True\<rparr>)
     \<lparr>ss_phase := Ph_Message\<rparr>"

abbreviation demo_writes :: "writer_call list" where
  "demo_writes \<equiv> [Set_Size 2, Write sample_message]"

lemma demo_writes_ok: "list_all call_ok demo_writes"
  by (simp add: deliverable_def writable_def plain_message_def sample_message_def message_types kMaxMessageSize_def)

lemma demo_written: "concat (map expected_messages demo_writes) = [size_message 2, sample_message]"
  by (simp add: valid_size_def)

lemma demo_stream:
  obtains w out where "run_writer demo_writes (ChunkWriter_new kDefaultChunkSize) [] = Some (w, out)" "out \<noteq> []"
proof -
  obtain w out r where run: "run_writer demo_writes (ChunkWriter_new kDefaultChunkSize) [] = Some (w, out)"
    and r: "\<And>ds. ds \<noteq> [] \<Longrightarrow> concat ds = out \<Longrightarrow> fold ChunkReader_feed ds ChunkReader_new = r"
      "cr_ready r = concat (map expected_messages demo_writes)"
    using run_writer_feed [OF demo_writes_ok] by metis
  have "out \<noteq> []"
  proof
    assume "out = []"
    with r(1) [of "[[]]"] have "r = ChunkReader_parse ChunkReader_new"
      by (simp add: ChunkReader_feed_def ChunkReader_new_def)
    then have "r = ChunkReader_new"
      by (subst (asm) ChunkReader_parse.simps) (simp add: ChunkReader_step_def chunk_scan_def ChunkReader_new_def)
    with r(2) demo_written show False by (simp add: ChunkReader_new_def)
  qed
  with run show thesis by (rule that)
qed

theorem session_serves_witness:
  "\<exists>w out. run_writer [Set_Size 2, Write sample_message] (ChunkWriter_new kDefaultChunkSize) [] = Some (w, out)
     \<and> ss_log (session_recv (\<lambda>_. 0) (\<lambda>_. 1) out demo_session) = [Ses_Message sample_message]"
proof -
  obtain w out where run: "run_writer demo_writes (ChunkWriter_new kDefaultChunkSize) [] = Some (w, out)" "out \<noteq> []"
    by (rule demo_stream)
  note ms = demo_written
  from run(2) session_serves [OF demo_writes_ok run(1), of "[out]" demo_session "\<lambda>_. 0" "\<lambda>_. 1"] ms
  have "session_core (session_recv (\<lambda>_. 0) (\<lambda>_. 1) out demo_session)
      = session_core (dispatch (\<lambda>_. 1) sample_message (dispatch (\<lambda>_. 1) (size_message 2) demo_session))"
    by (simp add: demo_session_def ServerSession_new_def)
  then have "ss_log (session_recv (\<lambda>_. 0) (\<lambda>_. 1) out demo_session) = [Ses_Message sample_message]"
    by (simp add: session_core_def dispatch_def is_protocol_control_def message_types size_message_def sample_message_def
        session_message_def ses_note_def demo_session_def ServerSession_new_def)
  with run(1) show ?thesis by blast
qed


end
