(* ===== verification/Listener.thy ===== *)
theory Listener
  imports Server_Session
begin

text \<open>
  The \<open>Listener\<close> of \<^verbatim>\<open>rtmp/src/server_session.cpp\<close>: the accept thread, one thread per session, and the
  shutdown of all of them.

  What a listener serves is a value of any type \<open>'g\<close>, with the events factory the application
  passed to \<open>start\<close> and the handlers it installs. A session is known by its address, a number; the
  allocator may hand out an address again once its session was destroyed. A thread is a program
  counter or, for a session thread, the state of its session with the number of events whose handlers
  have returned: the handlers a \<^verbatim>\<open>recv\<close> leads to run one after the other, and other threads may run in
  between. \<open>stop\<close> is cut at its locks and joins.

  A factory may close other sessions through pointers the application kept. A call through a
  pointer to a session that was destroyed is undefined behaviour: \<open>ln_fault\<close>.
\<close>

section \<open>The code\<close>

datatype accept_pc =
    Acc_None       \<comment> \<open>no accept thread\<close>
  | Acc_Check      \<comment> \<open>the head of its loop\<close>
  | Acc_Accept     \<comment> \<open>in \<^verbatim>\<open>::accept\<close>\<close>
  | Acc_Exited     \<comment> \<open>ended, not joined\<close>

datatype stop_pc = Stop_Idle | Stop_Shutdown | Stop_Join_Accept | Stop_Close_Sessions | Stop_Join_Sessions

record SessionSlot =
  sl_ptr :: nat
  sl_session :: Session
  sl_handled :: nat
  sl_exited :: bool

record Listener =
  ln_listen_fd :: bool        \<comment> \<open>\<^verbatim>\<open>listen_fd >= 0\<close>\<close>
  ln_shut :: bool             \<comment> \<open>the listening socket was shut down\<close>
  ln_accept :: accept_pc
  ln_slots :: "SessionSlot list"
  ln_running :: bool
  ln_stop :: stop_pc
  ln_fault :: bool

type_synonym 'g factory = "nat \<Rightarrow> 'g \<Rightarrow> SessionEvents \<times> nat list \<times> 'g"
type_synonym 'g handler = "nat \<Rightarrow> session_event \<Rightarrow> 'g \<Rightarrow> 'g"

definition Listener_new :: Listener where
  "Listener_new = \<lparr>ln_listen_fd = False, ln_shut = False, ln_accept = Acc_None, ln_slots = [], ln_running = False,
     ln_stop = Stop_Idle, ln_fault = False\<rparr>"

abbreviation pointers :: "Listener \<Rightarrow> nat list" where
  "pointers l \<equiv> map sl_ptr (ln_slots l)"

definition map_slot :: "nat \<Rightarrow> (SessionSlot \<Rightarrow> SessionSlot) \<Rightarrow> Listener \<Rightarrow> Listener" where
  "map_slot ptr f l = l\<lparr>ln_slots := map (\<lambda>sl. if sl_ptr sl = ptr then f sl else sl) (ln_slots l)\<rparr>"

text \<open>A call of another thread through a pointer to a session.\<close>

definition session_call :: "nat \<Rightarrow> (Session \<Rightarrow> Session) \<Rightarrow> Listener \<Rightarrow> Listener" where
  "session_call ptr f l =
     (if ptr \<in> set (pointers l) then map_slot ptr (sl_session_update f) l else l\<lparr>ln_fault := True\<rparr>)"

text \<open>
  \<open>start\<close>, with the answers of \<^verbatim>\<open>socket\<close>, \<^verbatim>\<open>bind\<close> and \<^verbatim>\<open>listen\<close>. Assigning to a thread object whose thread
  was not joined ends the program.
\<close>

definition Listener_start :: "bool \<Rightarrow> bool \<Rightarrow> bool \<Rightarrow> Listener \<Rightarrow> bool \<times> Listener" where
  "Listener_start socket_ok bind_ok listen_ok l =
     (if ln_running l then (False, l)
      else if \<not> socket_ok then (False, l\<lparr>ln_listen_fd := False\<rparr>)
      else if \<not> bind_ok \<or> \<not> listen_ok then (False, l\<lparr>ln_listen_fd := False\<rparr>)
      else (True, l\<lparr>ln_listen_fd := True, ln_shut := False, ln_running := True, ln_accept := Acc_Check,
                    ln_fault := ln_fault l \<or> ln_accept l \<noteq> Acc_None\<rparr>))"

definition accept_check :: "Listener \<Rightarrow> Listener option" where
  "accept_check l =
     (if ln_accept l = Acc_Check then Some (l\<lparr>ln_accept := if ln_running l then Acc_Accept else Acc_Exited\<rparr>)
      else None)"

text \<open>
  \<^verbatim>\<open>accept\<close> returns: no descriptor, or a connection for which a session is made at some free
  address. A socket that was shut down gives no connection.
\<close>

definition accept_return :: "'g factory \<Rightarrow> nat option \<Rightarrow> Listener \<times> 'g \<Rightarrow> (Listener \<times> 'g) option" where
  "accept_return factory r lg =
     (case lg of (l, g) \<Rightarrow>
        if ln_accept l \<noteq> Acc_Accept then None
        else case r of
          None \<Rightarrow> Some (l\<lparr>ln_accept := Acc_Exited\<rparr>, g)
        | Some ptr \<Rightarrow>
            if ln_shut l \<or> ptr \<in> set (pointers l) then None
            else case factory ptr g of
              (events, closes, g) \<Rightarrow>
                (let l = fold (\<lambda>p. session_call p ServerSession_close) closes l
                 in Some (l\<lparr>ln_slots := ln_slots l @
                              [\<lparr>sl_ptr = ptr, sl_session = ServerSession_new events, sl_handled = 0, sl_exited = False\<rparr>],
                            ln_accept := Acc_Check\<rparr>, g)))"

text \<open>A session thread: the handlers of the last \<^verbatim>\<open>recv\<close> that have yet to run, and its three steps.\<close>

definition pending :: "SessionSlot \<Rightarrow> session_event list" where
  "pending sl = drop (sl_handled sl) (handled (sl_session sl))"

definition thread_recv :: "(nat \<Rightarrow> byte) \<Rightarrow> (nat \<Rightarrow> int) \<Rightarrow> bytes \<Rightarrow> SessionSlot \<Rightarrow> SessionSlot option" where
  "thread_recv rng sock bs sl =
     (if sl_exited sl \<or> pending sl \<noteq> [] \<or> ss_phase (sl_session sl) = Ph_Finished then None
      else Some (sl\<lparr>sl_session := session_recv rng sock bs (sl_session sl)\<rparr>))"

definition thread_event :: "SessionSlot \<Rightarrow> (session_event \<times> SessionSlot) option" where
  "thread_event sl =
     (case pending sl of [] \<Rightarrow> None | e # _ \<Rightarrow> Some (e, sl\<lparr>sl_handled := Suc (sl_handled sl)\<rparr>))"

definition thread_exit :: "SessionSlot \<Rightarrow> SessionSlot option" where
  "thread_exit sl =
     (if \<not> sl_exited sl \<and> pending sl = [] \<and> ss_phase (sl_session sl) = Ph_Finished
      then Some (sl\<lparr>sl_exited := True\<rparr>) else None)"

definition slot_at :: "nat \<Rightarrow> Listener \<Rightarrow> SessionSlot option" where
  "slot_at ptr l = find (\<lambda>sl. sl_ptr sl = ptr) (ln_slots l)"

text \<open>\<open>stop\<close>, cut at the join of the accept thread, the lock and the joins of the session threads.\<close>

fun Listener_stop_at :: "stop_pc \<Rightarrow> Listener \<Rightarrow> Listener option" where
  "Listener_stop_at Stop_Idle l =
     Some (if \<not> ln_running l then l else l\<lparr>ln_running := False, ln_stop := Stop_Shutdown\<rparr>)"
| "Listener_stop_at Stop_Shutdown l =
     Some (l\<lparr>ln_shut := ln_shut l \<or> ln_listen_fd l, ln_stop := Stop_Join_Accept\<rparr>)"
| "Listener_stop_at Stop_Join_Accept l =
     (if ln_accept l = Acc_Exited \<or> ln_accept l = Acc_None
      then Some (l\<lparr>ln_accept := Acc_None, ln_listen_fd := False, ln_stop := Stop_Close_Sessions\<rparr>) else None)"
| "Listener_stop_at Stop_Close_Sessions l =
     Some (l\<lparr>ln_slots := map (sl_session_update ServerSession_close) (ln_slots l), ln_stop := Stop_Join_Sessions\<rparr>)"
| "Listener_stop_at Stop_Join_Sessions l =
     (if list_all sl_exited (ln_slots l) then Some (l\<lparr>ln_slots := [], ln_stop := Stop_Idle\<rparr>) else None)"

definition Listener_stop :: "Listener \<Rightarrow> Listener option" where
  "Listener_stop l = Listener_stop_at (ln_stop l) l"

section \<open>Threads\<close>

datatype listener_action =
    Act_Start bool bool bool
  | Act_Stop
  | Act_Check
  | Act_Accept "nat option"
  | Act_Recv nat "nat \<Rightarrow> byte" "nat \<Rightarrow> int" bytes
  | Act_Event nat
  | Act_Exit nat

fun listener_do :: "'g factory \<Rightarrow> 'g handler \<Rightarrow> listener_action \<Rightarrow> Listener \<times> 'g \<Rightarrow> (Listener \<times> 'g) option" where
  "listener_do fac han (Act_Start a b c) (l, g) =
     (if ln_stop l = Stop_Idle then Some (snd (Listener_start a b c l), g) else None)"
| "listener_do fac han Act_Stop (l, g) = map_option (\<lambda>l. (l, g)) (Listener_stop l)"
| "listener_do fac han Act_Check (l, g) = map_option (\<lambda>l. (l, g)) (accept_check l)"
| "listener_do fac han (Act_Accept r) (l, g) = accept_return fac r (l, g)"
| "listener_do fac han (Act_Recv ptr rng sock bs) (l, g) =
     (case slot_at ptr l of
        None \<Rightarrow> None
      | Some sl \<Rightarrow> map_option (\<lambda>sl. (map_slot ptr (\<lambda>_. sl) l, g)) (thread_recv rng sock bs sl))"
| "listener_do fac han (Act_Event ptr) (l, g) =
     (case slot_at ptr l of
        None \<Rightarrow> None
      | Some sl \<Rightarrow> map_option (\<lambda>(e, sl). (map_slot ptr (\<lambda>_. sl) l, han ptr e g)) (thread_event sl))"
| "listener_do fac han (Act_Exit ptr) (l, g) =
     (case slot_at ptr l of
        None \<Rightarrow> None
      | Some sl \<Rightarrow> map_option (\<lambda>sl. (map_slot ptr (\<lambda>_. sl) l, g)) (thread_exit sl))"

fun is_start :: "listener_action \<Rightarrow> bool" where
  "is_start (Act_Start a b c) = True"
| "is_start _ = False"

inductive listener_steps :: "'g factory \<Rightarrow> 'g handler \<Rightarrow> listener_action list \<Rightarrow> Listener \<times> 'g \<Rightarrow> Listener \<times> 'g \<Rightarrow> bool"
  for fac :: "'g factory" and han :: "'g handler" where
  steps_refl: "listener_steps fac han [] s s"
| steps_snoc: "listener_steps fac han as s s' \<Longrightarrow> listener_do fac han a s' = Some s'' \<Longrightarrow> listener_steps fac han (as @ [a]) s s''"

fun listener_exec :: "'g factory \<Rightarrow> 'g handler \<Rightarrow> listener_action list \<Rightarrow> Listener \<times> 'g \<Rightarrow> (Listener \<times> 'g) option" where
  "listener_exec fac han [] s = Some s"
| "listener_exec fac han (a # as) s = Option.bind (listener_do fac han a s) (listener_exec fac han as)"

lemma listener_exec_append:
  "listener_exec fac han (as @ bs) s = Option.bind (listener_exec fac han as s) (listener_exec fac han bs)"
proof (induction as arbitrary: s)
  case (Cons a as)
  then show ?case by (cases "listener_do fac han a s") simp_all
qed simp

lemma listener_exec_from:
  "listener_steps fac han bs s0 s \<Longrightarrow> listener_exec fac han as s = Some s' \<Longrightarrow> listener_steps fac han (bs @ as) s0 s'"
proof (induction as arbitrary: bs s)
  case (Cons a as)
  then obtain s1 where "listener_do fac han a s = Some s1" "listener_exec fac han as s1 = Some s'"
    by (auto simp: bind_eq_Some_conv)
  with Cons.IH [OF steps_snoc [OF Cons.prems(1)]] show ?case by simp
qed simp

lemma listener_exec_steps: "listener_exec fac han as s = Some s' \<Longrightarrow> listener_steps fac han as s s'"
  using listener_exec_from [OF steps_refl] by fastforce

section \<open>What a session thread adds to the log\<close>

lemma command_log:
  "\<exists>ys. ss_log (session_message m s) = ss_log s @ ys"
  "\<exists>ys. ss_log (command_connect sock vs txn s) = ss_log s @ ys"
  "\<exists>ys. ss_log (command_create_stream sock txn s) = ss_log s @ ys"
  "\<exists>ys. ss_log (command_publish sock vs s) = ss_log s @ ys"
  "\<exists>ys. ss_log (command_play sock vs s) = ss_log s @ ys"
  by (simp_all add: session_message_def command_connect_def command_create_stream_def command_publish_def
      command_play_def ses_note_def closes_handlers(2) Let_def split: option.split Amf0Value.split)

lemma dispatch_log: "\<exists>ys. ss_log (dispatch sock m s) = ss_log s @ ys"
  by (cases rule: handle_command_cases [of m]) (simp_all add: dispatch_def command_log)

text \<open>A later state of a session: its log has grown, and its handlers and its closing flag are the same.\<close>

definition continues :: "Session \<Rightarrow> Session \<Rightarrow> bool" where
  "continues s t \<longleftrightarrow> (\<exists>ys. ss_log t = ss_log s @ ys) \<and> ss_events t = ss_events s \<and> ss_closing t = ss_closing s"

lemma continues_same:
  "ss_log t = ss_log s \<Longrightarrow> ss_events t = ss_events s \<Longrightarrow> ss_closing t = ss_closing s \<Longrightarrow> continues s t"
  by (simp add: continues_def)

lemma continues_trans [trans]: "continues s t \<Longrightarrow> continues t u \<Longrightarrow> continues s u"
  by (auto simp: continues_def)

lemma continues_dispatches: "continues s (fold (dispatch sock) ms s)"
proof (induction ms arbitrary: s)
  case (Cons m ms)
  have "continues s (dispatch sock m s)" using dispatch_log by (simp add: continues_def)
  with Cons [of "dispatch sock m s"] show ?case using continues_trans by auto
qed (simp add: continues_def)

lemma finish_log:
  "ss_log (finish shut s) = ss_log s @ (if shut then [Ses_Shutdown] else []) @ (if ev_on_close (ss_events s) then [Ses_Close] else [])"
  by (simp add: finish_def ses_note_def Let_def)

lemma continues_finish: "continues s (finish shut s)"
  by (simp add: continues_def finish_log) (simp add: finish_def ses_note_def Let_def)

lemma continues_take_bytes: "continues s (take_bytes sock bs s)"
proof -
  define t where "t = s\<lparr>ss_received := ss_received s + of_nat (length bs), ss_reader := ChunkReader_feed bs (ss_reader s)\<rparr>"
  have st: "continues s t" by (rule continues_same) (simp_all add: t_def)
  have tt: "take_bytes sock bs s = (if cr_failed (ss_reader t) then finish True t else maybe_ack sock (drain_ready sock (ss_reader t) t))"
    by (simp add: take_bytes_def t_def Let_def)
  have "continues t (drain_ready sock (ss_reader t) t)"
    using continues_dispatches [of t sock "cr_ready (ss_reader t)"] by (simp add: drain_ready_all continues_def)
  then have "continues t (maybe_ack sock (drain_ready sock (ss_reader t) t))"
    by (rule continues_trans) (simp add: continues_same)
  then show ?thesis using st continues_trans continues_finish tt by metis
qed

lemma continues_handshake: "continues s (handshake_bytes rng sock bs s)"
proof -
  obtain ok h out where f: "HandshakeResponder_feed rng bs (ss_handshake s) [] = (ok, h, out)"
    by (cases "HandshakeResponder_feed rng bs (ss_handshake s) []")
  define t where "t = s\<lparr>ss_handshake := h\<rparr>"
  obtain sent u where u: "(if out \<noteq> [] then socket_write sock out t else (True, t)) = (sent, u)"
    by (cases "if out \<noteq> [] then socket_write sock out t else (True, t)")
  have st: "continues s t" by (rule continues_same) (simp_all add: t_def)
  have tu: "continues t u"
    using u by (auto simp: continues_def socket_write_def split: if_splits prod.splits)
  obtain l k where l: "HandshakeResponder_take_leftover (ss_handshake u) = (l, k)"
    by (cases "HandshakeResponder_take_leftover (ss_handshake u)")
  let ?v = "u\<lparr>ss_handshake := k, ss_phase := Ph_Message\<rparr>"
  have uv: "continues u ?v" by (rule continues_same) simp_all
  have "continues u (start_messages sock u)"
    using uv continues_trans [OF uv continues_take_bytes] by (simp add: start_messages_def l Let_def)
  then have "continues s (start_messages sock u)" "continues s (finish False u)" "continues s u" "continues s (finish True t)"
    using st tu continues_trans continues_finish by metis+
  moreover have "handshake_bytes rng sock bs s = (if \<not> ok then finish True t else if \<not> sent then finish False u
      else if HandshakeResponder_done (ss_handshake u) then start_messages sock u else u)"
    using u by (simp only: handshake_bytes_def f prod.case Let_def t_def [symmetric])
  ultimately show ?thesis by simp
qed

lemma continues_recv: "continues s (session_recv rng sock bs s)"
  by (simp add: session_recv_def continues_finish continues_handshake continues_take_bytes continues_same split: session_phase.split)

lemma handled_recv: "\<exists>ys. handled (session_recv rng sock bs s) = handled s @ ys"
  using continues_recv [of s rng sock bs] by (auto simp: handled_def continues_def)

lemma session_recv_events [simp]:
  "ss_events (session_recv rng sock bs s) = ss_events s" "ss_closing (session_recv rng sock bs s) = ss_closing s"
  using continues_recv [of s rng sock bs] by (simp_all add: continues_def)

text \<open>A session that was told to close ends with its next \<^verbatim>\<open>recv\<close>.\<close>

lemma closing_recv:
  assumes "ss_closing s" and "ss_phase s \<noteq> Ph_Finished"
  shows "ss_phase (session_recv rng sock bs s) = Ph_Finished
    \<and> handled (session_recv rng sock bs s) = handled s @ (if ev_on_close (ss_events s) then [Ses_Close] else [])"
  using assms
  by (cases "ss_phase s") (simp_all add: session_recv_def handled_def finish_log, simp_all add: finish_def Let_def)

lemma close_fields [simp]:
  "handled (ServerSession_close s) = handled s" "ss_phase (ServerSession_close s) = ss_phase s"
  "ss_events (ServerSession_close s) = ss_events s" "ss_closing (ServerSession_close s)"
  by (simp_all add: handled_def ServerSession_close_def ses_note_def)

lemma session_inv_close: "session_inv s \<Longrightarrow> session_inv (ServerSession_close s)"
  using session_inv_call [of s _ _ Close] by simp

lemma session_inv_recv: "session_inv s \<Longrightarrow> session_inv (session_recv rng sock bs s)"
  using session_inv_call [of s rng sock "Recv bs"] by simp

section \<open>The invariant\<close>

definition slot_ok :: "SessionSlot \<Rightarrow> bool" where
  "slot_ok sl \<longleftrightarrow> session_inv (sl_session sl) \<and> sl_handled sl \<le> length (handled (sl_session sl))
     \<and> (sl_exited sl \<longrightarrow> ss_phase (sl_session sl) = Ph_Finished \<and> pending sl = [])"

fun stop_ok :: "stop_pc \<Rightarrow> Listener \<Rightarrow> bool" where
  "stop_ok Stop_Idle l \<longleftrightarrow> ln_running l \<or> ln_slots l = [] \<and> ln_accept l = Acc_None \<and> \<not> ln_listen_fd l"
| "stop_ok Stop_Shutdown l \<longleftrightarrow> \<not> ln_running l"
| "stop_ok Stop_Join_Accept l \<longleftrightarrow> \<not> ln_running l \<and> (ln_listen_fd l \<longrightarrow> ln_shut l)"
| "stop_ok Stop_Close_Sessions l \<longleftrightarrow> \<not> ln_running l \<and> ln_accept l = Acc_None \<and> \<not> ln_listen_fd l"
| "stop_ok Stop_Join_Sessions l \<longleftrightarrow> \<not> ln_running l \<and> ln_accept l = Acc_None \<and> \<not> ln_listen_fd l
     \<and> list_all (\<lambda>sl. ss_closing (sl_session sl)) (ln_slots l)"

definition listener_inv :: "Listener \<Rightarrow> bool" where
  "listener_inv l \<longleftrightarrow> distinct (pointers l) \<and> list_all slot_ok (ln_slots l)
     \<and> (ln_accept l \<noteq> Acc_None \<longrightarrow> ln_listen_fd l) \<and> stop_ok (ln_stop l) l"

lemma listener_inv_new: "listener_inv Listener_new"
  by (simp add: listener_inv_def Listener_new_def)

lemma map_slot_fields [simp]:
  "ln_listen_fd (map_slot p f l) = ln_listen_fd l" "ln_shut (map_slot p f l) = ln_shut l"
  "ln_accept (map_slot p f l) = ln_accept l" "ln_running (map_slot p f l) = ln_running l"
  "ln_stop (map_slot p f l) = ln_stop l" "ln_fault (map_slot p f l) = ln_fault l"
  by (simp_all add: map_slot_def)

lemma map_slot_pointers: "(\<And>sl. sl_ptr sl = p \<Longrightarrow> sl_ptr (f sl) = p) \<Longrightarrow> pointers (map_slot p f l) = pointers l"
  by (simp add: map_slot_def)

lemma slot_at_in: "slot_at p l = Some sl \<Longrightarrow> sl \<in> set (ln_slots l) \<and> sl_ptr sl = p"
  by (auto simp: slot_at_def find_Some_iff)

lemma slot_at_iff: "(\<exists>sl. slot_at p l = Some sl) \<longleftrightarrow> p \<in> set (pointers l)"
  by (auto simp: slot_at_def find_None_iff simp flip: not_None_eq)

lemma find_append: "find P (xs @ ys) = (case find P xs of None \<Rightarrow> find P ys | Some x \<Rightarrow> Some x)"
  by (induction xs) simp_all

lemma slot_at_unique: "distinct (pointers l) \<Longrightarrow> sl \<in> set (ln_slots l) \<Longrightarrow> slot_at (sl_ptr sl) l = Some sl"
  using slot_at_iff [of "sl_ptr sl" l] slot_at_in [of "sl_ptr sl" l]
  by (auto simp: distinct_map inj_on_def)

lemma slot_at_map:
  assumes "\<And>sl. sl_ptr sl = p \<Longrightarrow> sl_ptr (f sl) = p"
  shows "slot_at q (map_slot p f l) = (if q = p then map_option f (slot_at p l) else slot_at q l)"
proof -
  have "find (\<lambda>sl. sl_ptr sl = q) (map (\<lambda>sl. if sl_ptr sl = p then f sl else sl) sls)
      = (if q = p then map_option f (find (\<lambda>sl. sl_ptr sl = p) sls) else find (\<lambda>sl. sl_ptr sl = q) sls)" for sls
    using assms by (induction sls) auto
  then show ?thesis by (simp add: slot_at_def map_slot_def)
qed

text \<open>Updates of one slot that keep the invariant.\<close>

lemma listener_inv_map:
  assumes "listener_inv l"
    and "\<And>sl. sl \<in> set (ln_slots l) \<Longrightarrow> sl_ptr sl = p \<Longrightarrow>
      slot_ok (f sl) \<and> (ss_closing (sl_session sl) \<longrightarrow> ss_closing (sl_session (f sl)))"
    and "\<And>sl. sl_ptr sl = p \<Longrightarrow> sl_ptr (f sl) = p"
  shows "listener_inv (map_slot p f l)"
proof -
  have "stop_ok (ln_stop l) (map_slot p f l)"
    using assms(1,2) by (cases "ln_stop l") (auto simp: listener_inv_def map_slot_def list_all_iff)
  moreover have "list_all slot_ok (ln_slots (map_slot p f l))"
    using assms(1,2) by (auto simp: listener_inv_def map_slot_def list_all_iff)
  ultimately show ?thesis using assms(1) map_slot_pointers [OF assms(3), where l = l] by (simp add: listener_inv_def)
qed

text \<open>A call of another thread: it runs no handler and does not end the session.\<close>

definition silent :: "(Session \<Rightarrow> Session) \<Rightarrow> bool" where
  "silent f \<longleftrightarrow> (\<forall>s. (session_inv s \<longrightarrow> session_inv (f s)) \<and> handled (f s) = handled s \<and> ss_phase (f s) = ss_phase s
     \<and> ss_events (f s) = ss_events s \<and> (ss_closing s \<longrightarrow> ss_closing (f s)))"

lemma silent_close: "silent ServerSession_close"
  by (simp add: silent_def session_inv_close)

lemma silent_send: "silent (\<lambda>s. snd (ServerSession_send sock m s))"
  using session_inv_call [where c = "Send m" and sock = sock]
  by (simp add: silent_def ServerSession_send_def) (simp add: handled_def)

lemma slot_ok_silent: "silent f \<Longrightarrow> slot_ok sl \<Longrightarrow> slot_ok (sl_session_update f sl)"
  by (simp add: slot_ok_def silent_def pending_def)

lemma session_call_live:
  "p \<in> set (pointers l) \<Longrightarrow> session_call p f l = map_slot p (sl_session_update f) l"
  by (simp add: session_call_def)

lemma session_call_inv:
  assumes "listener_inv l" and "silent f"
  shows "listener_inv (session_call p f l)"
proof (cases "p \<in> set (pointers l)")
  case True
  have "listener_inv (map_slot p (sl_session_update f) l)"
    by (rule listener_inv_map [OF assms(1)])
      (use assms in \<open>auto simp: listener_inv_def list_all_iff slot_ok_silent, simp_all add: silent_def\<close>)
  with True show ?thesis by (simp add: session_call_def)
next
  case False
  have "stop_ok (ln_stop l) (l\<lparr>ln_fault := True\<rparr>) = stop_ok (ln_stop l) l" by (cases "ln_stop l") simp_all
  with False assms(1) show ?thesis by (simp add: session_call_def listener_inv_def)
qed

lemma session_call_pointers [simp]: "pointers (session_call p f l) = pointers l"
  by (simp add: session_call_def map_slot_def)

lemma fold_calls_inv:
  "listener_inv l \<Longrightarrow> silent f \<Longrightarrow> listener_inv (fold (\<lambda>p. session_call p f) ps l)"
  by (induction ps arbitrary: l) (simp_all add: session_call_inv)

lemma session_call_fields [simp]:
  "ln_listen_fd (session_call p f l) = ln_listen_fd l" "ln_shut (session_call p f l) = ln_shut l"
  "ln_accept (session_call p f l) = ln_accept l" "ln_running (session_call p f l) = ln_running l"
  "ln_stop (session_call p f l) = ln_stop l"
  by (simp_all add: session_call_def)

lemma fold_calls_fields [simp]:
  "ln_listen_fd (fold (\<lambda>p. session_call p f) ps l) = ln_listen_fd l" "ln_shut (fold (\<lambda>p. session_call p f) ps l) = ln_shut l"
  "ln_accept (fold (\<lambda>p. session_call p f) ps l) = ln_accept l" "ln_running (fold (\<lambda>p. session_call p f) ps l) = ln_running l"
  "ln_stop (fold (\<lambda>p. session_call p f) ps l) = ln_stop l" "pointers (fold (\<lambda>p. session_call p f) ps l) = pointers l"
  by (induction ps arbitrary: l) simp_all

text \<open>What each step of a session thread does to its slot.\<close>

lemma thread_recv_ok:
  assumes "slot_ok sl" and "thread_recv rng sock bs sl = Some sl'"
  shows "slot_ok sl' \<and> sl_ptr sl' = sl_ptr sl \<and> (ss_closing (sl_session sl) \<longrightarrow> ss_closing (sl_session sl'))"
proof -
  have sl': "sl' = sl\<lparr>sl_session := session_recv rng sock bs (sl_session sl)\<rparr>" "\<not> sl_exited sl"
    using assms(2) by (auto simp: thread_recv_def split: if_splits)
  obtain ys where "handled (session_recv rng sock bs (sl_session sl)) = handled (sl_session sl) @ ys"
    using handled_recv by blast
  with assms(1) sl' show ?thesis by (simp add: slot_ok_def session_inv_recv)
qed

lemma thread_event_ok:
  assumes "slot_ok sl" and "thread_event sl = Some (e, sl')"
  shows "slot_ok sl' \<and> sl_ptr sl' = sl_ptr sl \<and> sl_session sl' = sl_session sl"
  using assms by (auto simp: thread_event_def slot_ok_def pending_def split: list.splits intro: Suc_leI)
    (metis drop_eq_Nil leI le_less list.distinct(1) not_less_eq_eq)+

lemma thread_exit_ok:
  assumes "slot_ok sl" and "thread_exit sl = Some sl'"
  shows "slot_ok sl' \<and> sl_ptr sl' = sl_ptr sl \<and> sl_session sl' = sl_session sl"
  using assms by (auto simp: thread_exit_def slot_ok_def pending_def split: if_splits)

lemma listener_inv_slot:
  assumes "listener_inv l" and "slot_at p l = Some sl"
    and "slot_ok sl'" and "sl_ptr sl' = sl_ptr sl" and "ss_closing (sl_session sl) \<longrightarrow> ss_closing (sl_session sl')"
  shows "listener_inv (map_slot p (\<lambda>_. sl') l)"
proof (rule listener_inv_map [OF assms(1)])
  fix s
  assume "s \<in> set (ln_slots l)" "sl_ptr s = p"
  then have "s = sl" using slot_at_unique [of l s] assms(1,2) by (auto simp: listener_inv_def)
  with assms show "slot_ok sl' \<and> (ss_closing (sl_session s) \<longrightarrow> ss_closing (sl_session sl'))" by simp
next
  fix s :: SessionSlot
  show "sl_ptr sl' = p" using assms(2,4) slot_at_in by auto
qed

lemma slot_at_ok: "listener_inv l \<Longrightarrow> slot_at p l = Some sl \<Longrightarrow> slot_ok sl \<and> sl_ptr sl = p"
  using slot_at_in [of p l sl] by (auto simp: listener_inv_def list_all_iff)

lemma listener_inv_stop: "listener_inv l \<Longrightarrow> Listener_stop l = Some l' \<Longrightarrow> listener_inv l'"
  by (cases "ln_stop l")
    (auto simp: Listener_stop_def listener_inv_def list_all_iff comp_def slot_ok_silent [OF silent_close] split: if_splits)

lemma listener_inv_accept:
  assumes "listener_inv l" and "accept_return fac r (l, g) = Some (l', g')"
  shows "listener_inv l'"
proof (cases r)
  case None
  with assms show ?thesis
    by (cases "ln_stop l") (auto simp: accept_return_def listener_inv_def split: if_splits)
next
  case (Some p)
  obtain ev cl g1 where f: "fac p g = (ev, cl, g1)" by (cases "fac p g")
  let ?l = "fold (\<lambda>p. session_call p ServerSession_close) cl l"
  have acc: "ln_accept l = Acc_Accept" "p \<notin> set (pointers l)"
    and l': "l' = ?l\<lparr>ln_slots := ln_slots ?l @ [\<lparr>sl_ptr = p, sl_session = ServerSession_new ev, sl_handled = 0, sl_exited = False\<rparr>],
      ln_accept := Acc_Check\<rparr>"
    using assms(2) Some f by (auto simp: accept_return_def Let_def split: if_splits)
  have "listener_inv ?l" by (rule fold_calls_inv [OF assms(1) silent_close])
  moreover have "p \<notin> set (pointers ?l)" "ln_accept ?l = Acc_Accept" using acc by simp_all
  ultimately show ?thesis
    unfolding l' by (cases "ln_stop ?l") (simp_all add: listener_inv_def slot_ok_def session_inv_new pending_def)
qed

lemma listener_inv_do:
  assumes "listener_inv l" and "listener_do fac han a (l, g) = Some (l', g')"
  shows "listener_inv l'"
proof (cases a)
  case (Act_Start x y z)
  with assms show ?thesis by (auto simp: Listener_start_def listener_inv_def split: if_splits)
next
  case Act_Stop
  with assms listener_inv_stop show ?thesis by auto
next
  case Act_Check
  with assms show ?thesis
    by (cases "ln_stop l") (auto simp: accept_check_def listener_inv_def split: if_splits)
next
  case (Act_Accept r)
  with assms listener_inv_accept show ?thesis by auto
next
  case (Act_Recv p rng sock bs)
  with assms obtain sl sl' where "slot_at p l = Some sl" "thread_recv rng sock bs sl = Some sl'" "l' = map_slot p (\<lambda>_. sl') l"
    by (auto split: option.splits)
  with listener_inv_slot [OF assms(1)] slot_at_ok [OF assms(1)] thread_recv_ok show ?thesis by metis
next
  case (Act_Event p)
  with assms obtain sl e sl' where "slot_at p l = Some sl" "thread_event sl = Some (e, sl')" "l' = map_slot p (\<lambda>_. sl') l"
    by (auto split: option.splits)
  with listener_inv_slot [OF assms(1)] slot_at_ok [OF assms(1)] thread_event_ok show ?thesis by metis
next
  case (Act_Exit p)
  with assms obtain sl sl' where "slot_at p l = Some sl" "thread_exit sl = Some sl'" "l' = map_slot p (\<lambda>_. sl') l"
    by (auto split: option.splits)
  with listener_inv_slot [OF assms(1)] slot_at_ok [OF assms(1)] thread_exit_ok show ?thesis by metis
qed

lemma listener_inv_steps: "listener_steps fac han as s s' \<Longrightarrow> listener_inv (fst s) \<Longrightarrow> listener_inv (fst s')"
proof (induction rule: listener_steps.induct)
  case (steps_snoc as s s' a s'')
  then show ?case using listener_inv_do by (cases s', cases s'') auto
qed

text \<open>What the threads of the listener leave to the sessions that exist.\<close>

lemma thread_keeps_sessions:
  assumes "sl_ptr sl = p"
  shows "ln_stop (map_slot p (\<lambda>_. sl) l) = ln_stop l \<and> set (pointers l) \<subseteq> set (pointers (map_slot p (\<lambda>_. sl) l))"
proof -
  have "pointers (map_slot p (\<lambda>_. sl) l) = pointers l" by (rule map_slot_pointers) (use assms in simp)
  then show ?thesis by (simp only: map_slot_fields) blast
qed

lemma threads_keep_sessions:
  assumes "listener_inv l" "listener_do fac han act (l, g) = Some (l', g')" "\<not> is_start act" "act \<noteq> Act_Stop"
  shows "ln_stop l' = ln_stop l \<and> set (pointers l) \<subseteq> set (pointers l')"
proof (cases act)
  case (Act_Accept r)
  have "sl_ptr ` set (ln_slots (fold (\<lambda>p. session_call p ServerSession_close) ps l)) = sl_ptr ` set (ln_slots l)" for ps
    using fold_calls_fields(6) [of ServerSession_close ps l] by (metis list.set_map)
  with Act_Accept assms show ?thesis
    by (cases r) (auto simp: accept_return_def Let_def split: if_splits prod.splits)
next
  case (Act_Recv p rng sock bs)
  with assms(2) obtain sl sl' where t: "slot_at p l = Some sl" "thread_recv rng sock bs sl = Some sl'" "l' = map_slot p (\<lambda>_. sl') l"
    by (auto split: option.splits)
  with slot_at_ok [OF assms(1) t(1)] thread_recv_ok thread_keeps_sessions show ?thesis by metis
next
  case (Act_Event p)
  with assms(2) obtain sl e sl' where t: "slot_at p l = Some sl" "thread_event sl = Some (e, sl')" "l' = map_slot p (\<lambda>_. sl') l"
    by (auto split: option.splits)
  with slot_at_ok [OF assms(1) t(1)] thread_event_ok thread_keeps_sessions show ?thesis by metis
next
  case (Act_Exit p)
  with assms(2) obtain sl sl' where t: "slot_at p l = Some sl" "thread_exit sl = Some sl'" "l' = map_slot p (\<lambda>_. sl') l"
    by (auto split: option.splits)
  with slot_at_ok [OF assms(1) t(1)] thread_exit_ok thread_keeps_sessions show ?thesis by metis
qed (use assms in \<open>auto simp: accept_check_def split: if_splits\<close>)

section \<open>Applications that keep pointers to sessions\<close>

text \<open>A session whose close handler is installed and has not run yet.\<close>

definition open_slot :: "SessionSlot \<Rightarrow> bool" where
  "open_slot sl \<longleftrightarrow> ev_on_close (ss_events (sl_session sl))
     \<and> Ses_Close \<notin> set (take (sl_handled sl) (handled (sl_session sl)))"

definition owner_inv :: "('g \<Rightarrow> nat \<Rightarrow> bool) \<Rightarrow> Listener \<Rightarrow> 'g \<Rightarrow> bool" where
  "owner_inv refers l g \<longleftrightarrow> listener_inv l \<and> \<not> ln_fault l
     \<and> (\<forall>q. refers g q \<longrightarrow> (\<exists>sl. slot_at q l = Some sl \<and> open_slot sl))"

lemma owner_invI:
  "listener_inv l \<Longrightarrow> \<not> ln_fault l \<Longrightarrow> (\<And>q. refers g q \<Longrightarrow> \<exists>sl. slot_at q l = Some sl \<and> open_slot sl) \<Longrightarrow> owner_inv refers l g"
  by (simp add: owner_inv_def)

lemma owner_invD:
  assumes "owner_inv refers l g"
  shows "listener_inv l" "\<not> ln_fault l" "refers g q \<Longrightarrow> \<exists>sl. slot_at q l = Some sl \<and> open_slot sl"
    "refers g q \<Longrightarrow> q \<in> set (pointers l)"
  using assms slot_at_iff [of q l] by (auto simp: owner_inv_def)

lemma owner_inv_new: "(\<And>q. \<not> refers g q) \<Longrightarrow> owner_inv refers Listener_new g"
  by (rule owner_invI) (simp_all add: listener_inv_new, simp add: Listener_new_def)

lemma owner_inv_weaken: "owner_inv refers l g \<Longrightarrow> (\<And>q. refers g' q \<Longrightarrow> refers g q) \<Longrightarrow> owner_inv refers l g'"
  by (auto simp: owner_inv_def)

lemma open_slot_silent: "silent f \<Longrightarrow> open_slot sl \<Longrightarrow> open_slot (sl_session_update f sl)"
  by (simp add: open_slot_def silent_def)

lemma owner_inv_call:
  assumes "owner_inv refers l g" and "silent f" and "p \<in> set (pointers l)"
  shows "owner_inv refers (session_call p f l) g"
proof (rule owner_invI)
  show "listener_inv (session_call p f l)" by (rule session_call_inv [OF owner_invD(1) [OF assms(1)] assms(2)])
  show "\<not> ln_fault (session_call p f l)" using owner_invD(2) [OF assms(1)] assms(3) by (simp add: session_call_live)
  fix q
  assume "refers g q"
  then obtain sl where sl: "slot_at q l = Some sl" "open_slot sl" using owner_invD(3) [OF assms(1)] by blast
  then have "slot_at q (session_call p f l) = Some (if q = p then sl_session_update f sl else sl)"
    using assms(3) by (cases "q = p") (simp_all add: session_call_live slot_at_map)
  with sl(2) open_slot_silent [OF assms(2)] show "\<exists>sl. slot_at q (session_call p f l) = Some sl \<and> open_slot sl"
    by simp
qed

lemma owner_inv_calls:
  "owner_inv refers l g \<Longrightarrow> silent f \<Longrightarrow> set ps \<subseteq> set (pointers l) \<Longrightarrow>
     owner_inv refers (fold (\<lambda>p. session_call p f) ps l) g"
proof (induction ps arbitrary: l)
  case (Cons p ps)
  then have "owner_inv refers (session_call p f l) g" by (intro owner_inv_call) simp_all
  moreover have "set ps \<subseteq> set (pointers (session_call p f l))" using Cons.prems(3) by simp
  ultimately show ?case using Cons.IH [of "session_call p f l"] Cons.prems(2) by simp
qed simp

text \<open>The slots stay as they are for the application, up to the threads' own progress.\<close>

lemma owner_inv_slots:
  assumes "owner_inv refers l g" and "listener_inv l'" and "\<not> ln_fault l'" and "ln_slots l' = ln_slots l"
  shows "owner_inv refers l' g"
  using assms by (auto simp: owner_inv_def slot_at_def)

text \<open>A session thread that ended has run the close handler.\<close>

lemma exited_not_open: "slot_ok sl \<Longrightarrow> sl_exited sl \<Longrightarrow> \<not> open_slot sl"
  by (auto simp: slot_ok_def open_slot_def pending_def session_inv_def split: if_splits)

lemma take_Suc_drop: "drop n xs = x # ys \<Longrightarrow> take (Suc n) xs = take n xs @ [x]"
  by (induction xs arbitrary: n) (auto simp: take_Cons' drop_Cons split: nat.splits)

lemma recv_open: "slot_ok sl \<Longrightarrow> thread_recv rng sock bs sl = Some sl' \<Longrightarrow> open_slot sl \<Longrightarrow> open_slot sl'"
  using handled_recv [of rng sock bs "sl_session sl"]
  by (auto simp: thread_recv_def open_slot_def slot_ok_def split: if_splits)

lemma event_open: "thread_event sl = Some (e, sl') \<Longrightarrow> e \<noteq> Ses_Close \<Longrightarrow> open_slot sl \<Longrightarrow> open_slot sl'"
  by (auto simp: thread_event_def pending_def open_slot_def take_Suc_drop split: list.splits)

lemma exit_open: "thread_exit sl = Some sl' \<Longrightarrow> open_slot sl \<Longrightarrow> open_slot sl'"
  by (auto simp: thread_exit_def open_slot_def split: if_splits)

lemma slot_at_close_all:
  "ln_slots l' = map (sl_session_update ServerSession_close) (ln_slots l) \<Longrightarrow>
     slot_at q l' = map_option (sl_session_update ServerSession_close) (slot_at q l)"
proof -
  have "find P (map f xs) = map_option f (find (P \<circ> f) xs)" for P and f :: "SessionSlot \<Rightarrow> SessionSlot" and xs
    by (induction xs) simp_all
  then show "ln_slots l' = map (sl_session_update ServerSession_close) (ln_slots l) \<Longrightarrow> ?thesis"
    by (simp add: slot_at_def comp_def)
qed

lemma owner_inv_stop:
  assumes inv: "owner_inv refers l g" and st: "Listener_stop l = Some l'"
  shows "owner_inv refers l' g"
proof -
  have li: "listener_inv l'" by (rule listener_inv_stop [OF owner_invD(1) [OF inv] st])
  have nf: "\<not> ln_fault l'"
    using st owner_invD(2) [OF inv] by (cases "ln_stop l") (auto simp: Listener_stop_def split: if_splits)
  consider "ln_slots l' = map (sl_session_update ServerSession_close) (ln_slots l)"
    | "list_all sl_exited (ln_slots l)" "ln_slots l' = []" | "ln_slots l' = ln_slots l"
    using st by (cases "ln_stop l") (auto simp: Listener_stop_def split: if_splits)
  then show ?thesis
  proof cases
    case 1
    show ?thesis
    proof (rule owner_invI [OF li nf])
      fix q
      assume "refers g q"
      then obtain sl where "slot_at q l = Some sl" "open_slot sl" using owner_invD(3) [OF inv] by blast
      then show "\<exists>sl. slot_at q l' = Some sl \<and> open_slot sl"
        using open_slot_silent [OF silent_close] by (simp add: slot_at_close_all [OF 1])
    qed
  next
    case 2
    have "\<not> refers g q" for q
    proof
      assume "refers g q"
      then obtain sl where sl: "slot_at q l = Some sl" "open_slot sl" using owner_invD(3) [OF inv] by blast
      with 2(1) slot_at_in [OF sl(1)] have "sl_exited sl" by (simp add: list_all_iff)
      with sl slot_at_ok [OF owner_invD(1) [OF inv]] exited_not_open show False by blast
    qed
    with li nf show ?thesis by (simp add: owner_inv_def)
  next
    case 3
    then show ?thesis by (rule owner_inv_slots [OF inv li nf])
  qed
qed

locale session_owner =
  fixes fac :: "'g factory" and han :: "'g handler" and refers :: "'g \<Rightarrow> nat \<Rightarrow> bool"
  assumes factory_refers: "fac p g = (ev, cl, g') \<Longrightarrow> refers g' q \<Longrightarrow> refers g q \<or> q = p \<and> ev_on_close ev"
    and factory_closes: "fac p g = (ev, cl, g') \<Longrightarrow> q \<in> set cl \<Longrightarrow> refers g q"
    and handler_refers: "refers (han p e g) q \<Longrightarrow> refers g q"
    and handler_close: "\<not> refers (han p Ses_Close g) p"
begin

lemma owner_accept:
  assumes inv: "owner_inv refers l g" and step: "accept_return fac (Some p) (l, g) = Some (l', g')"
  shows "owner_inv refers l' g'"
proof -
  obtain ev cl g1 where f: "fac p g = (ev, cl, g1)" by (cases "fac p g")
  define m where "m = fold (\<lambda>p. session_call p ServerSession_close) cl l"
  let ?new = "\<lparr>sl_ptr = p, sl_session = ServerSession_new ev, sl_handled = 0, sl_exited = False\<rparr>"
  have new: "p \<notin> set (pointers m)" and l': "l' = m\<lparr>ln_slots := ln_slots m @ [?new], ln_accept := Acc_Check\<rparr>" and g': "g' = g1"
    using step f by (auto simp: accept_return_def m_def Let_def split: if_splits)
  have om: "owner_inv refers m g"
    unfolding m_def by (rule owner_inv_calls [OF inv silent_close]) (use factory_closes [OF f] owner_invD(4) [OF inv] in blast)
  have old: "slot_at q m = Some sl \<Longrightarrow> slot_at q l' = Some sl" for q sl
    by (simp add: l' slot_at_def find_append)
  have "slot_at p l' = Some ?new" using new slot_at_iff [of p m] by (simp add: l' slot_at_def find_append)
  moreover have "ev_on_close ev \<Longrightarrow> open_slot ?new" by (simp add: open_slot_def ServerSession_new_def)
  moreover have "listener_inv l'" "\<not> ln_fault l'"
    using listener_inv_accept [OF owner_invD(1) [OF inv] step] owner_invD(2) [OF om] by (simp_all add: l')
  ultimately show ?thesis
    using factory_refers [OF f] owner_invD(3) [OF om] old g' by (intro owner_invI) blast+
qed

lemma owner_thread:
  assumes inv: "owner_inv refers l g" and sl: "slot_at p l = Some sl" and l': "l' = map_slot p (\<lambda>_. sl') l"
    and ok: "listener_inv l'" "sl_ptr sl' = sl_ptr sl"
    and keep: "\<And>q. refers g' q \<Longrightarrow> refers g q \<and> (q = p \<longrightarrow> open_slot sl \<longrightarrow> open_slot sl')"
  shows "owner_inv refers l' g'"
proof (rule owner_invI [OF ok(1)])
  show "\<not> ln_fault l'" using owner_invD(2) [OF inv] by (simp add: l')
  have ptr: "sl_ptr sl' = p" using ok(2) slot_at_in [OF sl] by simp
  fix q
  assume "refers g' q"
  with keep have q: "refers g q" "q = p \<longrightarrow> open_slot sl \<longrightarrow> open_slot sl'" by blast+
  then obtain sq where sq: "slot_at q l = Some sq" "open_slot sq" using owner_invD(3) [OF inv] by blast
  with sl q(2) ptr show "\<exists>sl. slot_at q l' = Some sl \<and> open_slot sl"
    by (cases "q = p") (simp_all add: l' slot_at_map)
qed

lemma owner_step:
  assumes inv: "owner_inv refers l g" and step: "listener_do fac han a (l, g) = Some (l', g')"
  shows "owner_inv refers l' g'"
proof -
  have li: "listener_inv l'" by (rule listener_inv_do [OF owner_invD(1) [OF inv] step])
  note lo = owner_invD(1) [OF inv] and nf = owner_invD(2) [OF inv]
  have same: "ln_slots l' = ln_slots l \<Longrightarrow> g' = g \<Longrightarrow> \<not> ln_fault l' \<Longrightarrow> ?thesis"
    using owner_inv_slots [OF inv li] by simp
  show ?thesis
  proof (cases a)
    case (Act_Start x y z)
    with step lo nf show ?thesis by (intro same) (auto simp: Listener_start_def listener_inv_def split: if_splits)
  next
    case Act_Stop
    with step owner_inv_stop [OF inv] show ?thesis by auto
  next
    case Act_Check
    with step nf show ?thesis by (intro same) (auto simp: accept_check_def split: if_splits)
  next
    case (Act_Accept r)
    show ?thesis
    proof (cases r)
      case None
      with Act_Accept step nf show ?thesis by (intro same) (auto simp: accept_return_def split: if_splits)
    next
      case (Some p)
      with Act_Accept step owner_accept [OF inv] show ?thesis by simp
    qed
  next
    case (Act_Recv p rng sock bs)
    with step obtain sl sl' where t: "slot_at p l = Some sl" "thread_recv rng sock bs sl = Some sl'"
      "l' = map_slot p (\<lambda>_. sl') l" "g' = g"
      by (auto split: option.splits)
    note ok = slot_at_ok [OF lo t(1), THEN conjunct1]
    from thread_recv_ok [OF ok t(2)] recv_open [OF ok t(2)] t(4) show ?thesis
      by (intro owner_thread [OF inv t(1,3) li]) simp_all
  next
    case (Act_Event p)
    with step obtain sl e sl' where t: "slot_at p l = Some sl" "thread_event sl = Some (e, sl')"
      "l' = map_slot p (\<lambda>_. sl') l" "g' = han p e g"
      by (auto split: option.splits)
    note ok = slot_at_ok [OF lo t(1), THEN conjunct1]
    from thread_event_ok [OF ok t(2)] event_open [OF t(2)] t(4) handler_refers handler_close show ?thesis
      by (cases "e = Ses_Close"; intro owner_thread [OF inv t(1,3) li]) auto
  next
    case (Act_Exit p)
    with step obtain sl sl' where t: "slot_at p l = Some sl" "thread_exit sl = Some sl'"
      "l' = map_slot p (\<lambda>_. sl') l" "g' = g"
      by (auto split: option.splits)
    note ok = slot_at_ok [OF lo t(1), THEN conjunct1]
    from thread_exit_ok [OF ok t(2)] exit_open [OF t(2)] t(4) show ?thesis
      by (intro owner_thread [OF inv t(1,3) li]) simp_all
  qed
qed

end

section \<open>Stopping\<close>

fun is_main :: "listener_action \<Rightarrow> bool" where
  "is_main Act_Stop = True"
| "is_main Act_Check = True"
| "is_main (Act_Accept r) = True"
| "is_main _ = False"

text \<open>The steps nobody outside the program has to contribute to: a socket that was shut down returns.\<close>

fun is_local :: "listener_action \<Rightarrow> bool" where
  "is_local (Act_Start a b c) = False"
| "is_local (Act_Accept r) = (r = None)"
| "is_local (Act_Recv p rng sock bs) = (bs = [])"
| "is_local _ = True"

fun stop_rank :: "stop_pc \<Rightarrow> nat" where
  "stop_rank Stop_Idle = 0"
| "stop_rank Stop_Shutdown = 4"
| "stop_rank Stop_Join_Accept = 3"
| "stop_rank Stop_Close_Sessions = 2"
| "stop_rank Stop_Join_Sessions = 1"

fun accept_rank :: "accept_pc \<Rightarrow> nat" where
  "accept_rank Acc_Accept = 2"
| "accept_rank Acc_Check = 1"
| "accept_rank _ = 0"

definition main_rank :: "Listener \<Rightarrow> nat" where
  "main_rank l = stop_rank (ln_stop l) + accept_rank (ln_accept l)"

definition thread_rank :: "SessionSlot \<Rightarrow> nat" where
  "thread_rank sl =
     (if sl_exited sl then 0 else 1 + length (pending sl) + (if ss_phase (sl_session sl) = Ph_Finished then 0 else 2))"

definition threads_rank :: "Listener \<Rightarrow> nat" where
  "threads_rank l = sum_list (map thread_rank (ln_slots l))"

lemma accept_return_fields:
  assumes "accept_return fac r (l, g) = Some (l', g')"
  shows "ln_accept l = Acc_Accept" "ln_accept l' = (if r = None then Acc_Exited else Acc_Check)"
    "ln_stop l' = ln_stop l" "ln_running l' = ln_running l"
  using assms by (auto simp: accept_return_def Let_def split: if_splits option.splits prod.splits)

lemma not_running_stays:
  assumes "listener_do fac han a (l, g) = Some (l', g')" "\<not> ln_running l" "\<not> is_start a"
  shows "\<not> ln_running l' \<and> (ln_stop l = Stop_Idle \<longrightarrow> ln_stop l' = Stop_Idle)"
proof (cases a)
  case Act_Stop
  with assms show ?thesis by (cases "ln_stop l") (auto simp: Listener_stop_def split: if_splits)
next
  case (Act_Accept r)
  with assms accept_return_fields show ?thesis by fastforce
qed (use assms in \<open>auto simp: accept_check_def split: if_splits option.splits\<close>)

lemma main_rank_falls:
  assumes "listener_do fac han a (l, g) = Some (l', g')" "\<not> ln_running l" "\<not> is_start a" "ln_stop l \<noteq> Stop_Idle"
  shows "(if is_main a then Suc (main_rank l') else main_rank l') \<le> main_rank l"
proof (cases a)
  case Act_Stop
  with assms show ?thesis by (cases "ln_stop l") (auto simp: Listener_stop_def main_rank_def split: if_splits)
next
  case (Act_Accept r)
  with assms accept_return_fields [of fac r l g l' g'] show ?thesis by (auto simp: main_rank_def)
qed (use assms in \<open>auto simp: accept_check_def main_rank_def split: if_splits option.splits\<close>)

lemma main_rank_steps:
  assumes "listener_steps fac han as s s'" "\<not> ln_running (fst s)" "list_all (\<lambda>a. \<not> is_start a) as" "ln_stop (fst s') \<noteq> Stop_Idle"
  shows "\<not> ln_running (fst s') \<and> length (filter is_main as) + main_rank (fst s') \<le> main_rank (fst s)"
  using assms
proof (induction rule: listener_steps.induct)
  case (steps_snoc as s s' a s'')
  obtain l g l' g' where p: "s' = (l, g)" "s'' = (l', g')" by (cases s', cases s'')
  have nr: "\<not> ln_running l"
    using steps_snoc.hyps(1) steps_snoc.prems(1,2) p(1)
  proof (induction arbitrary: l g rule: listener_steps.induct)
    case (steps_snoc bs u u' b u'')
    obtain m h where "u' = (m, h)" by (cases u')
    with steps_snoc not_running_stays [of fac han b m h l g] show ?case by auto
  qed simp
  have "ln_stop l \<noteq> Stop_Idle"
    using not_running_stays [OF steps_snoc.hyps(2) [unfolded p] nr] steps_snoc.prems(2,3) p by auto
  with steps_snoc p nr not_running_stays [OF steps_snoc.hyps(2) [unfolded p] nr]
    main_rank_falls [OF steps_snoc.hyps(2) [unfolded p] nr]
  show ?case by (auto split: if_splits)
qed simp

lemma threads_rank_slot:
  assumes "distinct (pointers l)" "slot_at p l = Some sl"
  shows "threads_rank (map_slot p (\<lambda>_. sl') l) + thread_rank sl = threads_rank l + thread_rank sl'"
proof -
  have other: "p \<notin> set (map sl_ptr sls) \<Longrightarrow> map (\<lambda>sl. if sl_ptr sl = p then sl' else sl) sls = sls" for sls
    by (induction sls) auto
  have "distinct (map sl_ptr sls) \<Longrightarrow> find (\<lambda>sl. sl_ptr sl = p) sls = Some sl \<Longrightarrow>
      sum_list (map thread_rank (map (\<lambda>sl. if sl_ptr sl = p then sl' else sl) sls)) + thread_rank sl
      = sum_list (map thread_rank sls) + thread_rank sl'" for sls
  proof (induction sls)
    case (Cons x sls)
    then show ?case using other [of sls] by (cases "sl_ptr x = p") simp_all
  qed simp
  with assms show ?thesis by (simp add: threads_rank_def map_slot_def slot_at_def)
qed

lemma thread_recv_rank:
  assumes "thread_recv rng sock bs sl = Some sl'" "ss_closing (sl_session sl)"
  shows "thread_rank sl' < thread_rank sl"
proof -
  have t: "\<not> sl_exited sl" "pending sl = []" "ss_phase (sl_session sl) \<noteq> Ph_Finished"
    and sl': "sl' = sl\<lparr>sl_session := session_recv rng sock bs (sl_session sl)\<rparr>"
    using assms(1) by (auto simp: thread_recv_def split: if_splits)
  note c = closing_recv [OF assms(2) t(3), of rng sock bs]
  have "length (pending sl') \<le> 1" using t(2) c by (auto simp: pending_def sl')
  with t c show ?thesis by (simp add: thread_rank_def sl')
qed

lemma drop_Cons_less: "drop n xs = x # ys \<Longrightarrow> n < length xs"
  by (metis drop_all leI list.distinct(1))

lemma thread_event_rank: "slot_ok sl \<Longrightarrow> thread_event sl = Some (e, sl') \<Longrightarrow> thread_rank sl' < thread_rank sl"
  by (auto simp: thread_event_def thread_rank_def pending_def slot_ok_def dest!: drop_Cons_less split: list.splits)

lemma thread_exit_rank: "thread_exit sl = Some sl' \<Longrightarrow> thread_rank sl' < thread_rank sl"
  by (auto simp: thread_exit_def thread_rank_def split: if_splits)

lemma threads_rank_falls:
  assumes inv: "listener_inv l" and st: "ln_stop l = Stop_Join_Sessions"
    and step: "listener_do fac han a (l, g) = Some (l', g')" and on: "ln_stop l' \<noteq> Stop_Idle"
  shows "ln_stop l' = Stop_Join_Sessions \<and> Suc (threads_rank l') \<le> threads_rank l"
proof -
  have d: "distinct (pointers l)" and acc: "ln_accept l = Acc_None"
    and cl: "slot_at p l = Some sl \<Longrightarrow> ss_closing (sl_session sl)" for p sl
    using inv st slot_at_in [of p l sl] by (auto simp: listener_inv_def list_all_iff)
  have falls: "?thesis" if "slot_at p l = Some sl" "l' = map_slot p (\<lambda>_. sl') l" "thread_rank sl' < thread_rank sl" for p sl sl'
    using threads_rank_slot [OF d that(1), of sl'] that(2,3) st by simp
  show ?thesis
  proof (cases a)
    case (Act_Accept r)
    with step acc accept_return_fields(1) show ?thesis by fastforce
  next
    case (Act_Recv p rng sock bs)
    with step obtain sl sl' where "slot_at p l = Some sl" "thread_recv rng sock bs sl = Some sl'" "l' = map_slot p (\<lambda>_. sl') l"
      by (auto split: option.splits)
    with falls thread_recv_rank cl show ?thesis by blast
  next
    case (Act_Event p)
    with step obtain sl e sl' where "slot_at p l = Some sl" "thread_event sl = Some (e, sl')" "l' = map_slot p (\<lambda>_. sl') l"
      by (auto split: option.splits)
    with falls thread_event_rank slot_at_ok [OF inv] show ?thesis by blast
  next
    case (Act_Exit p)
    with step obtain sl sl' where "slot_at p l = Some sl" "thread_exit sl = Some sl'" "l' = map_slot p (\<lambda>_. sl') l"
      by (auto split: option.splits)
    with falls thread_exit_rank show ?thesis by blast
  qed (use step st on acc in \<open>auto simp: Listener_stop_def accept_check_def split: if_splits\<close>)
qed

text \<open>While \<open>stop\<close> waits, the thread it waits for can go on.\<close>

lemma thread_not_blocked:
  assumes "slot_at p l = Some sl" "\<not> sl_exited sl"
  shows "\<exists>a s'. is_local a \<and> listener_do fac han a (l, g) = Some s'"
proof -
  consider e es where "pending sl = e # es" | "pending sl = []" "ss_phase (sl_session sl) = Ph_Finished"
    | "pending sl = []" "ss_phase (sl_session sl) \<noteq> Ph_Finished" by (cases "pending sl") auto
  then show ?thesis
  proof cases
    case 1
    with assms have "is_local (Act_Event p) \<and> listener_do fac han (Act_Event p) (l, g) \<noteq> None" by (simp add: thread_event_def)
    then show ?thesis by blast
  next
    case 2
    with assms have "is_local (Act_Exit p) \<and> listener_do fac han (Act_Exit p) (l, g) \<noteq> None" by (simp add: thread_exit_def)
    then show ?thesis by blast
  next
    case 3
    with assms have "is_local (Act_Recv p (\<lambda>_. 0) (\<lambda>_. 0) []) \<and> listener_do fac han (Act_Recv p (\<lambda>_. 0) (\<lambda>_. 0) []) (l, g) \<noteq> None"
      by (simp add: thread_recv_def)
    then show ?thesis by blast
  qed
qed

lemma stop_not_blocked:
  assumes "listener_inv l"
  shows "\<exists>a s'. is_local a \<and> listener_do fac han a (l, g) = Some s'"
proof (cases "Listener_stop l")
  case (Some l')
  then have "is_local Act_Stop \<and> listener_do fac han Act_Stop (l, g) = Some (l', g)" by simp
  then show ?thesis by blast
next
  case None
  then consider "ln_accept l = Acc_Check" | "ln_accept l = Acc_Accept" | sl where "sl \<in> set (ln_slots l)" "\<not> sl_exited sl"
    by (cases "ln_stop l"; cases "ln_accept l") (auto simp: Listener_stop_def list_all_iff split: if_splits)
  then show ?thesis
  proof cases
    case 1
    then have "is_local Act_Check \<and> listener_do fac han Act_Check (l, g) \<noteq> None" by (simp add: accept_check_def)
    then show ?thesis by blast
  next
    case 2
    then have "is_local (Act_Accept None) \<and> listener_do fac han (Act_Accept None) (l, g) \<noteq> None" by (simp add: accept_return_def)
    then show ?thesis by blast
  next
    case 3
    with assms have "slot_at (sl_ptr sl) l = Some sl" by (simp add: listener_inv_def slot_at_unique)
    then show ?thesis using 3(2) by (rule thread_not_blocked)
  qed
qed

lemma not_running_steps:
  "listener_steps fac han as s s' \<Longrightarrow> \<not> ln_running (fst s) \<Longrightarrow> list_all (\<lambda>a. \<not> is_start a) as \<Longrightarrow>
     \<not> ln_running (fst s') \<and> (ln_stop (fst s) = Stop_Idle \<longrightarrow> ln_stop (fst s') = Stop_Idle)"
proof (induction rule: listener_steps.induct)
  case (steps_snoc as s s' a s'')
  then show ?case using not_running_stays [of fac han a "fst s'" "snd s'" "fst s''" "snd s''"] by simp
qed simp

lemma threads_rank_steps:
  assumes "listener_steps fac han as s s'" "listener_inv (fst s)" "ln_stop (fst s) = Stop_Join_Sessions"
    "list_all (\<lambda>a. \<not> is_start a) as" "ln_stop (fst s') \<noteq> Stop_Idle"
  shows "ln_stop (fst s') = Stop_Join_Sessions \<and> length as + threads_rank (fst s') \<le> threads_rank (fst s)"
  using assms
proof (induction rule: listener_steps.induct)
  case (steps_snoc as s s' a s'')
  obtain l g l' g' where p: "s' = (l, g)" "s'' = (l', g')" by (cases s', cases s'')
  have "\<not> ln_running (fst s)" using steps_snoc.prems(1,2) by (simp add: listener_inv_def)
  then have nr: "\<not> ln_running l" using not_running_steps [OF steps_snoc.hyps(1)] steps_snoc.prems(3) p by simp
  have "ln_stop l \<noteq> Stop_Idle"
    using not_running_stays [OF steps_snoc.hyps(2) [unfolded p] nr] steps_snoc.prems(3,4) p by auto
  moreover have "listener_inv l" using listener_inv_steps [OF steps_snoc.hyps(1)] steps_snoc.prems(1) p by simp
  ultimately show ?case
    using steps_snoc p threads_rank_falls [of l fac han a g l' g'] by auto
qed simp

lemma stopped_silent:
  assumes "listener_inv l" "ln_stop l = Stop_Idle" "\<not> ln_running l" "listener_do fac han a (l, g) = Some (l', g')"
  shows "g' = g"
proof -
  have "ln_slots l = []" "ln_accept l = Acc_None" using assms(1-3) by (simp_all add: listener_inv_def)
  with assms(4) show ?thesis by (cases a) (auto simp: slot_at_def accept_return_def split: if_splits)
qed

text \<open>Every handler of the session has returned; the close handler, if there is one, was the last.\<close>

definition served :: "SessionSlot \<Rightarrow> bool" where
  "served sl \<longleftrightarrow> pending sl = []
     \<and> (if ev_on_close (ss_events (sl_session sl))
        then \<exists>xs. handled (sl_session sl) = xs @ [Ses_Close] \<and> Ses_Close \<notin> set xs else True)"

lemma exited_served: "slot_ok sl \<Longrightarrow> sl_exited sl \<Longrightarrow> served sl"
  by (simp add: slot_ok_def session_inv_def served_def)

section \<open>Properties\<close>

text \<open>
  C17. A listener stops completely. Whatever connections arrive and whatever its sessions do: the
  listening socket stays open as long as the accept thread exists; when the sessions are destroyed
  every handler of every session has returned, the close handler exactly once and last; and a
  stopped listener has no socket, no accept thread and no session left and runs none of the
  application's handlers.
\<close>

theorem listener_stop_complete:
  assumes "listener_steps fac han as (Listener_new, g0) (l, g)"
  shows "(if ln_accept l \<noteq> Acc_None then ln_listen_fd l else True)
    \<and> (if ln_stop l = Stop_Join_Sessions \<and> Listener_stop l \<noteq> None
       then list_all served (ln_slots l)
       else True)
    \<and> (if ln_stop l = Stop_Idle \<and> \<not> ln_running l
       then \<not> ln_listen_fd l \<and> ln_accept l = Acc_None \<and> ln_slots l = []
         \<and> (case listener_do fac han a (l, g) of None \<Rightarrow> True | Some (l', g') \<Rightarrow> g' = g)
       else True)"
proof -
  have inv: "listener_inv l" using listener_inv_steps [OF assms] listener_inv_new by simp
  have "ln_stop l = Stop_Join_Sessions \<and> Listener_stop l \<noteq> None \<longrightarrow> list_all served (ln_slots l)"
    using inv exited_served by (auto simp: Listener_stop_def listener_inv_def list_all_iff split: if_splits)
  moreover have "ln_stop l = Stop_Idle \<and> \<not> ln_running l \<longrightarrow>
      (case listener_do fac han a (l, g) of None \<Rightarrow> True | Some (l', g') \<Rightarrow> g' = g)"
    using stopped_silent [OF inv] by (auto split: option.split)
  ultimately show ?thesis using inv by (auto simp: listener_inv_def)
qed


definition demo_factory :: "unit factory" where
  "demo_factory p g = (\<lparr>ev_on_message = False, ev_on_connect = False, ev_on_stream = False, ev_on_close = True\<rparr>, [], g)"

definition demo_handler :: "unit handler" where
  "demo_handler p e g = g"

text \<open>One connection is accepted; \<open>stop\<close> is called and gets as far as the joins of the session threads.\<close>

definition demo_listener :: "listener_action list" where
  "demo_listener = [Act_Start True True True, Act_Check, Act_Accept (Some 7), Act_Check, Act_Stop, Act_Stop,
     Act_Accept None, Act_Stop, Act_Stop]"

definition demo_slot :: SessionSlot where
  "demo_slot = \<lparr>sl_ptr = 7, sl_session = ServerSession_close (ServerSession_new (fst (demo_factory 7 ()))),
     sl_handled = 0, sl_exited = False\<rparr>"

definition demo_stopping :: Listener where
  "demo_stopping = Listener_new\<lparr>ln_shut := True, ln_slots := [demo_slot], ln_stop := Stop_Join_Sessions\<rparr>"

lemma demo_listener_run: "listener_exec demo_factory demo_handler demo_listener (Listener_new, ()) = Some (demo_stopping, ())"
  by (simp add: demo_listener_def demo_factory_def Listener_new_def Listener_start_def accept_check_def accept_return_def
      Listener_stop_def demo_stopping_def demo_slot_def)

lemma demo_slot_open: "pending demo_slot = []" "\<not> sl_exited demo_slot" "sl_ptr demo_slot = 7"
  "ss_phase (sl_session demo_slot) = Ph_Handshake" "ss_closing (sl_session demo_slot)"
  "handled (sl_session demo_slot) = []" "ev_on_close (ss_events (sl_session demo_slot))"
  by (simp_all add: demo_slot_def pending_def)
    (simp_all add: handled_def ServerSession_new_def demo_factory_def)

text \<open>The rest of the session thread, up to its end.\<close>

definition demo_end :: "listener_action list" where
  "demo_end = [Act_Recv 7 (\<lambda>_. 0) (\<lambda>_. 0) [], Act_Event 7, Act_Exit 7]"


theorem listener_stop_complete_witness:
  "\<exists>l. listener_exec demo_factory demo_handler (demo_listener @ demo_end) (Listener_new, ()) = Some (l, ())
     \<and> list_all served (ln_slots l) \<and> Listener_stop l \<noteq> None"
proof -
  have at: "slot_at 7 demo_stopping = Some demo_slot" by (simp add: slot_at_def demo_stopping_def demo_slot_open)
  define s where "s = session_recv (\<lambda>_. 0) (\<lambda>_. 0) [] (sl_session demo_slot)"
  have s: "ss_phase s = Ph_Finished" "handled s = [Ses_Close]"
    using closing_recv [of "sl_session demo_slot"] by (simp_all add: s_def demo_slot_open)
  define l where "l = demo_stopping\<lparr>ln_slots := [demo_slot\<lparr>sl_session := s, sl_handled := 1, sl_exited := True\<rparr>]\<rparr>"
  have "listener_exec demo_factory demo_handler demo_end (demo_stopping, ()) = Some (l, ())"
    using s by (simp add: demo_end_def at thread_recv_def thread_event_def thread_exit_def demo_slot_open map_slot_def
        slot_at_def pending_def demo_stopping_def l_def flip: s_def)
      (simp add: demo_slot_def demo_handler_def slot_at_def thread_exit_def pending_def map_slot_def)
  then have run: "listener_exec demo_factory demo_handler (demo_listener @ demo_end) (Listener_new, ()) = Some (l, ())"
    by (simp add: listener_exec_append demo_listener_run)
  have "ln_stop l = Stop_Join_Sessions" "Listener_stop l \<noteq> None" by (simp_all add: l_def demo_stopping_def Listener_stop_def)
  with listener_stop_complete [OF listener_exec_steps [OF run], of Act_Stop] run show ?thesis by simp
qed

end
