(* ===== verification/Bridge.thy ===== *)
theory Bridge
  imports Frame_Codec Chunk_Roundtrip
begin

text \<open>
  \<^verbatim>\<open>gateway/src/bridge.cpp\<close>: RTMP messages widened into RoQR frames and narrowed back. A
  function with a \<open>bool\<close> result and an output reference returns the pair of the result and the
  output object, as it is left.
\<close>

section \<open>The code\<close>

definition to_frame :: "RtmpMessage \<Rightarrow> u64 \<Rightarrow> Frame" where
  "to_frame msg flow_id =
     \<lparr>f_flow_id = flow_id, f_timestamp = ucast (m_timestamp msg), f_message_type = m_type msg,
      f_message_stream_id = ucast (m_message_stream_id msg),
      f_chunk_stream_id = ucast (m_chunk_stream_id msg), f_payload = m_payload msg\<rparr>"

definition kU32Max :: u64 where "kU32Max = 0xFFFFFFFF"

definition to_rtmp :: "Frame \<Rightarrow> RtmpMessage \<Rightarrow> bool \<times> RtmpMessage" where
  "to_rtmp frame out =
     (if kU32Max < f_timestamp frame \<or> kU32Max < f_message_stream_id frame
         \<or> kU32Max < f_chunk_stream_id frame
      then (False, out)
      else (True, \<lparr>m_timestamp = ucast (f_timestamp frame), m_type = f_message_type frame,
              m_message_stream_id = ucast (f_message_stream_id frame),
              m_chunk_stream_id = ucast (f_chunk_stream_id frame), m_payload = f_payload frame\<rparr>))"

section \<open>Widening and narrowing\<close>

lemma ucast_bounded: "ucast (w :: u32) \<le> (kU32Max :: u64)"
proof -
  have "unat w < 2 ^ 32" by (rule order_less_le_trans [OF unsigned_less]) simp
  then show ?thesis by (simp add: kU32Max_def word_le_nat_alt unsigned_ucast_eq take_bit_nat_eq_self)
qed

lemma ucast_back [simp]: "ucast (ucast (w :: u32) :: u64) = w"
  by (rule bit_word_eqI) (auto simp: bit_simps dest: bit_imp_le_length)

lemma ucast_wide: "w \<le> kU32Max \<Longrightarrow> ucast (ucast (w :: u64) :: u32) = w"
proof -
  assume "w \<le> kU32Max"
  then have "unat w < 2 ^ 32" by (simp add: kU32Max_def word_le_nat_alt)
  then have "bit w n \<Longrightarrow> n < 32" for n by (rule bit_below)
  then show ?thesis by (intro bit_word_eqI) (auto simp: bit_simps)
qed

lemma to_rtmp_to_frame [simp]: "to_rtmp (to_frame msg fid) out = (True, msg)"
  using ucast_bounded by (simp add: to_rtmp_def to_frame_def linorder_not_less [symmetric])

lemma to_frame_ok:
  assumes "m_payload msg \<noteq> []" and "fid \<le> kVarintMax" and "length (m_payload msg) \<le> unat kVarintMax"
  shows "frame_ok (to_frame msg fid)"
proof -
  have "ucast (w :: u32) \<le> kVarintMax" for w
    using ucast_bounded [of w] by (rule order_trans) (simp add: kU32Max_def kVarintMax_eq)
  with assms show ?thesis by (simp add: frame_ok_def to_frame_def)
qed

section \<open>Properties\<close>

text \<open>
  The width rule: an RTMP message survives the trip through a frame on any flow
  unchanged; a frame can be narrowed exactly when its three wide fields fit in 32 bits, the
  narrowed message widens back to the frame, and a refused frame leaves the output untouched.
\<close>

theorem bridge_roundtrip:
  "to_rtmp (to_frame msg fid) out = (True, msg)
   \<and> (if f_timestamp f \<le> kU32Max \<and> f_message_stream_id f \<le> kU32Max \<and> f_chunk_stream_id f \<le> kU32Max
      then \<exists>m. to_rtmp f out = (True, m) \<and> to_frame m (f_flow_id f) = f
      else to_rtmp f out = (False, out))"
proof -
  have "to_frame (snd (to_rtmp f out)) (f_flow_id f) = f"
    if "f_timestamp f \<le> kU32Max" "f_message_stream_id f \<le> kU32Max" "f_chunk_stream_id f \<le> kU32Max"
    using that by (simp add: to_rtmp_def to_frame_def ucast_wide linorder_not_less [symmetric])
  moreover have "to_rtmp f out = (True, snd (to_rtmp f out))"
    if "f_timestamp f \<le> kU32Max" "f_message_stream_id f \<le> kU32Max" "f_chunk_stream_id f \<le> kU32Max"
    using that by (simp add: to_rtmp_def linorder_not_less [symmetric])
  moreover have "to_rtmp f out = (False, out)"
    if "\<not> (f_timestamp f \<le> kU32Max \<and> f_message_stream_id f \<le> kU32Max \<and> f_chunk_stream_id f \<le> kU32Max)"
    using that by (auto simp: to_rtmp_def linorder_not_less [symmetric])
  ultimately show ?thesis using to_rtmp_to_frame by metis
qed

end
