(* ===== verification/Rtmp_Commands.thy ===== *)
theory Rtmp_Commands
  imports Amf0 Chunk_Roundtrip
begin

text \<open>
  \<^verbatim>\<open>gateway/src/rtmp_commands.cpp\<close>: RTMP AMF0 command messages, built and parsed. Numbers
  (\<open>double\<close>) are IEEE 754 bit patterns as in \<open>Amf0\<close>; the literal 0 is the pattern 0.
\<close>

section \<open>The code\<close>

record Command =
  cmd_name :: string
  cmd_transaction_id :: u64
  cmd_args :: "Amf0Value list"

definition command_message :: "Amf0Value list \<Rightarrow> u32 \<Rightarrow> RtmpMessage" where
  "command_message values message_stream_id =
     empty_message\<lparr>m_chunk_stream_id := 3, m_type := kTypeCommandAmf0,
       m_message_stream_id := message_stream_id,
       m_payload := fold amf0_encode values (m_payload empty_message)\<rparr>"

definition status_info :: "string \<Rightarrow> string \<Rightarrow> Amf0Value" where
  "status_info code desc =
     Amf_Object (set_property ''description'' (Amf_String desc)
       (set_property ''code'' (Amf_String code)
         (set_property ''level'' (Amf_String ''status'') [])))"

definition parse_command :: "RtmpMessage \<Rightarrow> Command option" where
  "parse_command msg =
     (if m_type msg \<noteq> kTypeCommandAmf0 then None
      else case amf0_decode_all (m_payload msg) of
        None \<Rightarrow> None
      | Some values \<Rightarrow>
          (case values of
             Amf_String name # Amf_Number txn # args \<Rightarrow>
               Some \<lparr>cmd_name = name, cmd_transaction_id = txn, cmd_args = args\<rparr>
           | _ \<Rightarrow> None))"

definition build_connect :: "u64 \<Rightarrow> string \<Rightarrow> string \<Rightarrow> RtmpMessage" where
  "build_connect txn app tc_url =
     (let obj = Amf_Object (set_property ''type'' (Amf_String ''nonprivate'')
                  (set_property ''tcUrl'' (Amf_String tc_url)
                    (set_property ''app'' (Amf_String app) [])))
      in command_message [Amf_String ''connect'', Amf_Number txn, obj] 0)"

definition build_create_stream :: "u64 \<Rightarrow> RtmpMessage" where
  "build_create_stream txn = command_message [Amf_String ''createStream'', Amf_Number txn, Amf_Null] 0"

definition build_publish :: "u64 \<Rightarrow> string \<Rightarrow> RtmpMessage" where
  "build_publish txn stream_name =
     command_message [Amf_String ''publish'', Amf_Number txn, Amf_Null, Amf_String stream_name,
       Amf_String ''live''] 1"

definition build_play :: "u64 \<Rightarrow> string \<Rightarrow> RtmpMessage" where
  "build_play txn stream_name =
     command_message [Amf_String ''play'', Amf_Number txn, Amf_Null, Amf_String stream_name] 1"

definition build_result_object :: "u64 \<Rightarrow> Amf0Value \<Rightarrow> Amf0Value \<Rightarrow> RtmpMessage" where
  "build_result_object txn props info =
     command_message [Amf_String ''_result'', Amf_Number txn, props, info] 0"

definition build_result_stream_id :: "u64 \<Rightarrow> u64 \<Rightarrow> RtmpMessage" where
  "build_result_stream_id txn stream_id =
     command_message [Amf_String ''_result'', Amf_Number txn, Amf_Null, Amf_Number stream_id] 0"

definition build_on_status :: "string \<Rightarrow> string \<Rightarrow> RtmpMessage" where
  "build_on_status code description =
     command_message [Amf_String ''onStatus'', Amf_Number 0, Amf_Null, status_info code description] 1"

lemmas command_builders = build_connect_def build_create_stream_def build_publish_def build_play_def
  build_result_object_def build_result_stream_id_def build_on_status_def

section \<open>Round trip\<close>

text \<open>Limits of the values that go into a command.\<close>

abbreviation sendable :: "Amf0Value \<Rightarrow> bool" where
  "sendable v \<equiv> amf0_ok (Suc kMaxDepth) v"

lemma sendable_flat [simp]:
  "sendable Amf_Null" "sendable (Amf_Number n)" "sendable (Amf_String s) = (length s < 2 ^ 32)"
  by simp_all

lemma sendable_flat_object:
  assumes "names_ok ps" and "list_all (\<lambda>(k, v). case v of Amf_String s \<Rightarrow> length s < 2 ^ 32 | _ \<Rightarrow> False) ps"
  shows "sendable (Amf_Object ps)"
proof -
  have "amf0_ok (Suc (Suc n)) (Amf_Object ps)" for n
    using assms by (fastforce simp: list_all_iff split: Amf0Value.splits)
  from this [of 31] show ?thesis by (simp only: kMaxDepth_Suc)
qed

lemma decode_command_message:
  assumes "list_all sendable vs"
  shows "amf0_decode_all (m_payload (command_message vs sid)) = Some vs"
  using amf0.dec_all_concat [OF assms] encode_all [of vs "[]"] by (simp add: command_message_def empty_message_def)

lemma parse_command_message:
  assumes "list_all sendable (Amf_String name # Amf_Number txn # args)"
  shows "parse_command (command_message (Amf_String name # Amf_Number txn # args) sid)
    = Some \<lparr>cmd_name = name, cmd_transaction_id = txn, cmd_args = args\<rparr>"
  using decode_command_message [OF assms, of sid] by (simp add: parse_command_def command_message_def)

section \<open>Properties\<close>

text \<open>
  Every command the gateway builds parses back to the name, transaction id and arguments
  it was built from, provided its strings are shorter than 2^32 bytes and the objects passed
  in are within the limits of the format.
\<close>

theorem commands_roundtrip:
  assumes "length app < 2 ^ 32" "length url < 2 ^ 32" "length stream < 2 ^ 32" "length code < 2 ^ 32"
    "length desc < 2 ^ 32" "sendable props" "sendable info"
  shows "parse_command (build_connect txn app url)
       = Some \<lparr>cmd_name = ''connect'', cmd_transaction_id = txn, cmd_args = [Amf_Object
           [(''app'', Amf_String app), (''tcUrl'', Amf_String url), (''type'', Amf_String ''nonprivate'')]]\<rparr>
    \<and> parse_command (build_create_stream txn)
       = Some \<lparr>cmd_name = ''createStream'', cmd_transaction_id = txn, cmd_args = [Amf_Null]\<rparr>
    \<and> parse_command (build_publish txn stream)
       = Some \<lparr>cmd_name = ''publish'', cmd_transaction_id = txn,
           cmd_args = [Amf_Null, Amf_String stream, Amf_String ''live'']\<rparr>
    \<and> parse_command (build_play txn stream)
       = Some \<lparr>cmd_name = ''play'', cmd_transaction_id = txn, cmd_args = [Amf_Null, Amf_String stream]\<rparr>
    \<and> parse_command (build_result_object txn props info)
       = Some \<lparr>cmd_name = ''_result'', cmd_transaction_id = txn, cmd_args = [props, info]\<rparr>
    \<and> parse_command (build_result_stream_id txn sid)
       = Some \<lparr>cmd_name = ''_result'', cmd_transaction_id = txn, cmd_args = [Amf_Null, Amf_Number sid]\<rparr>
    \<and> parse_command (build_on_status code desc)
       = Some \<lparr>cmd_name = ''onStatus'', cmd_transaction_id = 0, cmd_args = [Amf_Null, Amf_Object
           [(''level'', Amf_String ''status''), (''code'', Amf_String code), (''description'', Amf_String desc)]]\<rparr>"
proof -
  have o1: "sendable (Amf_Object [(''app'', Amf_String app), (''tcUrl'', Amf_String url),
      (''type'', Amf_String ''nonprivate'')])"
    using assms(1,2) by (intro sendable_flat_object) (simp_all add: names_ok_def)
  have o2: "sendable (Amf_Object [(''level'', Amf_String ''status''), (''code'', Amf_String code),
      (''description'', Amf_String desc)])"
    using assms(4,5) by (intro sendable_flat_object) (simp_all add: names_ok_def)
  show ?thesis
    unfolding command_builders status_info_def Let_def
    using assms o1 o2 by (simp add: parse_command_message del: amf0_ok.simps(2))
qed

end
