(* ===== verification/Gateways.thy ===== *)
theory Gateways
  imports Supervisor Gateway_Queues Listener Bridge Rtmp_Commands
begin

text \<open>
  \<^verbatim>\<open>gateway/src/ingest.cpp\<close> and \<^verbatim>\<open>gateway/src/egress.cpp\<close>: RTMP publisher to RoQR, and RoQR to RTMP
  player.

  Each critical section is one operation. The egress gateway's handler for a received frame
  releases its mutex before it enqueues the message, so it is two operations, \<open>on_frame_check\<close> and
  \<open>on_frame_push\<close>; \<open>on_frame\<close> runs them in a row. The writer thread likewise takes a message
  (\<open>writer_pop\<close>) and looks for the player afterwards (\<open>writer_player\<close>). A player is the address of its
  session in the listener. The gateways with all their threads are theories \<open>Ingest_Gateway\<close> and
  \<open>Egress_Gateway\<close>.
\<close>

section \<open>Ingest\<close>

record IngestOptions =
  io_rtmp_port :: u16
  io_roqr_host :: string
  io_roqr_port :: u16
  io_insecure_skip_verify :: bool
  io_reconnect :: ReconnectPolicy
  io_idle_timeout :: int

definition default_ingest_options :: IngestOptions where
  "default_ingest_options = \<lparr>io_rtmp_port = 1935, io_roqr_host = ''127.0.0.1'', io_roqr_port = 4443,
     io_insecure_skip_verify = True, io_reconnect = default_reconnect_policy, io_idle_timeout = 15000\<rparr>"

record Ingest =
  in_options :: IngestOptions
  in_supervisor :: "Supervisor option"

definition Ingest_new :: "IngestOptions \<Rightarrow> Ingest" where
  "Ingest_new options = \<lparr>in_options = options, in_supervisor = None\<rparr>"

definition mode_for :: "RtmpMessage \<Rightarrow> DeliveryMode" where
  "mode_for msg =
     (if m_type msg \<noteq> 8 \<and> m_type msg \<noteq> 9 then Mode_Stream
      else case (if m_type msg = 9 then classify_video (m_payload msg) else classify_audio (m_payload msg)) of
        None \<Rightarrow> Mode_Stream
      | Some info \<Rightarrow>
          if mi_force_stream info \<or> mi_cls info = SequenceHeader \<or> mi_cls info = Metadata \<or> mi_cls info = Control
          then Mode_Stream else Mode_Auto)"

text \<open>The handshake of a session over RoQR; 1.0, 2.0 and 3.0 as bit patterns.\<close>

definition session_preamble :: "RtmpMessage \<Rightarrow> (Frame \<times> DeliveryMode) list" where
  "session_preamble final =
     [(to_frame (build_connect 0x3FF0000000000000 ''live'' ''rtmp://roqr/live'') 0, Mode_Stream),
      (to_frame (build_create_stream 0x4000000000000000) 0, Mode_Stream),
      (to_frame final 0, Mode_Stream)]"

definition gateway_client_options :: "bool \<Rightarrow> int \<Rightarrow> ClientOptions" where
  "gateway_client_options insecure timeout =
     default_client_options\<lparr>co_insecure_skip_verify := insecure, co_idle_timeout := timeout\<rparr>"

definition begin_publish :: "string \<Rightarrow> Ingest \<Rightarrow> Ingest" where
  "begin_publish name g =
     (case in_supervisor g of
        Some _ \<Rightarrow> g
      | None \<Rightarrow>
          g\<lparr>in_supervisor := Some (Supervisor_start (Supervisor_new
               (gateway_client_options (io_insecure_skip_verify (in_options g)) (io_idle_timeout (in_options g)))
               (io_reconnect (in_options g))
               (session_preamble (build_publish 0x4008000000000000 name))))\<rparr>)"

definition forward :: "RtmpMessage \<Rightarrow> Ingest \<Rightarrow> Ingest" where
  "forward msg g =
     (if m_payload msg = [] then g
      else case in_supervisor g of
        None \<Rightarrow> g
      | Some s \<Rightarrow> g\<lparr>in_supervisor := Some (snd (Supervisor_send (to_frame msg 0) (mode_for msg) s))\<rparr>)"

text \<open>The session events the gateway installs; the others are empty functions.\<close>

fun ingest_event :: "session_event \<Rightarrow> Ingest \<Rightarrow> Ingest" where
  "ingest_event (Ses_Stream name publishing) g = (if publishing then begin_publish name g else g)"
| "ingest_event (Ses_Message msg) g = forward msg g"
| "ingest_event e g = g"

definition ingest_events :: SessionEvents where
  "ingest_events = \<lparr>ev_on_message = True, ev_on_connect = False, ev_on_stream = True, ev_on_close = False\<rparr>"

definition ingest_factory :: "Ingest factory" where
  "ingest_factory s g = (ingest_events, [], g)"

definition Ingest_stop :: "Ingest \<Rightarrow> Ingest" where
  "Ingest_stop g = g\<lparr>in_supervisor := map_option Supervisor_stop (in_supervisor g)\<rparr>"

section \<open>Egress\<close>

definition kMaxQueuedMessages :: nat where "kMaxQueuedMessages = 512"

record Egress =
  eg_player :: "nat option"
  eg_player_ready :: bool
  eg_init_types :: "byte list"
  eg_init_cache :: "byte \<rightharpoonup> RtmpMessage"
  eg_gaps :: GapTracker
  eg_queue :: PlayerQueue
  eg_playing :: bool
  eg_aborted :: bool                           \<comment> \<open>\<^verbatim>\<open>std::map::at\<close> threw\<close>

definition Egress_new :: Egress where
  "Egress_new = \<lparr>eg_player = None, eg_player_ready = False, eg_init_types = [], eg_init_cache = Map.empty,
     eg_gaps = GapTracker_new, eg_queue = PlayerQueue_new kMaxQueuedMessages, eg_playing = False, eg_aborted = False\<rparr>"

definition is_init :: "RtmpMessage \<Rightarrow> bool" where
  "is_init msg =
     (if m_type msg = kTypeDataAmf0 \<or> m_type msg = 15 then True
      else if m_type msg = kTypeAudio \<or> m_type msg = kTypeVideo then
        (case (if m_type msg = kTypeVideo then classify_video (m_payload msg) else classify_audio (m_payload msg)) of
           None \<Rightarrow> False
         | Some info \<Rightarrow> mi_cls info = SequenceHeader)
      else False)"

definition accept_video :: "RtmpMessage \<Rightarrow> Egress \<Rightarrow> bool \<times> Egress" where
  "accept_video msg g =
     (case GapTracker_accept (m_timestamp msg)
             (case classify_video (m_payload msg) of None \<Rightarrow> Class_Unknown | Some info \<Rightarrow> mi_cls info) (eg_gaps g) of
        (ok, gaps) \<Rightarrow> (ok, g\<lparr>eg_gaps := gaps\<rparr>))"

definition cache_message :: "byte \<Rightarrow> RtmpMessage \<Rightarrow> Egress \<Rightarrow> Egress" where
  "cache_message ty msg g =
     (let g = (if eg_init_cache g ty = None then g\<lparr>eg_init_types := eg_init_types g @ [ty]\<rparr> else g)
      in g\<lparr>eg_init_cache := (eg_init_cache g)(ty \<mapsto> msg)\<rparr>)"

definition on_frame_check :: "Frame \<Rightarrow> Egress \<Rightarrow> (RtmpMessage \<times> Kind) option \<times> Egress" where
  "on_frame_check f g =
     (case to_rtmp f empty_message of
        (False, _) \<Rightarrow> (None, g)
      | (True, msg) \<Rightarrow>
          if m_type msg = kTypeCommandAmf0 then (None, g)
          else case (if m_type msg = 9 then accept_video msg g else (True, g)) of
            (False, g) \<Rightarrow> (None, g)
          | (True, g) \<Rightarrow>
              (let init = is_init msg;
                   g = (if init then cache_message (m_type msg) msg g else g)
               in if \<not> eg_player_ready g then (None, g)
                  else (Some (msg, if init then Kind_Init else Kind_Coded), g)))"

definition on_frame_push :: "(RtmpMessage \<times> Kind) option \<Rightarrow> Egress \<Rightarrow> Egress" where
  "on_frame_push e g =
     (case e of
        None \<Rightarrow> g
      | Some (msg, kind) \<Rightarrow> g\<lparr>eg_queue := snd (PlayerQueue_push msg kind (eg_queue g))\<rparr>)"

definition on_frame :: "Frame \<Rightarrow> Egress \<Rightarrow> Egress" where
  "on_frame f g = (case on_frame_check f g of (e, g) \<Rightarrow> on_frame_push e g)"

definition on_player_play :: "Egress \<Rightarrow> Egress" where
  "on_player_play g =
     (case eg_player g of
        None \<Rightarrow> g
      | Some _ \<Rightarrow>
          (case those (map (eg_init_cache g) (eg_init_types g)) of
             None \<Rightarrow> g\<lparr>eg_aborted := True\<rparr>
           | Some msgs \<Rightarrow>
               g\<lparr>eg_queue := fold (\<lambda>m q. snd (PlayerQueue_push m Kind_Init q)) msgs (eg_queue g),
                 eg_player_ready := True\<rparr>))"

text \<open>The factory of the player's session events; a previous player is closed.\<close>

definition previous_player :: "nat \<Rightarrow> Egress \<Rightarrow> nat list" where
  "previous_player s g = (case eg_player g of Some p \<Rightarrow> if p \<noteq> s then [p] else [] | None \<Rightarrow> [])"

definition install_player :: "nat \<Rightarrow> Egress \<Rightarrow> Egress" where
  "install_player s g = g\<lparr>eg_queue := PlayerQueue_clear (eg_queue g), eg_player := Some s, eg_player_ready := False\<rparr>"

definition egress_factory :: "Egress factory" where
  "egress_factory s g =
     (\<lparr>ev_on_message = False, ev_on_connect = False, ev_on_stream = True, ev_on_close = True\<rparr>,
      previous_player s g, install_player s g)"

definition player_closed :: "nat \<Rightarrow> Egress \<Rightarrow> Egress" where
  "player_closed s g = (if eg_player g = Some s then g\<lparr>eg_player := None, eg_player_ready := False\<rparr> else g)"

definition writer_pop :: "Egress \<Rightarrow> (RtmpMessage option \<times> Egress) option" where
  "writer_pop g = map_option (\<lambda>(m, q). (m, g\<lparr>eg_queue := q\<rparr>)) (PlayerQueue_pop (eg_queue g))"

fun egress_handler :: "Egress handler" where
  "egress_handler s (Ses_Stream name publishing) g = (if publishing then g else on_player_play g)"
| "egress_handler s Ses_Close g = player_closed s g"
| "egress_handler s e g = g"

definition writer_player :: "Egress \<Rightarrow> nat option" where
  "writer_player g = (if eg_player_ready g then eg_player g else None)"

definition egress_preamble :: "string \<Rightarrow> (Frame \<times> DeliveryMode) list" where
  "egress_preamble stream_name = session_preamble (build_play 0x4008000000000000 stream_name)"

section \<open>Properties\<close>

interpretation egress_cache: ordered_cache cache_message eg_init_types eg_init_cache
  by unfold_locales (simp_all add: cache_message_def Let_def)

lemma on_player_play_player [simp]: "eg_player (on_player_play g) = eg_player g"
  by (simp add: on_player_play_def split: option.split)

lemma egress_handler_player:
  "eg_player (egress_handler s e g) = (if e = Ses_Close \<and> eg_player g = Some s then None else eg_player g)"
  by (cases e) (simp_all add: player_closed_def)

abbreviation egress_refers :: "Egress \<Rightarrow> nat \<Rightarrow> bool" where
  "egress_refers g p \<equiv> eg_player g = Some p"

text \<open>Neither gateway keeps a pointer to a session beyond the session's close handler.\<close>

interpretation egress_sessions: session_owner egress_factory egress_handler egress_refers
  by unfold_locales
    (auto simp: egress_factory_def install_player_def previous_player_def player_closed_def egress_handler_player
      split: option.splits if_splits)

interpretation ingest_sessions: session_owner ingest_factory "\<lambda>s. ingest_event" "\<lambda>g p. False"
  by unfold_locales (auto simp: ingest_factory_def)

text \<open>The init messages among received frames, and what a frame becomes for a ready player.\<close>

definition init_message :: "Frame \<Rightarrow> (byte \<times> RtmpMessage) list" where
  "init_message f =
     (case to_rtmp f empty_message of
        (True, m) \<Rightarrow> if is_init m then [(m_type m, m)] else []
      | (False, _) \<Rightarrow> [])"

definition init_history :: "Frame list \<Rightarrow> (byte \<times> RtmpMessage) list" where
  "init_history fs = concat (map init_message fs)"

definition entry_of :: "GapTracker \<Rightarrow> Frame \<Rightarrow> queue_entry option \<times> GapTracker" where
  "entry_of gt f =
     (case on_frame_check f (Egress_new\<lparr>eg_gaps := gt, eg_player_ready := True\<rparr>) of (e, g) \<Rightarrow> (e, eg_gaps g))"

fun live_entries :: "GapTracker \<Rightarrow> Frame list \<Rightarrow> queue_entry list" where
  "live_entries gt [] = []"
| "live_entries gt (f # fs) =
     (case entry_of gt f of (e, gt) \<Rightarrow> (case e of None \<Rightarrow> [] | Some x \<Rightarrow> [x]) @ live_entries gt fs)"

lemma is_init_not_command: "is_init m \<Longrightarrow> m_type m \<noteq> kTypeCommandAmf0"
  by (auto simp: is_init_def message_types)

lemma accept_video_init: "m_type m = 9 \<Longrightarrow> is_init m \<Longrightarrow> fst (accept_video m g)"
  by (auto simp: is_init_def accept_video_def GapTracker_accept_def recovers_def message_types Let_def
      split: option.splits)

text \<open>The gap tracker is all that the video gate changes.\<close>

lemma gate_frame:
  assumes "(if b then accept_video m g else (True, g)) = (acc, g')"
  obtains gt where "g' = g\<lparr>eg_gaps := gt\<rparr>"
proof (cases b)
  case True
  with assms that show thesis by (auto simp: accept_video_def split: prod.splits)
next
  case False
  with assms that [of "eg_gaps g"] show thesis by simp
qed

lemma holds_gaps [simp]: "egress_cache.holds h (g\<lparr>eg_gaps := gt\<rparr>) = egress_cache.holds h g"
  by (simp add: egress_cache.holds_def)

lemma check_cases:
  obtains "to_rtmp f empty_message = (False, snd (to_rtmp f empty_message))" "on_frame_check f g = (None, g)" "init_message f = []"
  | m gt where "to_rtmp f empty_message = (True, m)" "\<not> is_init m" "on_frame_check f g = (None, g\<lparr>eg_gaps := gt\<rparr>)"
      "init_message f = []"
  | m gt where "to_rtmp f empty_message = (True, m)" "is_init m" "init_message f = [(m_type m, m)]"
      "on_frame_check f g = (if eg_player_ready g then Some (m, Kind_Init) else None,
         cache_message (m_type m) m (g\<lparr>eg_gaps := gt\<rparr>))"
  | m gt where "to_rtmp f empty_message = (True, m)" "\<not> is_init m" "init_message f = []"
      "on_frame_check f g = (if eg_player_ready g then Some (m, Kind_Coded) else None, g\<lparr>eg_gaps := gt\<rparr>)"
proof -
  obtain ok m where m: "to_rtmp f empty_message = (ok, m)" by (cases "to_rtmp f empty_message")
  obtain acc g' where a: "(if m_type m = 9 then accept_video m g else (True, g)) = (acc, g')"
    by (cases "if m_type m = 9 then accept_video m g else (True, g)")
  then obtain gt where g': "g' = g\<lparr>eg_gaps := gt\<rparr>" by (rule gate_frame)
  have ready: "eg_player_ready (cache_message ty x g') = eg_player_ready g" for ty x
    by (simp add: g' cache_message_def Let_def)
  consider "\<not> ok" | "ok" "m_type m = kTypeCommandAmf0" | "ok" "m_type m \<noteq> kTypeCommandAmf0" "\<not> acc"
    | "ok" "m_type m \<noteq> kTypeCommandAmf0" "acc" "is_init m" | "ok" "m_type m \<noteq> kTypeCommandAmf0" "acc" "\<not> is_init m" by blast
  then show thesis
  proof cases
    case 1
    with m show thesis by (intro that(1)) (simp_all add: on_frame_check_def init_message_def)
  next
    case 2
    with m is_init_not_command [of m] show thesis
      by (intro that(2) [of m "eg_gaps g"]) (auto simp: on_frame_check_def init_message_def)
  next
    case 3
    then have "\<not> is_init m" using a accept_video_init [of m g] by (auto split: if_splits)
    with 3 m a g' show thesis
      by (intro that(2) [of m gt]) (simp_all add: on_frame_check_def init_message_def)
  next
    case 4
    with m a g' ready show thesis
      by (intro that(3) [of m gt]) (simp_all add: on_frame_check_def init_message_def Let_def)
  next
    case 5
    with m a g' show thesis
      by (intro that(4) [of m gt]) (simp_all add: on_frame_check_def init_message_def Let_def)
  qed
qed

lemma cache_message_fields [simp]:
  "eg_queue (cache_message ty m g) = eg_queue g" "eg_player_ready (cache_message ty m g) = eg_player_ready g"
  "eg_player (cache_message ty m g) = eg_player g" "eg_aborted (cache_message ty m g) = eg_aborted g"
  "eg_gaps (cache_message ty m g) = eg_gaps g"
  by (simp_all add: cache_message_def Let_def)

lemma check_fields [simp]:
  "eg_queue (snd (on_frame_check f g)) = eg_queue g" "eg_player_ready (snd (on_frame_check f g)) = eg_player_ready g"
  "eg_player (snd (on_frame_check f g)) = eg_player g" "eg_aborted (snd (on_frame_check f g)) = eg_aborted g"
  by (cases rule: check_cases [of f g]; simp)+

lemma check_cache:
  assumes "egress_cache.holds h g"
  shows "egress_cache.holds (h @ init_message f) (snd (on_frame_check f g))"
  using assms by (cases rule: check_cases [of f g]) (simp_all add: egress_cache.holds_put)

lemma check_not_ready: "\<not> eg_player_ready g \<Longrightarrow> fst (on_frame_check f g) = None"
  by (cases rule: check_cases [of f g]) simp_all

lemma check_ready:
  assumes "eg_player_ready g"
  shows "fst (on_frame_check f g) = fst (entry_of (eg_gaps g) f)
    \<and> eg_gaps (snd (on_frame_check f g)) = snd (entry_of (eg_gaps g) f)"
  using assms
  by (simp add: entry_of_def on_frame_check_def accept_video_def Let_def split: prod.split bool.split)

lemma on_frame_cache: "egress_cache.holds h g \<Longrightarrow> egress_cache.holds (h @ init_message f) (on_frame f g)"
  using check_cache [of h g f]
  by (auto simp: on_frame_def on_frame_push_def egress_cache.holds_def split: prod.split option.split)

lemma on_frames_cache: "egress_cache.holds h g \<Longrightarrow> egress_cache.holds (h @ init_history fs) (fold on_frame fs g)"
proof (induction fs arbitrary: h g)
  case (Cons f fs)
  then show ?case using Cons.IH [OF on_frame_cache [OF Cons.prems]] by (simp add: init_history_def)
qed (simp add: init_history_def)

lemma on_frame_fields [simp]:
  "eg_player_ready (on_frame f g) = eg_player_ready g" "eg_player (on_frame f g) = eg_player g"
  "eg_aborted (on_frame f g) = eg_aborted g"
  using check_fields [of f g]
  by (auto simp: on_frame_def on_frame_push_def simp del: check_fields split: prod.split option.split)

lemma on_frames_fields [simp]:
  "eg_player_ready (fold on_frame fs g) = eg_player_ready g" "eg_player (fold on_frame fs g) = eg_player g"
  "eg_aborted (fold on_frame fs g) = eg_aborted g"
  by (induction fs arbitrary: g) simp_all

text \<open>Nobody ready: frames are cached, nothing is enqueued.\<close>

lemma on_frames_not_ready:
  "\<not> eg_player_ready g \<Longrightarrow> eg_queue (fold on_frame fs g) = eg_queue g"
proof (induction fs arbitrary: g)
  case (Cons f fs)
  have "eg_queue (on_frame f g) = eg_queue g"
    using check_not_ready [OF Cons.prems, of f] check_fields(1) [of f g]
    by (cases "on_frame_check f g") (simp add: on_frame_def on_frame_push_def)
  with Cons show ?case by simp
qed simp

abbreviation room :: "nat \<Rightarrow> PlayerQueue \<Rightarrow> bool" where
  "room n q \<equiv> \<not> pq_closed q \<and> length (pq_queue q) + n \<le> pq_max q"

lemma push_room:
  "room (Suc 0) q \<Longrightarrow> snd (PlayerQueue_push m k q) = q\<lparr>pq_queue := pq_queue q @ [(m, k)]\<rparr>"
  by (simp add: PlayerQueue_push_def)

lemma pushes_room:
  "room (length ms) q \<Longrightarrow>
     fold (\<lambda>m q. snd (PlayerQueue_push m Kind_Init q)) ms q = q\<lparr>pq_queue := pq_queue q @ map (\<lambda>m. (m, Kind_Init)) ms\<rparr>"
  by (induction ms arbitrary: q) (simp_all add: push_room)

lemma on_frames_ready:
  assumes "eg_player_ready g" and "room (length fs) (eg_queue g)"
  shows "eg_queue (fold on_frame fs g) = (eg_queue g)\<lparr>pq_queue := pq_queue (eg_queue g) @ live_entries (eg_gaps g) fs\<rparr>"
  using assms
proof (induction fs arbitrary: g)
  case (Cons f fs)
  obtain e g' where c: "on_frame_check f g = (e, g')" by (cases "on_frame_check f g")
  obtain gt where eo: "entry_of (eg_gaps g) f = (e, gt)" "eg_gaps g' = gt"
    using check_ready [OF Cons.prems(1), of f] c by (metis fst_conv prod.collapse snd_conv)
  have same: "eg_queue g' = eg_queue g" "eg_player_ready g'"
    using check_fields [of f g] c Cons.prems(1) by simp_all
  let ?new = "case e of None \<Rightarrow> [] | Some x \<Rightarrow> [x]"
  have q: "eg_queue (on_frame f g) = (eg_queue g)\<lparr>pq_queue := pq_queue (eg_queue g) @ ?new\<rparr>"
    and gp: "eg_gaps (on_frame f g) = gt"
    using c same eo(2) Cons.prems(2) by (auto simp: on_frame_def on_frame_push_def push_room split: option.split)
  have "eg_queue (fold on_frame fs (on_frame f g)) = (eg_queue (on_frame f g))
      \<lparr>pq_queue := pq_queue (eg_queue (on_frame f g)) @ live_entries (eg_gaps (on_frame f g)) fs\<rparr>"
    by (rule Cons.IH) (use Cons.prems q in \<open>auto split: option.split\<close>)
  then show ?case by (simp add: q gp eo(1))
qed simp

lemma egress_new_cache: "egress_cache.holds [] Egress_new"
  by (simp add: egress_cache.holds_def Egress_new_def)

lemma install_cache: "egress_cache.holds h g \<Longrightarrow> egress_cache.holds h (install_player p g)"
  by (auto simp: egress_cache.holds_def install_player_def Let_def split: option.split)


definition demo_metadata :: Frame where
  "demo_metadata = \<lparr>f_flow_id = 0, f_timestamp = 0, f_message_type = 18, f_message_stream_id = 1, f_chunk_stream_id = 4,
     f_payload = [2]\<rparr>"

definition demo_audio :: Frame where
  "demo_audio = \<lparr>f_flow_id = 0, f_timestamp = 20, f_message_type = 8, f_message_stream_id = 1, f_chunk_stream_id = 4,
     f_payload = [0xAF, 1, 0]\<rparr>"

lemma demo_messages:
  "init_history [demo_metadata] = [(18, snd (to_rtmp demo_metadata empty_message))]"
  by code_simp


text \<open>
  With the mutex released between the check and the push, a frame that was checked for the previous
  player can be enqueued after the queue was cleared for the next one, in front of its init frames.
\<close>

lemma egress_stale_frame:
  "(case on_frame_check demo_audio (on_player_play (install_player 1 (on_frame demo_metadata Egress_new))) of
      (e, g) \<Rightarrow> map snd (pq_queue (eg_queue (on_player_play (on_frame_push e (install_player 2 g))))))
    = [Kind_Coded, Kind_Init]"
  by code_simp

end
