(* ===== verification/Ingest_Gateway.thy ===== *)
theory Ingest_Gateway
  imports Gateways
begin

text \<open>
  The ingest gateway of \<^verbatim>\<open>gateway/src/ingest.cpp\<close> as a whole: the listener with the sessions of the
  publishers, the one supervisor, and \<open>start\<close> and \<open>stop\<close>, all threads running in any order. The
  handlers of the sessions are those of theory \<open>Gateways\<close>. \<open>stop\<close> first stops the listener and then the
  supervisor; it is cut at the joins.
\<close>

section \<open>The code\<close>

datatype ingest_stop_pc =
    Is_Idle
  | Is_Listener        \<comment> \<open>\<^verbatim>\<open>listener.stop()\<close>\<close>
  | Is_Supervisor      \<comment> \<open>\<^verbatim>\<open>supervisor->stop()\<close>\<close>
  | Is_Join            \<comment> \<open>its join\<close>

record IngestGateway =
  ig_core :: Ingest
  ig_listener :: Listener
  ig_publishing :: bool
  ig_stop :: ingest_stop_pc

definition IngestGateway_new :: IngestGateway where
  "IngestGateway_new = \<lparr>ig_core = Ingest_new default_ingest_options, ig_listener = Listener_new, ig_publishing = False,
     ig_stop = Is_Idle\<rparr>"

definition IngestGateway_start :: "IngestOptions \<Rightarrow> bool \<Rightarrow> bool \<Rightarrow> bool \<Rightarrow> IngestGateway \<Rightarrow> bool \<times> IngestGateway" where
  "IngestGateway_start options socket_ok bind_ok listen_ok g =
     (case Listener_start socket_ok bind_ok listen_ok (ig_listener g) of
        (ok, l) \<Rightarrow> (ok, g\<lparr>ig_core := (ig_core g)\<lparr>in_options := options\<rparr>, ig_listener := l\<rparr>))"

fun IngestGateway_stop_at :: "ingest_stop_pc \<Rightarrow> IngestGateway \<Rightarrow> IngestGateway option" where
  "IngestGateway_stop_at Is_Idle g = Some (g\<lparr>ig_stop := Is_Listener\<rparr>)"
| "IngestGateway_stop_at Is_Listener g =
     map_option (\<lambda>l. g\<lparr>ig_listener := l, ig_stop := if ln_stop l = Stop_Idle then Is_Supervisor else Is_Listener\<rparr>)
       (Listener_stop (ig_listener g))"
| "IngestGateway_stop_at Is_Supervisor g = Some (g\<lparr>ig_core := Ingest_stop (ig_core g), ig_stop := Is_Join\<rparr>)"
| "IngestGateway_stop_at Is_Join g =
     (case in_supervisor (ig_core g) of
        None \<Rightarrow> Some (g\<lparr>ig_stop := Is_Idle\<rparr>)
      | Some s \<Rightarrow> if \<not> sv_started s \<or> sv_pc s = Pc_Done then Some (g\<lparr>ig_stop := Is_Idle\<rparr>) else None)"

definition IngestGateway_wait_publishing :: "bool \<Rightarrow> IngestGateway \<Rightarrow> bool option" where
  "IngestGateway_wait_publishing timed_out g =
     (if ig_publishing g then Some True else if timed_out then Some False else None)"

section \<open>Threads\<close>

datatype ingest_action =
    In_Start IngestOptions bool bool bool
  | In_Stop
  | In_Listener listener_action
  | In_Net pico net_event
  | In_Run connect_answers bool

definition with_supervisor :: "(Supervisor \<Rightarrow> Supervisor option) \<Rightarrow> IngestGateway \<Rightarrow> IngestGateway option" where
  "with_supervisor f g =
     (case in_supervisor (ig_core g) of
        None \<Rightarrow> None
      | Some s \<Rightarrow> map_option (\<lambda>s'. g\<lparr>ig_core := (ig_core g)\<lparr>in_supervisor := Some s'\<rparr>,
                                 ig_publishing := ig_publishing g \<or> sv_pc s = Pc_Ready \<and> sv_pc s' = Pc_Serve\<rparr>) (f s))"

fun ingest_do :: "ingest_action \<Rightarrow> IngestGateway \<Rightarrow> IngestGateway option" where
  "ingest_do (In_Start opts a b c) g = (if ig_stop g = Is_Idle then Some (snd (IngestGateway_start opts a b c g)) else None)"
| "ingest_do In_Stop g = IngestGateway_stop_at (ig_stop g) g"
| "ingest_do (In_Listener act) g =
     (if is_start act \<or> act = Act_Stop then None
      else map_option (\<lambda>(l, core). g\<lparr>ig_listener := l, ig_core := core\<rparr>)
             (listener_do ingest_factory (\<lambda>s. ingest_event) act (ig_listener g, ig_core g)))"
| "ingest_do (In_Net p e) g = with_supervisor (\<lambda>s. Some (sup_net p e s)) g"
| "ingest_do (In_Run a timed_out) g = with_supervisor (sup_run a timed_out) g"

inductive ingest_later :: "IngestGateway \<Rightarrow> IngestGateway \<Rightarrow> bool" where
  ingest_now: "ingest_later g g"
| ingest_next: "ingest_later g g' \<Longrightarrow> ingest_do a g' = Some g'' \<Longrightarrow> ingest_later g g''"

section \<open>What a publisher's session reports\<close>

text \<open>The events a message leads to; the replies of the session do not matter to the gateway.\<close>

lemma dispatch_publish:
  assumes "length name < 2 ^ 32" "ev_on_stream (ss_events s)"
  shows "ss_log (dispatch sock (build_publish txn name) s) = ss_log s @ [Ses_Stream name True]"
proof -
  let ?vs = "[Amf_String ''publish'', Amf_Number txn, Amf_Null, Amf_String name, Amf_String ''live'']"
  have "list_all sendable ?vs" using assms(1) by simp
  then have "amf0_decode_all (m_payload (build_publish txn name)) = Some ?vs"
    unfolding build_publish_def by (rule decode_command_message)
  moreover have "m_type (build_publish txn name) = kTypeCommandAmf0" by (simp add: build_publish_def command_message_def)
  ultimately show ?thesis
    using assms(2) by (simp add: dispatch_def handle_command_def command_publish_def set_stream_name_def ses_note_def Let_def)
qed

lemma dispatch_media:
  assumes "m_type m \<noteq> kTypeCommandAmf0" "ev_on_message (ss_events s)"
  shows "ss_log (dispatch sock m s) = ss_log s @ (if is_protocol_control (m_type m) then [] else [Ses_Message m])"
  using assms by (simp add: dispatch_def session_message_def ses_note_def)

lemma dispatch_all_media:
  "list_all (\<lambda>m. m_type m \<noteq> kTypeCommandAmf0) ms \<Longrightarrow> ev_on_message (ss_events s) \<Longrightarrow>
     ss_log (fold (dispatch sock) ms s) = ss_log s @ map Ses_Message (filter (\<lambda>m. \<not> is_protocol_control (m_type m)) ms)"
  by (induction ms arbitrary: s) (simp_all add: dispatch_media)

section \<open>The supervisor of the gateway\<close>

lemma sup_step_keeps:
  assumes "sup_step l s s'" "sup_inv s"
  shows "sv_on_ready s' = sv_on_ready s \<and> (sv_pc s = Pc_Done \<longrightarrow> sv_pc s' = Pc_Done)"
  using assms
proof (induction rule: sup_step.induct)
  case (run a t s s')
  then show ?case
    by (cases "sv_pc s")
      (auto simp: sup_run_def publish_client_def take_client_def destroy_local_def handle_failed_attempt_def Let_def
        split: option.splits prod.splits bool.splits if_splits)
qed (auto simp: sup_net_def Supervisor_start_def Supervisor_stop_def Supervisor_send_def sup_inv_def Let_def
    split: option.split prod.split)

text \<open>Every event of a session leaves the supervisor alone, makes the first one, or sends with it.\<close>

definition sup_move :: "Supervisor option \<Rightarrow> Supervisor option \<Rightarrow> bool" where
  "sup_move o1 o2 \<longleftrightarrow> o2 = o1 \<or> (\<exists>l s s'. o1 = Some s \<and> o2 = Some s' \<and> sup_step l s s')
     \<or> o1 = None \<and> pred_option sup_inv o2"

lemma sup_inv_started: "sup_inv (Supervisor_start (Supervisor_new opts policy ready))"
  by (rule sup_inv_step [OF sup_step.start sup_inv_new])

lemma event_moves: "sup_move (in_supervisor g) (in_supervisor (ingest_event e g))"
proof (cases e)
  case (Ses_Message m)
  then show ?thesis
    using sup_step.send by (auto simp: forward_def sup_move_def split: option.split)
next
  case (Ses_Stream name publishing)
  then show ?thesis by (auto simp: begin_publish_def sup_move_def sup_inv_started split: option.split)
qed (simp_all add: sup_move_def)

lemma threads_move:
  assumes "listener_do ingest_factory (\<lambda>s. ingest_event) act (l, g) = Some (l', g')"
  shows "sup_move (in_supervisor g) (in_supervisor g')"
proof (cases act)
  case (Act_Accept r)
  with assms show ?thesis
    by (cases r) (auto simp: accept_return_def ingest_factory_def sup_move_def Let_def split: if_splits)
next
  case (Act_Event p)
  with assms event_moves show ?thesis by (auto split: option.splits)
qed (use assms in \<open>auto simp: sup_move_def split: option.splits if_splits\<close>)

lemma ingest_moves:
  assumes "ingest_do a g = Some g'"
  shows "sup_move (in_supervisor (ig_core g)) (in_supervisor (ig_core g'))"
proof (cases a)
  case (In_Start opts x y z)
  with assms show ?thesis by (auto simp: IngestGateway_start_def sup_move_def split: if_splits prod.splits)
next
  case In_Stop
  with assms sup_step.stop show ?thesis
    by (cases "ig_stop g"; cases "in_supervisor (ig_core g)") (auto simp: Ingest_stop_def sup_move_def split: if_splits, blast)
next
  case (In_Listener act)
  with assms threads_move show ?thesis by (auto split: if_splits)
next
  case (In_Net p e)
  with assms sup_step.net show ?thesis by (auto simp: with_supervisor_def sup_move_def split: option.splits, blast)
next
  case (In_Run an t)
  with assms sup_step.run show ?thesis by (auto simp: with_supervisor_def sup_move_def split: option.splits, blast)
qed

lemma sup_move_inv: "sup_move o1 o2 \<Longrightarrow> pred_option sup_inv o1 \<Longrightarrow> pred_option sup_inv o2"
  by (auto simp: sup_move_def intro: sup_inv_step)

definition same_supervisor :: "Supervisor \<Rightarrow> Supervisor \<Rightarrow> bool" where
  "same_supervisor s s' \<longleftrightarrow> sv_on_ready s' = sv_on_ready s \<and> (sv_pc s = Pc_Done \<longrightarrow> sv_pc s' = Pc_Done)"

lemma sup_move_same:
  "sup_move (Some s) o2 \<Longrightarrow> sup_inv s \<Longrightarrow> \<exists>s'. o2 = Some s' \<and> same_supervisor s s'"
  using sup_step_keeps by (auto simp: sup_move_def same_supervisor_def)

section \<open>The invariant\<close>

definition ig_inv :: "IngestGateway \<Rightarrow> bool" where
  "ig_inv g \<longleftrightarrow> owner_inv (\<lambda>g p. False) (ig_listener g) (ig_core g)
     \<and> pred_option sup_inv (in_supervisor (ig_core g))
     \<and> (ig_stop g \<noteq> Is_Listener \<longrightarrow> ln_stop (ig_listener g) = Stop_Idle)
     \<and> (ig_stop g \<in> {Is_Supervisor, Is_Join} \<longrightarrow> \<not> ln_running (ig_listener g))
     \<and> (ig_publishing g \<longrightarrow> in_supervisor (ig_core g) \<noteq> None)"

lemma ig_inv_new: "ig_inv IngestGateway_new"
  by (simp add: ig_inv_def IngestGateway_new_def Ingest_new_def owner_inv_new) (simp add: Listener_new_def)

lemma ig_inv_owner: "ig_inv g \<Longrightarrow> owner_inv (\<lambda>g p. False) (ig_listener g) (ig_core g)"
  by (simp add: ig_inv_def)

lemma owner_any: "owner_inv (\<lambda>g p. False) l g \<Longrightarrow> owner_inv (\<lambda>g p. False) l g'"
  by (simp add: owner_inv_def)

lemma ig_inv_stop:
  assumes inv: "ig_inv g" and step: "IngestGateway_stop_at (ig_stop g) g = Some g'"
  shows "owner_inv (\<lambda>g p. False) (ig_listener g') (ig_core g')
    \<and> (ig_stop g' \<noteq> Is_Listener \<longrightarrow> ln_stop (ig_listener g') = Stop_Idle)
    \<and> (ig_stop g' \<in> {Is_Supervisor, Is_Join} \<longrightarrow> \<not> ln_running (ig_listener g')) \<and> ig_publishing g' = ig_publishing g"
proof (cases "ig_stop g")
  case Is_Listener
  then obtain l where l: "Listener_stop (ig_listener g) = Some l"
    and g': "g' = g\<lparr>ig_listener := l, ig_stop := if ln_stop l = Stop_Idle then Is_Supervisor else Is_Listener\<rparr>"
    using step by auto
  have "owner_inv (\<lambda>g p. False) l (ig_core g)" by (rule owner_inv_stop [OF ig_inv_owner [OF inv] l])
  moreover have "ln_stop l = Stop_Idle \<longrightarrow> \<not> ln_running l"
    using l owner_invD(1) [OF ig_inv_owner [OF inv]]
    by (cases "ln_stop (ig_listener g)") (auto simp: Listener_stop_def listener_inv_def split: if_splits)
  ultimately show ?thesis by (simp add: g')
qed (use step inv owner_any in \<open>auto simp: ig_inv_def split: option.splits if_splits\<close>)

lemma ig_inv_do:
  assumes inv: "ig_inv g" and step: "ingest_do a g = Some g'"
  shows "ig_inv g'"
proof -
  have sup: "pred_option sup_inv (in_supervisor (ig_core g'))"
    and some: "in_supervisor (ig_core g) \<noteq> None \<longrightarrow> in_supervisor (ig_core g') \<noteq> None"
    using inv sup_move_inv [OF ingest_moves [OF step]] ingest_moves [OF step] by (auto simp: ig_inv_def sup_move_def)
  have kept: "ig_publishing g' = ig_publishing g \<Longrightarrow> (ig_publishing g' \<longrightarrow> in_supervisor (ig_core g') \<noteq> None)"
    using inv some by (simp add: ig_inv_def)
  show ?thesis
  proof (cases a)
    case (In_Start opts x y z)
    obtain ok l where l: "Listener_start x y z (ig_listener g) = (ok, l)" by (cases "Listener_start x y z (ig_listener g)")
    with In_Start step have st: "ig_stop g = Is_Idle" and g': "g' = g\<lparr>ig_core := (ig_core g)\<lparr>in_options := opts\<rparr>, ig_listener := l\<rparr>"
      by (auto simp: IngestGateway_start_def split: if_splits)
    have "owner_inv (\<lambda>g p. False) l (ig_core g)"
      using ingest_sessions.owner_step [OF ig_inv_owner [OF inv], of "Act_Start x y z"] l inv st by (simp add: ig_inv_def)
    moreover have "ln_stop l = ln_stop (ig_listener g)" using l by (auto simp: Listener_start_def split: if_splits)
    ultimately show ?thesis using sup kept st inv owner_any by (simp add: ig_inv_def g')
  next
    case In_Stop
    with step ig_inv_stop [OF inv] sup kept show ?thesis by (simp add: ig_inv_def)
  next
    case (In_Listener act)
    with step obtain l core where t: "\<not> is_start act" "act \<noteq> Act_Stop" "g' = g\<lparr>ig_listener := l, ig_core := core\<rparr>"
      "listener_do ingest_factory (\<lambda>s. ingest_event) act (ig_listener g, ig_core g) = Some (l, core)"
      by (auto split: if_splits)
    have "owner_inv (\<lambda>g p. False) l core" by (rule ingest_sessions.owner_step [OF ig_inv_owner [OF inv] t(4)])
    moreover have "ln_stop l = ln_stop (ig_listener g)" "\<not> ln_running (ig_listener g) \<longrightarrow> \<not> ln_running l"
      using threads_keep_sessions [OF owner_invD(1) [OF ig_inv_owner [OF inv]] t(4,1,2)] not_running_stays [OF t(4) _ t(1)]
      by blast+
    ultimately show ?thesis using sup kept inv by (simp add: ig_inv_def t(3))
  next
    case (In_Net p e)
    with step sup inv owner_any show ?thesis by (auto simp: ig_inv_def with_supervisor_def split: option.splits)
  next
    case (In_Run an t)
    with step sup inv owner_any show ?thesis by (auto simp: ig_inv_def with_supervisor_def split: option.splits)
  qed
qed

lemma ig_inv_later: "ingest_later g g' \<Longrightarrow> ig_inv g \<Longrightarrow> ig_inv g'"
  by (induction rule: ingest_later.induct) (blast intro: ig_inv_do)+

lemma same_supervisor_later:
  "ingest_later g g' \<Longrightarrow> ig_inv g \<Longrightarrow> in_supervisor (ig_core g) = Some s \<Longrightarrow>
     \<exists>s'. in_supervisor (ig_core g') = Some s' \<and> same_supervisor s s'"
proof (induction rule: ingest_later.induct)
  case (ingest_next g g' a g'')
  then obtain s1 where s1: "in_supervisor (ig_core g') = Some s1" "same_supervisor s s1" by blast
  have "sup_inv s1" using ig_inv_later [OF ingest_next.hyps(1) ingest_next.prems(1)] s1(1) by (simp add: ig_inv_def)
  with sup_move_same ingest_moves [OF ingest_next.hyps(2)] s1(1)
  obtain s2 where "in_supervisor (ig_core g'') = Some s2" "same_supervisor s1 s2" by metis
  with s1(2) show ?case by (auto simp: same_supervisor_def)
qed (simp add: same_supervisor_def)

section \<open>The end of \<open>stop\<close>\<close>

text \<open>The steps \<open>stop\<close> still has to take, and the pieces of the supervisor's thread it waits for.\<close>

fun stop_left :: "IngestGateway \<Rightarrow> nat" where
  "stop_left g =
     (case ig_stop g of
        Is_Idle \<Rightarrow> 0
      | Is_Listener \<Rightarrow>
          3 + (if ln_stop (ig_listener g) = Stop_Idle then (if ln_running (ig_listener g) then 5 else 0)
               else stop_rank (ln_stop (ig_listener g)))
      | Is_Supervisor \<Rightarrow> 2
      | Is_Join \<Rightarrow> 1)"

definition pieces_left :: "IngestGateway \<Rightarrow> nat" where
  "pieces_left g =
     (case in_supervisor (ig_core g) of None \<Rightarrow> 0 | Some s \<Rightarrow> if sv_started s then sup_rank (sv_pc s) else 0)"

text \<open>Steps that wait neither for a connection nor for data of a peer.\<close>

fun ingest_local :: "ingest_action \<Rightarrow> bool" where
  "ingest_local (In_Start opts a b c) = False"
| "ingest_local In_Stop = True"
| "ingest_local (In_Listener act) = is_local act"
| "ingest_local (In_Net p e) = False"
| "ingest_local (In_Run a t) = True"

definition told :: "Supervisor \<Rightarrow> bool" where
  "told s \<longleftrightarrow> sv_stopping s \<or> \<not> sv_started s"

definition join_inv :: "IngestGateway \<Rightarrow> bool" where
  "join_inv g \<longleftrightarrow> (ig_stop g = Is_Join \<longrightarrow> pred_option told (in_supervisor (ig_core g)))"

lemma run_flags: "sup_run a t s = Some s' \<Longrightarrow> sv_started s' = sv_started s \<and> sv_stopping s' = sv_stopping s"
  by (cases "sv_pc s")
    (auto simp: sup_run_def publish_client_def take_client_def destroy_local_def handle_failed_attempt_def Let_def
      split: option.splits prod.splits bool.splits if_splits)

lemma net_flags: "sv_started (sup_net p e s) = sv_started s" "sv_stopping (sup_net p e s) = sv_stopping s"
  "sv_pc (sup_net p e s) = sv_pc s"
  by (simp_all add: sup_net_def Let_def split: option.split prod.split)

lemma silent_while_joining:
  assumes "ig_inv g" "ig_stop g = Is_Join" "ingest_do (In_Listener act) g = Some g'"
  shows "ig_core g' = ig_core g \<and> ig_stop g' = ig_stop g"
proof -
  obtain l core where t: "g' = g\<lparr>ig_listener := l, ig_core := core\<rparr>"
    "listener_do ingest_factory (\<lambda>s. ingest_event) act (ig_listener g, ig_core g) = Some (l, core)"
    using assms(3) by (auto split: if_splits)
  then show ?thesis
    using stopped_silent [OF owner_invD(1) [OF ig_inv_owner [OF assms(1)]] _ _ t(2)] assms(1,2) by (simp add: ig_inv_def)
qed

lemma join_inv_do:
  assumes "ig_inv g" "join_inv g" "ingest_do a g = Some g'"
  shows "join_inv g'"
proof (cases a)
  case In_Stop
  have "told (Supervisor_stop s)" for s by (simp add: told_def Supervisor_stop_def)
  with In_Stop assms show ?thesis
    by (cases "ig_stop g") (auto simp: join_inv_def Ingest_stop_def option.pred_map comp_def pred_option_def split: option.splits if_splits)
next
  case (In_Listener act)
  have "ig_stop g' = ig_stop g" using assms(3) In_Listener by (auto split: if_splits)
  with assms silent_while_joining [OF assms(1)] In_Listener show ?thesis unfolding join_inv_def by metis
next
  case (In_Run x t)
  with assms run_flags show ?thesis by (fastforce simp: join_inv_def with_supervisor_def told_def split: option.splits)
qed (use assms in \<open>auto simp: join_inv_def with_supervisor_def told_def net_flags IngestGateway_start_def
      split: option.splits if_splits prod.splits\<close>)

lemma join_inv_reachable: "ingest_later IngestGateway_new g \<Longrightarrow> join_inv g"
proof -
  have "ingest_later g0 g \<Longrightarrow> ig_inv g0 \<Longrightarrow> join_inv g0 \<Longrightarrow> join_inv g" for g0
    by (induction rule: ingest_later.induct) (blast intro: join_inv_do ig_inv_later)+
  moreover have "join_inv IngestGateway_new" by (simp add: join_inv_def IngestGateway_new_def)
  ultimately show "ingest_later IngestGateway_new g \<Longrightarrow> join_inv g" using ig_inv_new by blast
qed

lemma with_supervisor_fields:
  "with_supervisor f g = Some g' \<Longrightarrow> ig_stop g' = ig_stop g \<and> ig_listener g' = ig_listener g"
  by (auto simp: with_supervisor_def split: option.splits)

lemma stop_left_cong: "ig_stop g' = ig_stop g \<and> ig_listener g' = ig_listener g \<Longrightarrow> stop_left g' = stop_left g"
  by (cases "ig_stop g") simp_all

lemma stop_left_falls:
  assumes "ig_inv g" "ingest_do a g = Some g'" "ig_stop g \<noteq> Is_Idle"
  shows "if a = In_Stop then stop_left g' < stop_left g else stop_left g' \<le> stop_left g"
proof (cases a)
  case In_Stop
  with assms(2,3) show ?thesis
    by (cases "ig_stop g"; cases "ln_stop (ig_listener g)") (auto simp: Listener_stop_def split: option.splits if_splits)
next
  case (In_Listener act)
  with assms(2) obtain l core where t: "\<not> is_start act" "act \<noteq> Act_Stop" "g' = g\<lparr>ig_listener := l, ig_core := core\<rparr>"
    "listener_do ingest_factory (\<lambda>s. ingest_event) act (ig_listener g, ig_core g) = Some (l, core)"
    by (auto split: if_splits)
  have "ln_stop l = ln_stop (ig_listener g)" "\<not> ln_running (ig_listener g) \<longrightarrow> \<not> ln_running l"
    using threads_keep_sessions [OF owner_invD(1) [OF ig_inv_owner [OF assms(1)]] t(4,1,2)] not_running_stays [OF t(4) _ t(1)]
    by blast+
  with In_Listener t(3) show ?thesis by (auto split: ingest_stop_pc.split)
next
  case (In_Net p e)
  with assms(2) have "stop_left g' = stop_left g" by (intro stop_left_cong with_supervisor_fields) simp
  with In_Net show ?thesis by simp
next
  case (In_Run x t)
  with assms(2) have "stop_left g' = stop_left g" by (intro stop_left_cong with_supervisor_fields) simp
  with In_Run show ?thesis by simp
qed (use assms in simp)

lemma pieces_left_falls:
  assumes "ig_inv g" "join_inv g" "ingest_do a g = Some g'" "ig_stop g = Is_Join"
  shows "if \<exists>x t. a = In_Run x t then pieces_left g' < pieces_left g
    else pieces_left g' \<le> pieces_left g"
proof (cases a)
  case (In_Listener act)
  then have "ig_core g' = ig_core g" using silent_while_joining [OF assms(1,4)] assms(3) by blast
  with In_Listener show ?thesis by (simp add: pieces_left_def)
next
  case (In_Run x t)
  with assms(3) obtain s s' where s: "in_supervisor (ig_core g) = Some s" "sup_run x t s = Some s'"
    "in_supervisor (ig_core g') = Some s'" by (auto simp: with_supervisor_def split: option.splits)
  then have "sup_inv s" "told s" using assms(1,2,4) by (simp_all add: ig_inv_def join_inv_def)
  moreover have "sv_started s" using \<open>sup_inv s\<close> s(2) by (auto simp: sup_inv_def sup_run_def)
  ultimately show ?thesis using s run_while_stopping [of s x t s'] run_flags [OF s(2)] In_Run by (auto simp: pieces_left_def told_def)
qed (use assms in \<open>auto simp: pieces_left_def with_supervisor_def net_flags split: option.splits if_splits\<close>)

lemma ingest_stop_not_blocked:
  assumes "ig_inv g" "join_inv g" "ig_stop g \<noteq> Is_Idle"
  shows "\<exists>a g'. ingest_local a \<and> ingest_do a g = Some g'"
proof (cases "ingest_do In_Stop g")
  case (Some g')
  then show ?thesis by (intro exI [of _ In_Stop] exI [of _ g']) simp
next
  case None
  consider "ig_stop g = Is_Listener" | "ig_stop g = Is_Join"
    using None assms(3) by (cases "ig_stop g") simp_all
  then show ?thesis
  proof cases
    case 1
    obtain act s' where act: "is_local act" "listener_do ingest_factory (\<lambda>s. ingest_event) act (ig_listener g, ig_core g) = Some s'"
      using stop_not_blocked [OF owner_invD(1) [OF ig_inv_owner [OF assms(1)]], where fac = ingest_factory and g = "ig_core g"
          and han = "\<lambda>s. ingest_event"] by blast
    moreover have "act \<noteq> Act_Stop" using act None 1 by auto
    moreover have "\<not> is_start act" using act(1) by (cases act) simp_all
    ultimately have "ingest_local (In_Listener act) \<and> ingest_do (In_Listener act) g \<noteq> None" by simp
    then show ?thesis by blast
  next
    case 2
    with None obtain s where s: "in_supervisor (ig_core g) = Some s" "sv_started s" "sv_pc s \<noteq> Pc_Done"
      by (auto split: option.splits if_splits)
    then have "sup_inv s" "sv_stopping s" using assms(1,2) 2 by (simp_all add: ig_inv_def join_inv_def told_def)
    from run_not_blocked [OF this s(3)] s(1)
    have "ingest_local (In_Run x (sv_pc s = Pc_Wait_Up)) \<and> ingest_do (In_Run x (sv_pc s = Pc_Wait_Up)) g \<noteq> None" for x
      by (auto simp: with_supervisor_def)
    then show ?thesis by blast
  qed
qed

section \<open>Properties\<close>

text \<open>
  C29. One publisher at a time: whatever sessions publish and whatever happens in whatever order, the
  supervisor made for the first publish request is the gateway's supervisor for good, with the
  handshake of that request; while \<open>stop\<close> stops the supervisor there is no session left that could use it; and once the
  supervisor's thread has ended it never has a client again, also after another \<open>start\<close>.
\<close>

theorem ingest_single_publisher:
  assumes "ingest_later IngestGateway_new g" "in_supervisor (ig_core g) = Some s" "ingest_later g g'"
  shows "(\<exists>s'. in_supervisor (ig_core g') = Some s' \<and> sv_on_ready s' = sv_on_ready s
       \<and> (if sv_pc s = Pc_Done then sv_pc s' = Pc_Done \<and> sv_client s' = None \<and> sv_local s' = None else True))
    \<and> \<not> ln_fault (ig_listener g')
    \<and> (if ig_stop g' = Is_Supervisor \<or> ig_stop g' = Is_Join then ln_slots (ig_listener g') = [] else True)"
proof -
  have inv: "ig_inv g" by (rule ig_inv_later [OF assms(1) ig_inv_new])
  then have inv': "ig_inv g'" by (rule ig_inv_later [OF assms(3)])
  obtain s' where s': "in_supervisor (ig_core g') = Some s'" "same_supervisor s s'"
    using same_supervisor_later [OF assms(3) inv assms(2)] by blast
  then have "sup_inv s'" using inv' by (simp add: ig_inv_def)
  then have "sv_pc s' = Pc_Done \<longrightarrow> sv_client s' = None \<and> sv_local s' = None" by (auto simp: sup_inv_def)
  moreover have "ig_stop g' = Is_Supervisor \<or> ig_stop g' = Is_Join \<longrightarrow> ln_slots (ig_listener g') = []"
    using inv' owner_invD(1) [OF ig_inv_owner [OF inv']] by (auto simp: ig_inv_def listener_inv_def)
  ultimately show ?thesis using s' owner_invD(2) [OF ig_inv_owner [OF inv']] by (simp add: same_supervisor_def)
qed


definition demo_hello :: bytes where
  "demo_hello = replicate kHandshakePacketSize 0"

text \<open>A connection is accepted, the peer shakes hands and publishes \<^verbatim>\<open>cam\<close>.\<close>

definition demo_publisher :: "bytes \<Rightarrow> ingest_action list" where
  "demo_publisher wire = [In_Start default_ingest_options True True True, In_Listener Act_Check, In_Listener (Act_Accept (Some 7))]
     @ map (\<lambda>bs. In_Listener (Act_Recv 7 (\<lambda>_. 0) (\<lambda>_. 1) bs)) (client_hello (\<lambda>_. 0) demo_hello @ [wire])
     @ [In_Listener (Act_Event 7)]"

fun ingest_exec :: "ingest_action list \<Rightarrow> IngestGateway \<Rightarrow> IngestGateway option" where
  "ingest_exec [] g = Some g"
| "ingest_exec (a # as) g = Option.bind (ingest_do a g) (ingest_exec as)"

lemma ingest_exec_from: "ingest_later g0 g \<Longrightarrow> ingest_exec as g = Some g' \<Longrightarrow> ingest_later g0 g'"
  by (induction as arbitrary: g) (auto simp: bind_eq_Some_conv intro: ingest_next)

lemma ingest_exec_append: "ingest_exec (as @ bs) g = Option.bind (ingest_exec as g) (ingest_exec bs)"
proof (induction as arbitrary: g)
  case (Cons a as)
  then show ?case by (cases "ingest_do a g") simp_all
qed simp

text \<open>Receiving, without a handler to run in between.\<close>

definition one_session :: "Session \<Rightarrow> IngestGateway" where
  "one_session s = \<lparr>ig_core = Ingest_new default_ingest_options,
     ig_listener = \<lparr>ln_listen_fd = True, ln_shut = False, ln_accept = Acc_Check,
       ln_slots = [\<lparr>sl_ptr = 7, sl_session = s, sl_handled = 0, sl_exited = False\<rparr>],
       ln_running = True, ln_stop = Stop_Idle, ln_fault = False\<rparr>,
     ig_publishing = False, ig_stop = Is_Idle\<rparr>"

lemma one_session_recv:
  assumes "handled s = []" "ss_phase s \<noteq> Ph_Finished"
  shows "ingest_do (In_Listener (Act_Recv 7 rng sock bs)) (one_session s) = Some (one_session (session_recv rng sock bs s))"
  using assms by (simp add: one_session_def slot_at_def thread_recv_def pending_def map_slot_def)

definition published :: "Session \<Rightarrow> IngestGateway" where
  "published s = (one_session s)\<lparr>ig_core := begin_publish ''cam'' (Ingest_new default_ingest_options),
     ig_listener := (ig_listener (one_session s))\<lparr>ln_slots := [\<lparr>sl_ptr = 7, sl_session = s, sl_handled = 1, sl_exited = False\<rparr>]\<rparr>\<rparr>"

lemma one_session_event:
  "handled s = [Ses_Stream ''cam'' True] \<Longrightarrow> ingest_do (In_Listener (Act_Event 7)) (one_session s) = Some (published s)"
  by (simp add: one_session_def published_def slot_at_def thread_event_def pending_def map_slot_def)

lemma one_session_connects:
  assumes "call_ok (Write m)" "run_writer [Write m] (ChunkWriter_new kDefaultChunkSize) [] = Some (w, wire)" "wire \<noteq> []"
    and "m = build_publish 0 ''cam''"
  shows "\<exists>s. ingest_exec (map (\<lambda>bs. In_Listener (Act_Recv 7 (\<lambda>_. 0) (\<lambda>_. 1) bs)) (client_hello (\<lambda>_. 0) demo_hello @ [wire]))
      (one_session (ServerSession_new ev)) = Some (one_session s)
    \<and> (ev_on_stream ev \<longrightarrow> handled s = [Ses_Stream ''cam'' True]) \<and> ss_phase s = Ph_Message \<and> ss_events s = ev"
proof -
  let ?recv = "session_recv (\<lambda>_. 0) (\<lambda>_. 1)" and ?hello = "client_hello (\<lambda>_. 0) demo_hello"
    and ?c0c1 = "kRtmpVersion # demo_hello" and ?c2 = "make_echo (make_packet (\<lambda>_. 0))"
  define s0 s1 s2 where "s0 = ServerSession_new ev" and "s1 = ?recv ?c0c1 s0" and "s2 = ?recv ?c2 s1"
  have sock: "\<forall>k :: nat. 0 < (1 :: int)" and len: "length demo_hello = kHandshakePacketSize" by (simp_all add: demo_hello_def)
  have "session_core s2 = session_core (ServerSession_new ev\<lparr>ss_phase := Ph_Message\<rparr>)"
    using session_handshake [OF sock len, of "\<lambda>_. 0" ev] by (simp add: s0_def s1_def s2_def Let_def)
  then have 2: "handled s2 = []" "ss_phase s2 = Ph_Message" by (simp_all add: session_core_def handled_def ServerSession_new_def)
  have 1: "handled s1 = []" "ss_phase s1 \<noteq> Ph_Finished"
    using handled_recv [of "\<lambda>_. 0" "\<lambda>_. 1" ?c2 s1] 2 by (auto simp: s2_def session_recv_def)
  have 0: "handled s0 = []" "ss_phase s0 \<noteq> Ph_Finished" by (simp_all add: s0_def ServerSession_new_def handled_def)
  define s3 where "s3 = ?recv wire s2"
  have run: "ingest_exec (map (\<lambda>bs. In_Listener (Act_Recv 7 (\<lambda>_. 0) (\<lambda>_. 1) bs)) (?hello @ [wire])) (one_session s0)
      = Some (one_session s3)"
    using one_session_recv [OF 0, of "\<lambda>_. 0" "\<lambda>_. 1" ?c0c1] one_session_recv [OF 1, of "\<lambda>_. 0" "\<lambda>_. 1" ?c2]
      one_session_recv [OF 2(1), of "\<lambda>_. 0" "\<lambda>_. 1" wire] 2(2)
    by (simp add: s1_def [symmetric] s2_def [symmetric] s3_def del: ingest_do.simps)
  have "session_core s3 = session_core (dispatch (\<lambda>_. 1) m (ServerSession_new ev\<lparr>ss_phase := Ph_Message\<rparr>))"
    using session_connection [OF sock len, of "[Write m]" w wire "[wire]" "\<lambda>_. 0" ev] assms(1-3)
    by (simp add: s0_def s1_def s2_def s3_def)
  then have "ss_log s3 = ss_log (dispatch (\<lambda>_. 1) m (ServerSession_new ev\<lparr>ss_phase := Ph_Message\<rparr>))"
    and last: "ss_phase s3 = Ph_Message" "ss_events s3 = ev" by (simp_all add: session_core_def ServerSession_new_def)
  then have "ev_on_stream ev \<longrightarrow> handled s3 = [Ses_Stream ''cam'' True]"
    using dispatch_publish [of "''cam''" "ServerSession_new ev\<lparr>ss_phase := Ph_Message\<rparr>"] assms(4)
    by (simp add: handled_def ServerSession_new_def)
  with run last show ?thesis unfolding s0_def by blast
qed

lemma demo_publishing:
  "\<exists>wire s. ingest_exec (demo_publisher wire) IngestGateway_new = Some (published s)
     \<and> handled s = [Ses_Stream ''cam'' True] \<and> ss_phase s = Ph_Message \<and> ss_events s = ingest_events"
proof -
  define m where "m = build_publish 0 ''cam''"
  define wire where "wire = message_bytes kDefaultChunkSize m"
  have "length (m_payload m) = 33"
    by (simp add: m_def build_publish_def command_message_def empty_message_def put_f64_def put_u16_def string_bytes_def)
  then have ok: "call_ok (Write m)"
    by (simp add: deliverable_def writable_def plain_message_def kMaxMessageSize_def)
      (simp add: m_def build_publish_def command_message_def message_types)
  have ne: "wire \<noteq> []" by (simp add: wire_def message_bytes_def first_header_def)
  have run: "run_writer [Write m] (ChunkWriter_new kDefaultChunkSize) [] = Some (ChunkWriter_new kDefaultChunkSize, wire)"
    using write_bytes [OF ChunkWriter_new_inv, of kDefaultChunkSize m "[]"] ok
    by (simp add: wire_def ChunkWriter_new_def deliverable_def)
  let ?ev = ingest_events
  obtain s where s: "ingest_exec (map (\<lambda>bs. In_Listener (Act_Recv 7 (\<lambda>_. 0) (\<lambda>_. 1) bs)) (client_hello (\<lambda>_. 0) demo_hello @ [wire]))
      (one_session (ServerSession_new ?ev)) = Some (one_session s)" "handled s = [Ses_Stream ''cam'' True]"
      "ss_phase s = Ph_Message" "ss_events s = ?ev"
    using one_session_connects [OF ok run ne m_def, of ?ev] by (auto simp: ingest_events_def)
  have start: "ingest_exec [In_Start default_ingest_options True True True, In_Listener Act_Check, In_Listener (Act_Accept (Some 7))]
      IngestGateway_new = Some (one_session (ServerSession_new ?ev))"
    by (simp add: IngestGateway_new_def IngestGateway_start_def Listener_new_def Listener_start_def accept_check_def
        accept_return_def ingest_factory_def one_session_def Ingest_new_def)
  have "ingest_exec [In_Listener (Act_Event 7)] (one_session s) = Some (published s)"
    using one_session_event [OF s(2)] by (simp del: ingest_do.simps)
  then have "ingest_exec (demo_publisher wire) IngestGateway_new = Some (published s)"
    unfolding demo_publisher_def ingest_exec_append [of "[In_Start default_ingest_options True True True, In_Listener Act_Check,
      In_Listener (Act_Accept (Some 7))]"] start
    by (simp only: Option.bind.simps ingest_exec_append [of "map f xs" for f xs] s(1))
  with s(2-4) show ?thesis by blast
qed

theorem ingest_single_publisher_witness:
  "\<exists>wire g s. ingest_exec (demo_publisher wire) IngestGateway_new = Some g
     \<and> in_supervisor (ig_core g) = Some s \<and> sv_on_ready s = session_preamble (build_publish 0x4008000000000000 ''cam'')
     \<and> (\<exists>s'. in_supervisor (ig_core (g\<lparr>ig_stop := Is_Listener\<rparr>)) = Some s' \<and> sv_on_ready s' = sv_on_ready s)"
proof -
  obtain wire s where exec: "ingest_exec (demo_publisher wire) IngestGateway_new = Some (published s)" using demo_publishing by blast
  obtain sup where sup: "in_supervisor (ig_core (published s)) = Some sup"
    "sv_on_ready sup = session_preamble (build_publish 0x4008000000000000 ''cam'')"
    by (simp add: published_def begin_publish_def Ingest_new_def Supervisor_start_def Supervisor_new_def)
  have "ingest_do In_Stop (published s) = Some ((published s)\<lparr>ig_stop := Is_Listener\<rparr>)" by (simp add: published_def one_session_def)
  from ingest_single_publisher [OF ingest_exec_from [OF ingest_now exec] sup(1) ingest_next [OF ingest_now this]] exec sup
  show ?thesis by blast
qed

text \<open>\<open>stop\<close> of a gateway with a publisher, up to the join of the supervisor's thread.\<close>

definition demo_stop :: "ingest_action list" where
  "demo_stop = [In_Stop, In_Stop, In_Stop, In_Listener Act_Check, In_Stop, In_Stop,
     In_Listener (Act_Recv 7 (\<lambda>_. 0) (\<lambda>_. 1) []), In_Listener (Act_Exit 7), In_Stop, In_Stop]"

lemma demo_stopping_publisher:
  assumes "handled s = [Ses_Stream ''cam'' True]" "ss_phase s = Ph_Message" "ss_events s = ingest_events"
  shows "\<exists>g sup. ingest_exec demo_stop (published s) = Some g \<and> ig_stop g = Is_Join
    \<and> in_supervisor (ig_core g) = Some sup \<and> sv_started sup \<and> sv_pc sup = Pc_Top"
proof -
  let ?s = "ServerSession_close s"
  have "ss_phase (session_recv (\<lambda>_. 0) (\<lambda>_. 1) [] ?s) = Ph_Finished" "handled (session_recv (\<lambda>_. 0) (\<lambda>_. 1) [] ?s) = handled s"
    using closing_recv [of ?s "\<lambda>_. 0" "\<lambda>_. 1" "[]"] assms by (simp_all add: ingest_events_def)
  with assms(1,2) show ?thesis
    by (simp add: demo_stop_def published_def one_session_def Listener_stop_def accept_check_def slot_at_def thread_recv_def pending_def
        map_slot_def thread_exit_def Ingest_stop_def begin_publish_def Ingest_new_def Supervisor_start_def Supervisor_new_def
        Supervisor_stop_def)
qed


end
