(* ===== verification/Egress_Gateway.thy ===== *)
theory Egress_Gateway
  imports Gateways
begin

text \<open>
  The egress gateway of \<^verbatim>\<open>gateway/src/egress.cpp\<close> as a whole: the gateway's state, its listener with
  the sessions of the players, the connection supervisor with its client, the writer thread, and
  \<open>start\<close> and \<open>stop\<close>.

  The threads run in any order. The client's network thread hands the frames of one callback to
  \<open>on_frame\<close> one after the other (\<open>gw_received\<close> are those to come, \<open>gw_checked\<close> is the message
  \<open>on_frame\<close> is about to enqueue); the destructor of a client joins that thread, so a client is
  destroyed only when it has returned from its handler. The writer thread holds the
  pointer to a player's session between looking it up and the end of its \<open>send\<close>. \<open>stop\<close> is cut
  at its joins and locks. The application calls \<open>start\<close> before the first connection or after \<open>stop\<close>, never
  while the supervisor of an earlier \<open>start\<close> still runs.
\<close>

section \<open>The code\<close>

record EgressOptions =
  eo_rtmp_port :: u16
  eo_roqr_host :: string
  eo_roqr_port :: u16
  eo_stream_name :: string
  eo_insecure_skip_verify :: bool
  eo_reconnect :: ReconnectPolicy
  eo_idle_timeout :: int

definition default_egress_options :: EgressOptions where
  "default_egress_options = \<lparr>eo_rtmp_port = 1936, eo_roqr_host = ''127.0.0.1'', eo_roqr_port = 4443, eo_stream_name = ''cam'',
     eo_insecure_skip_verify = True, eo_reconnect = default_reconnect_policy, eo_idle_timeout = 15000\<rparr>"

datatype writer_pc =
    Wr_None                       \<comment> \<open>no thread\<close>
  | Wr_Pop                        \<comment> \<open>\<^verbatim>\<open>queue.pop()\<close>\<close>
  | Wr_Look RtmpMessage           \<comment> \<open>the lookup of the player\<close>
  | Wr_Send nat RtmpMessage       \<comment> \<open>\<^verbatim>\<open>p->send(*msg)\<close>\<close>
  | Wr_Exited                     \<comment> \<open>ended, not joined\<close>

datatype egress_stop_pc =
    Es_Idle
  | Es_Join_Supervisor
  | Es_Close_Player
  | Es_Close_Queue
  | Es_Join_Writer
  | Es_Listener                   \<comment> \<open>\<^verbatim>\<open>listener.stop()\<close>\<close>

record EgressGateway =
  gw_core :: Egress
  gw_listener :: Listener
  gw_supervisor :: "Supervisor option"
  gw_received :: "Frame list"
  gw_checked :: "(RtmpMessage \<times> Kind) option"
  gw_writer :: writer_pc
  gw_writer_started :: bool
  gw_stop :: egress_stop_pc

definition EgressGateway_new :: EgressGateway where
  "EgressGateway_new = \<lparr>gw_core = Egress_new, gw_listener = Listener_new, gw_supervisor = None, gw_received = [],
     gw_checked = None, gw_writer = Wr_None, gw_writer_started = False, gw_stop = Es_Idle\<rparr>"

text \<open>\<open>start\<close>, with what the operating system answers to the listener.\<close>

definition EgressGateway_start :: "EgressOptions \<Rightarrow> bool \<Rightarrow> bool \<Rightarrow> bool \<Rightarrow> EgressGateway \<Rightarrow> bool \<times> EgressGateway" where
  "EgressGateway_start options socket_ok bind_ok listen_ok g =
     (let g = (if \<not> gw_writer_started g then g\<lparr>gw_writer := Wr_Pop, gw_writer_started := True\<rparr> else g);
          sup = Supervisor_new (gateway_client_options (eo_insecure_skip_verify options) (eo_idle_timeout options))
                  (eo_reconnect options) (egress_preamble (eo_stream_name options))
      in case Listener_start socket_ok bind_ok listen_ok (gw_listener g) of
           (ok, l) \<Rightarrow> (ok, g\<lparr>gw_supervisor := Some (Supervisor_start sup), gw_listener := l\<rparr>))"

fun writer_step :: "writer_pc \<Rightarrow> (nat \<Rightarrow> int) \<Rightarrow> EgressGateway \<Rightarrow> EgressGateway option" where
  "writer_step Wr_Pop sock g =
     map_option (\<lambda>(m, core). g\<lparr>gw_core := core, gw_writer := (case m of None \<Rightarrow> Wr_Exited | Some m \<Rightarrow> Wr_Look m)\<rparr>)
       (writer_pop (gw_core g))"
| "writer_step (Wr_Look m) sock g =
     Some (g\<lparr>gw_writer := (case writer_player (gw_core g) of None \<Rightarrow> Wr_Pop | Some p \<Rightarrow> Wr_Send p m)\<rparr>)"
| "writer_step (Wr_Send p m) sock g =
     Some (g\<lparr>gw_listener := session_call p (\<lambda>s. snd (ServerSession_send sock m s)) (gw_listener g), gw_writer := Wr_Pop\<rparr>)"
| "writer_step pc sock g = None"

definition supervisor_joined :: "EgressGateway \<Rightarrow> bool" where
  "supervisor_joined g = (case gw_supervisor g of None \<Rightarrow> True | Some s \<Rightarrow> \<not> sv_started s \<or> sv_pc s = Pc_Done)"

definition close_player :: "EgressGateway \<Rightarrow> EgressGateway" where
  "close_player g =
     (case eg_player (gw_core g) of
        None \<Rightarrow> g
      | Some p \<Rightarrow> g\<lparr>gw_listener := session_call p ServerSession_close (gw_listener g)\<rparr>)"

fun EgressGateway_stop_at :: "egress_stop_pc \<Rightarrow> EgressGateway \<Rightarrow> EgressGateway option" where
  "EgressGateway_stop_at Es_Idle g =
     Some (g\<lparr>gw_supervisor := map_option Supervisor_stop (gw_supervisor g), gw_stop := Es_Join_Supervisor\<rparr>)"
| "EgressGateway_stop_at Es_Join_Supervisor g =
     (if supervisor_joined g then Some (g\<lparr>gw_stop := Es_Close_Player\<rparr>) else None)"
| "EgressGateway_stop_at Es_Close_Player g = Some ((close_player g)\<lparr>gw_stop := Es_Close_Queue\<rparr>)"
| "EgressGateway_stop_at Es_Close_Queue g =
     Some (g\<lparr>gw_core := (gw_core g)\<lparr>eg_queue := PlayerQueue_close (eg_queue (gw_core g))\<rparr>, gw_stop := Es_Join_Writer\<rparr>)"
| "EgressGateway_stop_at Es_Join_Writer g =
     (if gw_writer g = Wr_None \<or> gw_writer g = Wr_Exited
      then Some (g\<lparr>gw_writer := Wr_None, gw_writer_started := False, gw_stop := Es_Listener\<rparr>) else None)"
| "EgressGateway_stop_at Es_Listener g =
     map_option (\<lambda>l. g\<lparr>gw_listener := l, gw_stop := if ln_stop l = Stop_Idle then Es_Idle else Es_Listener\<rparr>)
       (Listener_stop (gw_listener g))"

definition EgressGateway_frames_dropped :: "EgressGateway \<Rightarrow> u64" where
  "EgressGateway_frames_dropped g = pq_dropped (eg_queue (gw_core g))"

text \<open>A wait that timed out, or not; None while it blocks.\<close>

definition EgressGateway_wait_playing :: "bool \<Rightarrow> EgressGateway \<Rightarrow> bool option" where
  "EgressGateway_wait_playing timed_out g =
     (if eg_playing (gw_core g) then Some True else if timed_out then Some False else None)"

section \<open>Threads\<close>

definition sup_client :: "Supervisor \<Rightarrow> Client option" where
  "sup_client s = (case sv_local s of Some c \<Rightarrow> Some c | None \<Rightarrow> sv_client s)"

fun delivered_frames :: "effect list \<Rightarrow> Frame list" where
  "delivered_frames [] = []"
| "delivered_frames (Eff_Deliver f # es) = f # delivered_frames es"
| "delivered_frames (_ # es) = delivered_frames es"

text \<open>The frames one callback of the network thread hands to the message handler.\<close>

definition net_frames :: "pico \<Rightarrow> net_event \<Rightarrow> Supervisor \<Rightarrow> Frame list" where
  "net_frames p e s =
     (case sup_client s of
        None \<Rightarrow> []
      | Some c \<Rightarrow> delivered_frames (drop (length (qc_log c)) (qc_log (net_client p e c))))"

abbreviation net_idle :: "EgressGateway \<Rightarrow> bool" where
  "net_idle g \<equiv> gw_received g = [] \<and> gw_checked g = None"

fun destroys :: "sup_pc \<Rightarrow> bool" where
  "destroys (Pc_Destroy pc) = True"
| "destroys _ = False"

datatype egress_action =
    Eg_Start EgressOptions bool bool bool
  | Eg_Stop
  | Eg_Listener listener_action
  | Eg_Net pico net_event
  | Eg_Check
  | Eg_Push
  | Eg_Run connect_answers bool
  | Eg_Writer "nat \<Rightarrow> int"

text \<open>The supervisor's piece \<open>Pc_Ready\<close> is \<open>on_ready\<close>, which also sets \<open>playing\<close>.\<close>

definition egress_run :: "connect_answers \<Rightarrow> bool \<Rightarrow> EgressGateway \<Rightarrow> EgressGateway option" where
  "egress_run a timed_out g =
     (case gw_supervisor g of
        None \<Rightarrow> None
      | Some s \<Rightarrow>
          if destroys (sv_pc s) \<and> \<not> net_idle g then None
          else map_option (\<lambda>s'. g\<lparr>gw_supervisor := Some s',
                   gw_core := (if sv_pc s = Pc_Ready then (gw_core g)\<lparr>eg_playing := True\<rparr> else gw_core g)\<rparr>)
                 (sup_run a timed_out s))"

definition egress_net :: "pico \<Rightarrow> net_event \<Rightarrow> EgressGateway \<Rightarrow> EgressGateway option" where
  "egress_net p e g =
     (case gw_supervisor g of
        None \<Rightarrow> None
      | Some s \<Rightarrow>
          if \<not> net_idle g then None
          else Some (g\<lparr>gw_supervisor := Some (sup_net p e s), gw_received := net_frames p e s\<rparr>))"

fun egress_do :: "egress_action \<Rightarrow> EgressGateway \<Rightarrow> EgressGateway option" where
  "egress_do (Eg_Start opts a b c) g =
     (if gw_stop g = Es_Idle \<and> supervisor_joined g then Some (snd (EgressGateway_start opts a b c g)) else None)"
| "egress_do Eg_Stop g = EgressGateway_stop_at (gw_stop g) g"
| "egress_do (Eg_Listener act) g =
     (if is_start act \<or> act = Act_Stop then None
      else map_option (\<lambda>(l, core). g\<lparr>gw_listener := l, gw_core := core\<rparr>)
             (listener_do egress_factory egress_handler act (gw_listener g, gw_core g)))"
| "egress_do (Eg_Net p e) g = egress_net p e g"
| "egress_do Eg_Check g =
     (case gw_received g of
        [] \<Rightarrow> None
      | f # fs \<Rightarrow>
          if gw_checked g \<noteq> None then None
          else (case on_frame_check f (gw_core g) of
                  (e, core) \<Rightarrow> Some (g\<lparr>gw_received := fs, gw_checked := e, gw_core := core\<rparr>)))"
| "egress_do Eg_Push g =
     (if gw_checked g = None then None
      else Some (g\<lparr>gw_core := on_frame_push (gw_checked g) (gw_core g), gw_checked := None\<rparr>))"
| "egress_do (Eg_Run a timed_out) g = egress_run a timed_out g"
| "egress_do (Eg_Writer sock) g = writer_step (gw_writer g) sock g"

inductive egress_reachable :: "EgressGateway \<Rightarrow> bool" where
  egress_new: "egress_reachable EgressGateway_new"
| egress_next: "egress_reachable g \<Longrightarrow> egress_do a g = Some g' \<Longrightarrow> egress_reachable g'"

section \<open>The invariant\<close>

fun writer_holds :: "writer_pc \<Rightarrow> nat \<Rightarrow> bool" where
  "writer_holds (Wr_Send q m) p = (p = q)"
| "writer_holds _ p = False"

definition stopped_supervisor :: "egress_stop_pc \<Rightarrow> bool" where
  "stopped_supervisor pc \<longleftrightarrow> pc \<in> {Es_Close_Player, Es_Close_Queue, Es_Join_Writer, Es_Listener}"

definition gw_inv :: "EgressGateway \<Rightarrow> bool" where
  "gw_inv g \<longleftrightarrow> owner_inv egress_refers (gw_listener g) (gw_core g)
     \<and> (\<forall>p. writer_holds (gw_writer g) p \<longrightarrow> p \<in> set (pointers (gw_listener g)))
     \<and> gw_writer_started g = (gw_writer g \<noteq> Wr_None)
     \<and> (gw_stop g = Es_Listener \<longrightarrow> gw_writer g = Wr_None)
     \<and> (gw_stop g \<noteq> Es_Listener \<longrightarrow> ln_stop (gw_listener g) = Stop_Idle)
     \<and> pred_option sup_inv (gw_supervisor g)
     \<and> (net_idle g \<or> pred_option (\<lambda>s. sup_client s \<noteq> None) (gw_supervisor g) \<and> gw_supervisor g \<noteq> None)
     \<and> (stopped_supervisor (gw_stop g) \<longrightarrow> supervisor_joined g)
     \<and> (gw_stop g \<in> {Es_Join_Writer, Es_Listener} \<longrightarrow> pq_closed (eg_queue (gw_core g)))"

lemma gw_inv_new: "gw_inv EgressGateway_new"
  by (simp add: gw_inv_def EgressGateway_new_def stopped_supervisor_def owner_inv_new Egress_new_def)
    (simp add: Listener_new_def)

lemma joined_no_client:
  assumes "sup_inv s" "\<not> sv_started s \<or> sv_pc s = Pc_Done"
  shows "sup_client s = None" "sup_run a t s = None" "sup_net p e s = s"
proof -
  have "sv_pc s = Pc_Idle \<or> sv_pc s = Pc_Done" using assms by (auto simp: sup_inv_def)
  with assms(1) have "sv_client s = None" "sv_local s = None" by (auto simp: sup_inv_def)
  with \<open>sv_pc s = Pc_Idle \<or> sv_pc s = Pc_Done\<close>
  show "sup_client s = None" "sup_run a t s = None" "sup_net p e s = s"
    by (auto simp: sup_client_def sup_run_def sup_net_def)
qed

text \<open>The supervisor lets go of a client only by destroying it.\<close>

lemma run_keeps_client:
  assumes "sup_inv s" "sup_run a t s = Some s'" "\<not> destroys (sv_pc s)" "sup_client s \<noteq> None"
  shows "sup_client s' \<noteq> None"
  using assms
  by (cases "sv_pc s")
    (auto simp: sup_run_def sup_client_def sup_inv_def publish_client_def take_client_def handle_failed_attempt_def Let_def
      split: option.splits prod.splits bool.splits if_splits)

lemma net_keeps_client: "sup_client s \<noteq> None \<Longrightarrow> sup_client (sup_net p e s) \<noteq> None"
  by (auto simp: sup_client_def sup_net_def Let_def split: option.splits)

lemma stop_keeps_client: "sup_client s \<noteq> None \<Longrightarrow> sup_client (Supervisor_stop s) \<noteq> None"
  by (auto simp: sup_client_def Supervisor_stop_def split: option.splits)

lemma net_frames_client: "net_frames p e s \<noteq> [] \<Longrightarrow> sup_client s \<noteq> None"
  by (auto simp: net_frames_def split: option.splits)

text \<open>Each kind of step keeps the invariant.\<close>

lemma gw_inv_owner: "gw_inv g \<Longrightarrow> owner_inv egress_refers (gw_listener g) (gw_core g)"
  by (simp add: gw_inv_def)

lemma gw_inv_listener: "gw_inv g \<Longrightarrow> listener_inv (gw_listener g)"
  by (rule owner_invD(1) [OF gw_inv_owner])

lemma gw_inv_writer: "gw_inv g \<Longrightarrow> writer_holds (gw_writer g) p \<Longrightarrow> p \<in> set (pointers (gw_listener g))"
  by (simp add: gw_inv_def)

lemma owner_core: "owner_inv egress_refers l g \<Longrightarrow> eg_player g' = eg_player g \<Longrightarrow> owner_inv egress_refers l g'"
  by (erule owner_inv_weaken) simp

lemma gw_inv_threads:
  assumes inv: "gw_inv g" and "\<not> is_start act" "act \<noteq> Act_Stop"
    and step: "listener_do egress_factory egress_handler act (gw_listener g, gw_core g) = Some (l, core)"
    and closed: "pq_closed (eg_queue core) = pq_closed (eg_queue (gw_core g))"
  shows "gw_inv (g\<lparr>gw_listener := l, gw_core := core\<rparr>)"
proof -
  have o: "owner_inv egress_refers l core"
    by (rule egress_sessions.owner_step [OF gw_inv_owner [OF inv] step])
  have keep: "ln_stop l = ln_stop (gw_listener g)" "set (pointers (gw_listener g)) \<subseteq> set (pointers l)"
    using threads_keep_sessions [OF gw_inv_listener [OF inv] step assms(2,3)] by blast+
  have "\<forall>p. writer_holds (gw_writer g) p \<longrightarrow> p \<in> set (pointers l)"
    using gw_inv_writer [OF inv] keep(2) by blast
  with o keep(1) closed inv show ?thesis by (simp add: gw_inv_def supervisor_joined_def del: set_map)
qed

lemma handler_closed [simp]:
  "pq_closed (eg_queue (egress_handler p e g)) = pq_closed (eg_queue g)"
  "pq_closed (eg_queue (install_player p g)) = pq_closed (eg_queue g)"
proof -
  have push: "pq_closed (snd (PlayerQueue_push m k q)) = pq_closed q" for m k q
    by (auto simp: PlayerQueue_push_def Let_def split: option.split)
  have "pq_closed (fold (\<lambda>m q. snd (PlayerQueue_push m Kind_Init q)) ms q) = pq_closed q" for ms q
    by (induction ms arbitrary: q) (simp_all add: push)
  then show "pq_closed (eg_queue (egress_handler p e g)) = pq_closed (eg_queue g)"
    by (cases e) (auto simp: on_player_play_def player_closed_def split: option.split)
  show "pq_closed (eg_queue (install_player p g)) = pq_closed (eg_queue g)"
    by (simp add: install_player_def PlayerQueue_clear_def)
qed

lemma threads_closed:
  assumes "listener_do egress_factory egress_handler act (l, g) = Some (l', g')"
  shows "pq_closed (eg_queue g') = pq_closed (eg_queue g)"
proof (cases act)
  case (Act_Accept r)
  with assms show ?thesis
    by (cases r) (auto simp: accept_return_def egress_factory_def Let_def split: if_splits)
qed (use assms in \<open>auto split: option.splits if_splits\<close>)

lemma gw_inv_run:
  assumes inv: "gw_inv g" and step: "egress_run a t g = Some g'"
  shows "gw_inv g'"
proof -
  obtain s s' where s: "gw_supervisor g = Some s" "destroys (sv_pc s) \<longrightarrow> net_idle g" "sup_run a t s = Some s'"
    and g': "g' = g\<lparr>gw_supervisor := Some s',
      gw_core := (if sv_pc s = Pc_Ready then (gw_core g)\<lparr>eg_playing := True\<rparr> else gw_core g)\<rparr>"
    using step by (auto simp: egress_run_def simp del: not_None_eq split: option.splits if_splits)
  have si: "sup_inv s" using inv s(1) by (simp add: gw_inv_def)
  then have "sup_inv s'" using s(3) sup_inv_step [OF sup_step.run] by blast
  moreover have "\<not> stopped_supervisor (gw_stop g)"
    using inv s(1,3) joined_no_client(2) [OF si] by (auto simp: gw_inv_def supervisor_joined_def)
  moreover have "net_idle g \<or> sup_client s' \<noteq> None"
    using inv s run_keeps_client [OF si s(3)] by (auto simp: gw_inv_def)
  moreover have "owner_inv egress_refers (gw_listener g) (gw_core g')"
    by (rule owner_core [OF gw_inv_owner [OF inv]]) (simp add: g')
  ultimately show ?thesis using inv by (auto simp: gw_inv_def g' stopped_supervisor_def)
qed

lemma gw_inv_net:
  assumes inv: "gw_inv g" and step: "egress_net p e g = Some g'"
  shows "gw_inv g'"
proof -
  obtain s where s: "gw_supervisor g = Some s" and g': "g' = g\<lparr>gw_supervisor := Some (sup_net p e s), gw_received := net_frames p e s\<rparr>"
    and idle: "net_idle g"
    using step by (auto simp: egress_net_def simp del: not_None_eq split: option.splits if_splits)
  have si: "sup_inv s" using inv s by (simp add: gw_inv_def)
  then have "sup_inv (sup_net p e s)" by (rule sup_inv_net)
  moreover have "stopped_supervisor (gw_stop g) \<longrightarrow> supervisor_joined g'"
    using inv s joined_no_client(3) [OF si] by (auto simp: gw_inv_def supervisor_joined_def g')
  moreover have "net_idle g' \<or> sup_client (sup_net p e s) \<noteq> None"
    using net_frames_client [of p e s] net_keeps_client [of s p e] idle by (auto simp: g')
  ultimately show ?thesis using inv by (auto simp: gw_inv_def g')
qed

lemma gw_inv_core:
  assumes "gw_inv g" "eg_player core = eg_player (gw_core g)" "pq_closed (eg_queue core) = pq_closed (eg_queue (gw_core g))"
  shows "gw_inv (g\<lparr>gw_core := core\<rparr>)"
  using assms owner_core [OF gw_inv_owner [OF assms(1)] assms(2)]
  by (simp add: gw_inv_def supervisor_joined_def)

lemma gw_inv_writer_step:
  assumes inv: "gw_inv g" and step: "writer_step (gw_writer g) sock g = Some g'"
  shows "gw_inv g'"
proof (cases "gw_writer g")
  case Wr_Pop
  then obtain m core where p: "writer_pop (gw_core g) = Some (m, core)"
    and g': "g' = g\<lparr>gw_core := core, gw_writer := (case m of None \<Rightarrow> Wr_Exited | Some m \<Rightarrow> Wr_Look m)\<rparr>"
    using step by auto
  have "eg_player core = eg_player (gw_core g)" "pq_closed (eg_queue core) = pq_closed (eg_queue (gw_core g))"
    using p by (auto simp: writer_pop_def PlayerQueue_pop_def split: if_splits list.splits prod.splits)
  then have "gw_inv (g\<lparr>gw_core := core\<rparr>)" by (rule gw_inv_core [OF inv])
  with Wr_Pop show ?thesis
    unfolding g' by (cases m) (simp_all add: gw_inv_def supervisor_joined_def)
next
  case (Wr_Look m)
  have "writer_player (gw_core g) = Some p \<Longrightarrow> p \<in> set (pointers (gw_listener g))" for p
    using owner_invD(4) [OF gw_inv_owner [OF inv]] by (auto simp: writer_player_def split: if_splits)
  with Wr_Look step inv show ?thesis
    by (cases "writer_player (gw_core g)") (auto simp: gw_inv_def supervisor_joined_def)
next
  case (Wr_Send p m)
  have g': "g' = g\<lparr>gw_listener := session_call p (\<lambda>s. snd (ServerSession_send sock m s)) (gw_listener g), gw_writer := Wr_Pop\<rparr>"
    using step Wr_Send by simp
  have "owner_inv egress_refers (gw_listener g') (gw_core g)"
    unfolding g' using gw_inv_writer [OF inv] Wr_Send
    by (simp add: owner_inv_call [OF gw_inv_owner [OF inv] silent_send] del: set_map)
  with Wr_Send inv show ?thesis by (simp add: gw_inv_def g' supervisor_joined_def)
qed (use step in simp_all)

lemma gw_inv_stop:
  assumes inv: "gw_inv g" and step: "EgressGateway_stop_at (gw_stop g) g = Some g'"
  shows "gw_inv g'"
proof (cases "gw_stop g")
  case Es_Idle
  then have g': "g' = g\<lparr>gw_supervisor := map_option Supervisor_stop (gw_supervisor g), gw_stop := Es_Join_Supervisor\<rparr>"
    using step by simp
  have "sup_inv s \<Longrightarrow> sup_inv (Supervisor_stop s)" for s by (rule sup_inv_step [OF sup_step.stop])
  with Es_Idle inv stop_keeps_client show ?thesis
    by (cases "gw_supervisor g") (auto simp: gw_inv_def g' stopped_supervisor_def supervisor_joined_def)
next
  case Es_Join_Supervisor
  with step inv show ?thesis by (auto simp: gw_inv_def stopped_supervisor_def supervisor_joined_def split: if_splits)
next
  case Es_Close_Player
  then have g': "g' = (close_player g)\<lparr>gw_stop := Es_Close_Queue\<rparr>" using step by simp
  have "owner_inv egress_refers (gw_listener (close_player g)) (gw_core g)"
    using owner_inv_call [OF gw_inv_owner [OF inv] silent_close] owner_invD(4) [OF gw_inv_owner [OF inv]] gw_inv_owner [OF inv]
    by (simp add: close_player_def del: set_map split: option.split)
  moreover have "gw_core (close_player g) = gw_core g" "gw_writer (close_player g) = gw_writer g"
    "gw_writer_started (close_player g) = gw_writer_started g" "gw_supervisor (close_player g) = gw_supervisor g"
    "gw_received (close_player g) = gw_received g" "gw_checked (close_player g) = gw_checked g"
    "ln_stop (gw_listener (close_player g)) = ln_stop (gw_listener g)" "pointers (gw_listener (close_player g)) = pointers (gw_listener g)"
    by (simp_all add: close_player_def split: option.split)
  ultimately show ?thesis
    using Es_Close_Player inv by (simp add: gw_inv_def g' supervisor_joined_def stopped_supervisor_def del: set_map)
next
  case Es_Close_Queue
  then have g': "g' = g\<lparr>gw_core := (gw_core g)\<lparr>eg_queue := PlayerQueue_close (eg_queue (gw_core g))\<rparr>, gw_stop := Es_Join_Writer\<rparr>"
    using step by simp
  have "owner_inv egress_refers (gw_listener g) (gw_core g')"
    by (rule owner_core [OF gw_inv_owner [OF inv]]) (simp add: g')
  with Es_Close_Queue inv show ?thesis
    by (simp add: gw_inv_def g' supervisor_joined_def stopped_supervisor_def PlayerQueue_close_def)
next
  case Es_Join_Writer
  with step inv show ?thesis
    by (auto simp: gw_inv_def stopped_supervisor_def supervisor_joined_def split: if_splits)
next
  case Es_Listener
  then obtain l where l: "Listener_stop (gw_listener g) = Some l"
    and g': "g' = g\<lparr>gw_listener := l, gw_stop := if ln_stop l = Stop_Idle then Es_Idle else Es_Listener\<rparr>"
    using step by auto
  have "owner_inv egress_refers l (gw_core g)" by (rule owner_inv_stop [OF gw_inv_owner [OF inv] l])
  with Es_Listener inv show ?thesis by (simp add: gw_inv_def g' supervisor_joined_def stopped_supervisor_def)
qed

lemma gw_inv_start:
  assumes inv: "gw_inv g" and "gw_stop g = Es_Idle" "supervisor_joined g"
  shows "gw_inv (snd (EgressGateway_start opts a b c g))"
proof -
  obtain ok l where l: "Listener_start a b c (gw_listener g) = (ok, l)" by (cases "Listener_start a b c (gw_listener g)")
  have idle: "ln_stop (gw_listener g) = Stop_Idle" using inv assms(2) by (simp add: gw_inv_def)
  have "owner_inv egress_refers l (gw_core g)"
    using egress_sessions.owner_step [OF gw_inv_owner [OF inv], of "Act_Start a b c"] l idle by simp
  moreover have "ln_slots l = ln_slots (gw_listener g)" "ln_stop l = ln_stop (gw_listener g)"
    using l by (auto simp: Listener_start_def split: if_splits)
  moreover have "sup_inv (Supervisor_start (Supervisor_new o' p' r'))" for o' p' r'
    by (rule sup_inv_step [OF sup_step.start sup_inv_new])
  moreover have "net_idle g"
    using inv assms(3) joined_no_client(1) by (cases "gw_supervisor g") (auto simp: gw_inv_def supervisor_joined_def)
  ultimately show ?thesis
    using inv assms(2) by (simp add: EgressGateway_start_def Let_def l gw_inv_def stopped_supervisor_def)
qed

lemma gw_inv_do:
  assumes inv: "gw_inv g" and step: "egress_do a g = Some g'"
  shows "gw_inv g'"
proof (cases a)
  case (Eg_Start opts x y z)
  with inv step gw_inv_start show ?thesis by (auto split: if_splits)
next
  case Eg_Stop
  with inv step gw_inv_stop show ?thesis by simp
next
  case (Eg_Listener act)
  with step obtain l core where "\<not> is_start act" "act \<noteq> Act_Stop" "g' = g\<lparr>gw_listener := l, gw_core := core\<rparr>"
    "listener_do egress_factory egress_handler act (gw_listener g, gw_core g) = Some (l, core)"
    by (auto split: if_splits)
  with gw_inv_threads [OF inv] threads_closed show ?thesis by blast
next
  case (Eg_Net p e)
  with inv step gw_inv_net show ?thesis by simp
next
  case Eg_Check
  with step obtain f fs e core where c: "gw_received g = f # fs" "on_frame_check f (gw_core g) = (e, core)"
    and g': "g' = g\<lparr>gw_received := fs, gw_checked := e, gw_core := core\<rparr>"
    by (auto simp del: not_None_eq split: list.splits if_splits prod.splits)
  have "gw_inv (g\<lparr>gw_core := core\<rparr>)"
    using check_fields [of f "gw_core g"] c(2) by (intro gw_inv_core [OF inv]) simp_all
  with c(1) show ?thesis by (simp add: g' gw_inv_def supervisor_joined_def)
next
  case Eg_Push
  with step have g': "g' = g\<lparr>gw_core := on_frame_push (gw_checked g) (gw_core g), gw_checked := None\<rparr>" "gw_checked g \<noteq> None"
    by (auto simp del: not_None_eq split: if_splits)
  have "pq_closed (snd (PlayerQueue_push m k q)) = pq_closed q" for m k q
    by (auto simp: PlayerQueue_push_def Let_def split: option.split)
  then have "gw_inv (g\<lparr>gw_core := on_frame_push (gw_checked g) (gw_core g)\<rparr>)"
    by (intro gw_inv_core [OF inv]) (simp_all add: on_frame_push_def split: option.split)
  with g'(2) show ?thesis by (simp add: g'(1) gw_inv_def supervisor_joined_def del: not_None_eq)
next
  case (Eg_Run an t)
  with inv step gw_inv_run show ?thesis by simp
next
  case (Eg_Writer sock)
  with inv step gw_inv_writer_step show ?thesis by simp
qed

lemma gw_inv_reachable: "egress_reachable g \<Longrightarrow> gw_inv g"
  by (induction rule: egress_reachable.induct) (simp_all add: gw_inv_new gw_inv_do)

section \<open>The end of the writer\<close>

inductive egress_later :: "EgressGateway \<Rightarrow> EgressGateway \<Rightarrow> bool" where
  later_now: "egress_later g g"
| later_next: "egress_later g g' \<Longrightarrow> egress_do a g' = Some g'' \<Longrightarrow> egress_later g g''"

text \<open>Nothing left to send, and nothing to come.\<close>

definition drained :: "PlayerQueue \<Rightarrow> bool" where
  "drained q \<longleftrightarrow> pq_closed q \<and> pq_queue q = []"

lemma drained_ops:
  assumes "drained q"
  shows "drained (snd (PlayerQueue_push m k q))" "drained (PlayerQueue_clear q)" "drained (PlayerQueue_close q)"
    "PlayerQueue_pop q = Some (None, q)"
  using assms
  by (simp_all add: drained_def PlayerQueue_push_def PlayerQueue_clear_def PlayerQueue_close_def PlayerQueue_pop_def)

lemma drained_core:
  assumes "drained (eg_queue g)"
  shows "drained (eg_queue (egress_handler p e g))" "drained (eg_queue (install_player p g))"
    "drained (eg_queue (snd (on_frame_check f g)))" "drained (eg_queue (on_frame_push r g))"
    "writer_pop g = Some (None, g)"
proof -
  have "drained (fold (\<lambda>m q. snd (PlayerQueue_push m Kind_Init q)) ms q)" if "drained q" for ms q
    using that by (induction ms arbitrary: q) (simp_all add: drained_ops)
  with assms show "drained (eg_queue (egress_handler p e g))"
    by (cases e) (auto simp: on_player_play_def player_closed_def split: option.split)
  show "drained (eg_queue (install_player p g))" "drained (eg_queue (snd (on_frame_check f g)))"
    "drained (eg_queue (on_frame_push r g))" "writer_pop g = Some (None, g)"
    using assms
    by (auto simp: install_player_def on_frame_push_def writer_pop_def drained_ops split: option.split)
qed

lemma drained_threads:
  assumes "listener_do egress_factory egress_handler act (l, g) = Some (l', g')" "drained (eg_queue g)"
  shows "drained (eg_queue g')"
proof (cases act)
  case (Act_Accept r)
  with assms drained_core(2) show ?thesis
    by (cases r) (auto simp: accept_return_def egress_factory_def Let_def split: if_splits)
qed (use assms drained_core(1) in \<open>auto split: option.splits if_splits\<close>)

fun writer_busy :: "writer_pc \<Rightarrow> bool" where
  "writer_busy (Wr_Look m) = True"
| "writer_busy (Wr_Send p m) = True"
| "writer_busy _ = False"

lemma drained_stays:
  assumes "egress_do a g = Some g'" "drained (eg_queue (gw_core g))" "\<not> writer_busy (gw_writer g)"
  shows "drained (eg_queue (gw_core g')) \<and> \<not> writer_busy (gw_writer g')"
proof (cases a)
  case (Eg_Start opts x y z)
  with assms show ?thesis
    by (auto simp: EgressGateway_start_def Let_def split: if_splits prod.splits)
next
  case Eg_Stop
  with assms show ?thesis
    by (cases "gw_stop g") (auto simp: close_player_def drained_ops split: if_splits option.splits)
next
  case (Eg_Listener act)
  with assms drained_threads show ?thesis by (auto split: if_splits)
next
  case (Eg_Net p e)
  with assms show ?thesis by (auto simp: egress_net_def simp del: not_None_eq split: option.splits if_splits)
next
  case Eg_Check
  with assms drained_core(3) show ?thesis
    by (auto simp del: not_None_eq split: list.splits if_splits prod.splits) (metis drained_core(3) snd_conv)
next
  case Eg_Push
  with assms drained_core(4) show ?thesis by (auto simp del: not_None_eq split: if_splits)
next
  case (Eg_Run an t)
  with assms show ?thesis by (auto simp: egress_run_def simp del: not_None_eq split: option.splits if_splits)
next
  case (Eg_Writer sock)
  with assms drained_core(5) [of "gw_core g"] show ?thesis by (cases "gw_writer g") auto
qed

lemma pop_none_drained: "writer_pop g = Some (None, g') \<Longrightarrow> drained (eg_queue g')"
  by (auto simp: writer_pop_def PlayerQueue_pop_def drained_def split: if_splits list.splits)

lemma exited_drained:
  "egress_reachable g \<Longrightarrow> gw_writer g = Wr_Exited \<Longrightarrow> drained (eg_queue (gw_core g))"
proof (induction rule: egress_reachable.induct)
  case (egress_next g a g')
  show ?case
  proof (cases "gw_writer g = Wr_Exited")
    case True
    with egress_next drained_stays show ?thesis by simp
  next
    case False
    then have "\<exists>sock. a = Eg_Writer sock \<and> gw_writer g = Wr_Pop"
      using egress_next.hyps(2) egress_next.prems
      by (cases a; cases "gw_stop g"; cases "gw_writer g")
        (auto simp: EgressGateway_start_def close_player_def egress_net_def egress_run_def Let_def simp del: not_None_eq
          split: if_splits option.splits prod.splits list.splits)
    then obtain m core where "writer_pop (gw_core g) = Some (m, core)"
      "g' = g\<lparr>gw_core := core, gw_writer := (case m of None \<Rightarrow> Wr_Exited | Some m \<Rightarrow> Wr_Look m)\<rparr>"
      using egress_next.hyps(2) by auto
    with egress_next.prems pop_none_drained show ?thesis by (cases m) simp_all
  qed
qed (simp add: EgressGateway_new_def)

lemma drained_later:
  "egress_later g g' \<Longrightarrow> drained (eg_queue (gw_core g)) \<Longrightarrow> \<not> writer_busy (gw_writer g) \<Longrightarrow>
     drained (eg_queue (gw_core g')) \<and> \<not> writer_busy (gw_writer g')"
proof (induction rule: egress_later.induct)
  case (later_next g g' a g'')
  then show ?case using drained_stays by blast
qed simp

section \<open>Properties\<close>

text \<open>
  C6. No thread of the egress gateway calls into a session that was destroyed: whatever players
  come and go, however the network thread, the writer, the sessions, the supervisor and \<open>stop\<close>
  are interleaved, every call through the player pointer, by the factory that closes a previous
  player, by the writer or by \<open>stop\<close>, reaches a session that exists. While \<open>stop\<close> destroys the
  sessions the supervisor has ended, no frame is being handled, and there is no writer; and once
  \<open>stop\<close> has returned no pointer to a session is left.
\<close>

theorem egress_pointers_safe:
  assumes "egress_reachable g"
  shows "\<not> ln_fault (gw_listener g)
    \<and> (if writer_holds (gw_writer g) p \<or> eg_player (gw_core g) = Some p
       then p \<in> set (pointers (gw_listener g)) else True)
    \<and> (if gw_stop g = Es_Listener then supervisor_joined g \<and> net_idle g \<and> gw_writer g = Wr_None else True)
    \<and> (if gw_stop g = Es_Idle \<and> \<not> ln_running (gw_listener g)
       then eg_player (gw_core g) = None \<and> ln_slots (gw_listener g) = [] else True)"
proof -
  have inv: "gw_inv g" by (rule gw_inv_reachable [OF assms])
  note own = gw_inv_owner [OF inv]
  have "gw_stop g = Es_Listener \<Longrightarrow> supervisor_joined g \<and> net_idle g \<and> gw_writer g = Wr_None"
    using inv joined_no_client(1)
    by (cases "gw_supervisor g") (auto simp: gw_inv_def stopped_supervisor_def supervisor_joined_def)
  moreover have "ln_slots (gw_listener g) = []" if "gw_stop g = Es_Idle" "\<not> ln_running (gw_listener g)"
    using inv gw_inv_listener [OF inv] that by (simp add: gw_inv_def listener_inv_def)
  moreover have "eg_player (gw_core g) = None" if "ln_slots (gw_listener g) = []"
    using owner_invD(4) [OF own] that by fastforce
  ultimately show ?thesis
    using owner_invD(2,4) [OF own] gw_inv_writer [OF inv] by simp
qed

fun egress_exec :: "egress_action list \<Rightarrow> EgressGateway \<Rightarrow> EgressGateway option" where
  "egress_exec [] g = Some g"
| "egress_exec (a # as) g = Option.bind (egress_do a g) (egress_exec as)"

lemma egress_exec_reachable: "egress_reachable g \<Longrightarrow> egress_exec as g = Some g' \<Longrightarrow> egress_reachable g'"
  by (induction as arbitrary: g) (auto simp: bind_eq_Some_conv intro: egress_next)

definition demo_players :: "egress_action list" where
  "demo_players = [Eg_Start default_egress_options True True True, Eg_Listener Act_Check, Eg_Listener (Act_Accept (Some 7)),
     Eg_Listener Act_Check, Eg_Listener (Act_Accept (Some 9))]"

theorem egress_pointers_safe_witness:
  "\<exists>g. egress_exec demo_players EgressGateway_new = Some g \<and> eg_player (gw_core g) = Some 9
     \<and> 9 \<in> set (pointers (gw_listener g)) \<and> \<not> ln_fault (gw_listener g)"
proof -
  obtain g where g: "egress_exec demo_players EgressGateway_new = Some g" "eg_player (gw_core g) = Some 9"
    by (simp add: demo_players_def EgressGateway_new_def EgressGateway_start_def Listener_new_def Listener_start_def
        accept_check_def accept_return_def egress_factory_def install_player_def previous_player_def supervisor_joined_def Let_def)
  with egress_pointers_safe [OF egress_exec_reachable [OF egress_new g(1)], of 9] show ?thesis by auto
qed

text \<open>
  C28. The writer thread ends only with the queue closed and empty: nothing that was enqueued is left
  behind. From then on no message is ever taken from the queue again, also when the gateway is
  started once more.
\<close>

theorem egress_writer_final:
  assumes "egress_reachable g" "gw_writer g = Wr_Exited" "egress_later g g'"
  shows "pq_closed (eg_queue (gw_core g)) \<and> pq_queue (eg_queue (gw_core g)) = []
    \<and> pq_queue (eg_queue (gw_core g')) = []
    \<and> gw_writer g' \<noteq> Wr_Look m \<and> gw_writer g' \<noteq> Wr_Send p m"
proof -
  have d: "drained (eg_queue (gw_core g))" by (rule exited_drained [OF assms(1,2)])
  then have "drained (eg_queue (gw_core g')) \<and> \<not> writer_busy (gw_writer g')"
    using drained_later [OF assms(3)] assms(2) by simp
  with d show ?thesis by (auto simp: drained_def)
qed

definition demo_end_writer :: "egress_action list" where
  "demo_end_writer = [Eg_Start default_egress_options True True True, Eg_Stop, Eg_Run demo_answers False, Eg_Run demo_answers False,
     Eg_Run demo_answers False, Eg_Stop, Eg_Stop, Eg_Stop, Eg_Writer (\<lambda>_. 0)]"

theorem egress_writer_final_witness:
  "\<exists>g g'. egress_exec demo_end_writer EgressGateway_new = Some g \<and> gw_writer g = Wr_Exited
     \<and> egress_do Eg_Stop g = Some g' \<and> gw_stop g' = Es_Listener \<and> pq_queue (eg_queue (gw_core g')) = []"
proof -
  obtain g where g: "egress_exec demo_end_writer EgressGateway_new = Some g" "gw_writer g = Wr_Exited" "gw_stop g = Es_Join_Writer"
    by (simp add: demo_end_writer_def EgressGateway_new_def EgressGateway_start_def Listener_new_def Listener_start_def
        supervisor_joined_def Supervisor_start_def Supervisor_new_def Supervisor_stop_def egress_run_def sup_run_def
        take_client_def destroy_local_def close_player_def Egress_new_def PlayerQueue_close_def PlayerQueue_new_def
        writer_pop_def PlayerQueue_pop_def Let_def)
  then have step: "egress_do Eg_Stop g = Some (g\<lparr>gw_writer := Wr_None, gw_writer_started := False, gw_stop := Es_Listener\<rparr>)"
    by simp
  from egress_writer_final [OF egress_exec_reachable [OF egress_new g(1)] g(2) later_next [OF later_now step]] g step
  show ?thesis by auto
qed

end
