(* ===== verification/Ffi.thy ===== *)
theory Ffi
  imports Ingest_Gateway Egress_Gateway
begin

text \<open>
  The C interface of \<^verbatim>\<open>ffi/src/roqr_ffi.cpp\<close> and \<^verbatim>\<open>ffi/src/roqr_rtmp_ffi.cpp\<close>.

  A pointer is an option, with None for null. The payload of a C frame is a pointer to as many
  bytes as the caller's memory holds there; reading beyond them is undefined, which is the
  result None of \<open>roqr_client_send\<close>. The client, ingest and egress handles point to the objects of theories
  \<open>Client\<close>, \<open>Ingest_Gateway\<close> and \<open>Egress_Gateway\<close>. A callback is the number of a C function with its user
  data; the trampolines registered with the client say which callback an event reaches, and with
  what. An \<^verbatim>\<open>int\<close> that stands for a truth value is an integer.
\<close>

section \<open>Types\<close>

datatype roqr_error =
    ROQR_OK | ROQR_ERR_GENERAL | ROQR_ERR_INTERNAL | ROQR_ERR_FRAME_ENCODING | ROQR_ERR_STREAM_CREATION
  | ROQR_ERR_FRAME_CANCELLED | ROQR_ERR_UNKNOWN_FLOW | ROQR_ERR_EXPECTATION_UNMET
  | ROQR_ERR_INVALID_ARG | ROQR_ERR_CONNECT_FAILED | ROQR_ERR_TIMEOUT

fun roqr_error_value :: "roqr_error \<Rightarrow> u64" where
  "roqr_error_value ROQR_OK = 0"
| "roqr_error_value ROQR_ERR_GENERAL = 1"
| "roqr_error_value ROQR_ERR_INTERNAL = 2"
| "roqr_error_value ROQR_ERR_FRAME_ENCODING = 3"
| "roqr_error_value ROQR_ERR_STREAM_CREATION = 4"
| "roqr_error_value ROQR_ERR_FRAME_CANCELLED = 5"
| "roqr_error_value ROQR_ERR_UNKNOWN_FLOW = 6"
| "roqr_error_value ROQR_ERR_EXPECTATION_UNMET = 7"
| "roqr_error_value ROQR_ERR_INVALID_ARG = 100"
| "roqr_error_value ROQR_ERR_CONNECT_FAILED = 101"
| "roqr_error_value ROQR_ERR_TIMEOUT = 102"

definition ROQR_DELIVERY_STREAM :: int where "ROQR_DELIVERY_STREAM = 0"
definition ROQR_DELIVERY_DATAGRAM :: int where "ROQR_DELIVERY_DATAGRAM = 1"
definition ROQR_DELIVERY_AUTO :: int where "ROQR_DELIVERY_AUTO = 2"

record roqr_frame =
  rf_flow_id :: u64
  rf_timestamp :: u64
  rf_message_type :: byte
  rf_message_stream_id :: u64
  rf_chunk_stream_id :: u64
  rf_payload :: "bytes option"
  rf_payload_len :: nat

type_synonym callback = "nat \<times> nat"

record roqr_client =
  rc_client :: Client
  rc_on_message :: "callback option"
  rc_on_closed :: "callback option"

section \<open>The client\<close>

definition to_cpp_mode :: "int \<Rightarrow> DeliveryMode" where
  "to_cpp_mode m =
     (if m = ROQR_DELIVERY_DATAGRAM then Mode_Datagram
      else if m = ROQR_DELIVERY_AUTO then Mode_Auto
      else Mode_Stream)"

definition roqr_version :: string where "roqr_version = ''0.1.0''"

text \<open>\<open>create\<close> registers both trampolines; they look at the callbacks when they run.\<close>

definition roqr_client_create :: "bool \<Rightarrow> roqr_client option" where
  "roqr_client_create allocated =
     (if \<not> allocated then None
      else Some \<lparr>rc_client = Client_on_closed True (Client_on_message True Client_new),
                 rc_on_message = None, rc_on_closed = None\<rparr>)"

definition to_c_frame :: "Frame \<Rightarrow> roqr_frame" where
  "to_c_frame f = \<lparr>rf_flow_id = f_flow_id f, rf_timestamp = f_timestamp f, rf_message_type = f_message_type f,
     rf_message_stream_id = f_message_stream_id f, rf_chunk_stream_id = f_chunk_stream_id f,
     rf_payload = Some (f_payload f), rf_payload_len = length (f_payload f)\<rparr>"

definition message_callback :: "roqr_client \<Rightarrow> Frame \<Rightarrow> (callback \<times> roqr_frame) option" where
  "message_callback c f = (case rc_on_message c of None \<Rightarrow> None | Some cb \<Rightarrow> Some (cb, to_c_frame f))"

definition closed_callback :: "roqr_client \<Rightarrow> u64 \<Rightarrow> (callback \<times> u64) option" where
  "closed_callback c code = (case rc_on_closed c of None \<Rightarrow> None | Some cb \<Rightarrow> Some (cb, code))"

text \<open>The client's object is gone after \<open>destroy\<close>; what its destructor did is the result.\<close>

definition roqr_client_destroy :: "roqr_client option \<Rightarrow> Client option" where
  "roqr_client_destroy client = map_option (\<lambda>c. Client_destroy (rc_client c)) client"

definition roqr_client_set_on_message :: "callback option \<Rightarrow> roqr_client option \<Rightarrow> roqr_client option" where
  "roqr_client_set_on_message cb c = (case c of None \<Rightarrow> None | Some c \<Rightarrow> Some (c\<lparr>rc_on_message := cb\<rparr>))"

definition roqr_client_set_on_closed :: "callback option \<Rightarrow> roqr_client option \<Rightarrow> roqr_client option" where
  "roqr_client_set_on_closed cb c = (case c of None \<Rightarrow> None | Some c \<Rightarrow> Some (c\<lparr>rc_on_closed := cb\<rparr>))"

definition roqr_client_connect ::
  "connect_answers \<Rightarrow> string option \<Rightarrow> u16 \<Rightarrow> int \<Rightarrow> roqr_client option \<Rightarrow> roqr_error \<times> roqr_client option" where
  "roqr_client_connect a host port insecure_skip_verify c =
     (case (c, host) of
        (Some rc, Some h) \<Rightarrow>
          (let opts = default_client_options\<lparr>co_insecure_skip_verify := insecure_skip_verify \<noteq> 0\<rparr>
           in case Client_connect a opts (rc_client rc) of
                (ok, cl) \<Rightarrow> (if ok then ROQR_OK else ROQR_ERR_CONNECT_FAILED, Some (rc\<lparr>rc_client := cl\<rparr>)))
      | _ \<Rightarrow> (ROQR_ERR_INVALID_ARG, c))"

definition c_bool :: "bool \<Rightarrow> int" where
  "c_bool b = (if b then 1 else 0)"

definition roqr_client_wait_connected :: "bool \<Rightarrow> roqr_client option \<Rightarrow> int option" where
  "roqr_client_wait_connected timed_out c =
     (case c of None \<Rightarrow> Some 0 | Some c \<Rightarrow> map_option c_bool (Client_wait_connected timed_out (rc_client c)))"

definition roqr_client_datagrams_negotiated :: "roqr_client option \<Rightarrow> int" where
  "roqr_client_datagrams_negotiated c =
     c_bool (case c of None \<Rightarrow> False | Some c \<Rightarrow> Client_datagrams_negotiated (rc_client c))"

text \<open>The frame the library makes of a C frame; None if the payload is shorter than it claims.\<close>

definition from_c_frame :: "roqr_frame \<Rightarrow> Frame option" where
  "from_c_frame frame =
     (case rf_payload frame of
        None \<Rightarrow> None
      | Some memory \<Rightarrow>
          if length memory < rf_payload_len frame then None
          else Some \<lparr>f_flow_id = rf_flow_id frame, f_timestamp = rf_timestamp frame,
                 f_message_type = rf_message_type frame, f_message_stream_id = rf_message_stream_id frame,
                 f_chunk_stream_id = rf_chunk_stream_id frame, f_payload = take (rf_payload_len frame) memory\<rparr>)"

definition roqr_client_send ::
  "roqr_frame option \<Rightarrow> int \<Rightarrow> roqr_client option \<Rightarrow> (roqr_error \<times> roqr_client option) option" where
  "roqr_client_send frame mode c =
     (case (c, frame) of
        (Some rc, Some fr) \<Rightarrow>
          if rf_payload fr = None \<or> rf_payload_len fr = 0 then Some (ROQR_ERR_INVALID_ARG, c)
          else (case from_c_frame fr of
                  None \<Rightarrow> None
                | Some f \<Rightarrow>
                    (case Client_send f (to_cpp_mode mode) (rc_client rc) of
                       (ok, cl) \<Rightarrow> Some (if ok then ROQR_OK else ROQR_ERR_GENERAL, Some (rc\<lparr>rc_client := cl\<rparr>))))
      | _ \<Rightarrow> Some (ROQR_ERR_INVALID_ARG, c))"

definition on_client :: "(Client \<Rightarrow> Client) \<Rightarrow> roqr_client option \<Rightarrow> roqr_client option" where
  "on_client f c = (case c of None \<Rightarrow> None | Some rc \<Rightarrow> Some (rc\<lparr>rc_client := f (rc_client rc)\<rparr>))"

definition roqr_client_bind_flow :: "u64 \<Rightarrow> roqr_client option \<Rightarrow> roqr_client option" where
  "roqr_client_bind_flow flow_id = on_client (Client_bind_flow flow_id)"

definition roqr_client_retire_flow :: "u64 \<Rightarrow> roqr_client option \<Rightarrow> roqr_client option" where
  "roqr_client_retire_flow flow_id = on_client (Client_retire_flow flow_id)"

text \<open>\<^verbatim>\<open>static_cast<ErrorCode>\<close> keeps the value, an enumerator or not.\<close>

definition to_error_code :: "u64 \<Rightarrow> ErrorCode" where
  "to_error_code v =
     (case find (\<lambda>e. error_value e = v) [NoError, GeneralError, InternalError, FrameEncodingError, StreamCreationError,
             FrameCancelled, UnknownFlowId, ExpectationUnmet] of
        Some e \<Rightarrow> e
      | None \<Rightarrow> OtherError v)"

definition roqr_client_close :: "u64 \<Rightarrow> roqr_client option \<Rightarrow> roqr_client option" where
  "roqr_client_close app_error_code = on_client (Client_close (to_error_code app_error_code))"

definition roqr_client_wait_closed :: "bool \<Rightarrow> roqr_client option \<Rightarrow> int option" where
  "roqr_client_wait_closed timed_out c =
     (case c of None \<Rightarrow> Some 0 | Some c \<Rightarrow> map_option c_bool (Client_wait_closed timed_out (rc_client c)))"

section \<open>The gateways\<close>

definition roqr_ingest_create :: "bool \<Rightarrow> IngestGateway option" where
  "roqr_ingest_create allocated = (if allocated then Some IngestGateway_new else None)"

definition roqr_ingest_start ::
  "bool \<Rightarrow> bool \<Rightarrow> bool \<Rightarrow> u16 \<Rightarrow> string option \<Rightarrow> u16 \<Rightarrow> int \<Rightarrow> IngestGateway option
    \<Rightarrow> roqr_error \<times> IngestGateway option" where
  "roqr_ingest_start socket_ok bind_ok listen_ok rtmp_port roqr_host roqr_port insecure_skip_verify ingest =
     (case (ingest, roqr_host) of
        (Some g, Some host) \<Rightarrow>
          (let opts = default_ingest_options\<lparr>io_rtmp_port := rtmp_port, io_roqr_host := host, io_roqr_port := roqr_port,
                 io_insecure_skip_verify := insecure_skip_verify \<noteq> 0\<rparr>
           in case IngestGateway_start opts socket_ok bind_ok listen_ok g of
                (ok, g) \<Rightarrow> (if ok then ROQR_OK else ROQR_ERR_GENERAL, Some g))
      | _ \<Rightarrow> (ROQR_ERR_INVALID_ARG, ingest))"

definition roqr_ingest_wait_publishing :: "bool \<Rightarrow> IngestGateway option \<Rightarrow> int option" where
  "roqr_ingest_wait_publishing timed_out ingest =
     (case ingest of None \<Rightarrow> Some 0 | Some g \<Rightarrow> map_option c_bool (IngestGateway_wait_publishing timed_out g))"

text \<open>One step of \<open>stop\<close>, which may have to wait for other threads.\<close>

definition roqr_ingest_stop :: "IngestGateway option \<Rightarrow> IngestGateway option option" where
  "roqr_ingest_stop ingest =
     (case ingest of None \<Rightarrow> Some None | Some g \<Rightarrow> map_option Some (IngestGateway_stop_at (ig_stop g) g))"

text \<open>Deleting a gateway runs its destructor, which calls \<open>stop\<close>; the object is gone when that has returned.\<close>

definition roqr_ingest_destroy :: "IngestGateway option \<Rightarrow> IngestGateway option option" where
  "roqr_ingest_destroy ingest =
     map_option (\<lambda>i. case i of None \<Rightarrow> None | Some g \<Rightarrow> if ig_stop g = Is_Idle then None else Some g) (roqr_ingest_stop ingest)"

definition roqr_egress_create :: "bool \<Rightarrow> EgressGateway option" where
  "roqr_egress_create allocated = (if allocated then Some EgressGateway_new else None)"

definition roqr_egress_start ::
  "bool \<Rightarrow> bool \<Rightarrow> bool \<Rightarrow> u16 \<Rightarrow> string option \<Rightarrow> u16 \<Rightarrow> string option \<Rightarrow> int \<Rightarrow> EgressGateway option
    \<Rightarrow> roqr_error \<times> EgressGateway option" where
  "roqr_egress_start socket_ok bind_ok listen_ok rtmp_port roqr_host roqr_port stream_name insecure_skip_verify egress =
     (case (egress, roqr_host, stream_name) of
        (Some g, Some host, Some stream) \<Rightarrow>
          (let opts = default_egress_options\<lparr>eo_rtmp_port := rtmp_port, eo_roqr_host := host, eo_roqr_port := roqr_port,
                 eo_stream_name := stream, eo_insecure_skip_verify := insecure_skip_verify \<noteq> 0\<rparr>
           in case EgressGateway_start opts socket_ok bind_ok listen_ok g of
                (ok, g) \<Rightarrow> (if ok then ROQR_OK else ROQR_ERR_GENERAL, Some g))
      | _ \<Rightarrow> (ROQR_ERR_INVALID_ARG, egress))"

definition roqr_egress_wait_playing :: "bool \<Rightarrow> EgressGateway option \<Rightarrow> int option" where
  "roqr_egress_wait_playing timed_out egress =
     (case egress of None \<Rightarrow> Some 0 | Some g \<Rightarrow> map_option c_bool (EgressGateway_wait_playing timed_out g))"

definition roqr_egress_stop :: "EgressGateway option \<Rightarrow> EgressGateway option option" where
  "roqr_egress_stop egress =
     (case egress of None \<Rightarrow> Some None | Some g \<Rightarrow> map_option Some (EgressGateway_stop_at (gw_stop g) g))"

definition roqr_egress_destroy :: "EgressGateway option \<Rightarrow> EgressGateway option option" where
  "roqr_egress_destroy egress =
     map_option (\<lambda>e. case e of None \<Rightarrow> None | Some g \<Rightarrow> if gw_stop g = Es_Idle then None else Some g) (roqr_egress_stop egress)"

section \<open>Properties\<close>

lemma error_value_cast: "error_value (to_error_code v) = v"
  by (simp add: to_error_code_def)

lemma from_to_c_frame: "from_c_frame (to_c_frame f) = Some f"
  by (simp add: from_c_frame_def to_c_frame_def)

lemma c_frame_exact:
  assumes "rf_payload fr = Some memory" "rf_payload_len fr = length memory"
  obtains f where "from_c_frame fr = Some f" "to_c_frame f = fr" "f_payload f = memory"
  using that [of "\<lparr>f_flow_id = rf_flow_id fr, f_timestamp = rf_timestamp fr, f_message_type = rf_message_type fr,
    f_message_stream_id = rf_message_stream_id fr, f_chunk_stream_id = rf_chunk_stream_id fr, f_payload = memory\<rparr>"]
  by (simp add: assms from_c_frame_def to_c_frame_def)

text \<open>
  C30. Sending through the C interface. The call is defined for every argument but a payload that is
  shorter than its claimed length. It reports an invalid argument exactly for a null client, frame
  or payload or an empty payload, and then nothing has changed; otherwise it reports success
  exactly when the client accepts frames, and then one frame was queued, with the fields of the C frame
  and the bytes it points to, for the mode that was asked for; in every other case the client is
  as it was. The callback of a receiving client is given the same C frame.
\<close>

theorem roqr_client_send_exact:
  assumes "pred_option (\<lambda>fr. pred_option (\<lambda>memory. length memory = rf_payload_len fr) (rf_payload fr)) frame"
  shows "\<exists>err c'. roqr_client_send frame mode c = Some (err, c')
    \<and> (err = ROQR_ERR_INVALID_ARG) = (c = None \<or> frame = None \<or> Option.bind frame rf_payload \<in> {None, Some []})
    \<and> (if err = ROQR_OK
       then \<exists>rc fr f. c = Some rc \<and> frame = Some fr \<and> from_c_frame fr = Some f
         \<and> c' = Some (rc\<lparr>rc_client := wake ((rc_client rc)\<lparr>qc_outbound :=
              outbound_push \<lparr>ob_frame = f, ob_mode = to_cpp_mode mode\<rparr> (qc_outbound (rc_client rc))\<rparr>)\<rparr>)
         \<and> (case rc_on_message receiver of
              None \<Rightarrow> message_callback receiver f = None
            | Some cb \<Rightarrow> message_callback receiver f = Some (cb, fr))
       else c' = c \<and> (err = ROQR_ERR_GENERAL \<longrightarrow> pred_option (\<lambda>rc.
              \<not> qc_started (rc_client rc) \<or> qc_closed (rc_client rc) \<or> qc_close_requested (rc_client rc)) c))"
proof (cases "\<exists>rc fr memory. c = Some rc \<and> frame = Some fr \<and> rf_payload fr = Some memory \<and> memory \<noteq> []")
  case True
  then obtain rc fr memory where x: "c = Some rc" "frame = Some fr" "rf_payload fr = Some memory" "memory \<noteq> []" by blast
  then have len: "rf_payload_len fr = length memory" using assms by simp
  from c_frame_exact [OF x(3) len] obtain f
    where f: "from_c_frame fr = Some f" "to_c_frame f = fr" "f_payload f = memory" .
  show ?thesis
    using x len f by (simp add: roqr_client_send_def Client_send_def message_callback_def split: option.split)
next
  case False
  then have "c = None \<or> frame = None \<or> Option.bind frame rf_payload \<in> {None, Some []}"
    by (cases c; cases frame; cases "rf_payload (the frame)") auto
  then show ?thesis
    using assms by (cases c; cases frame) (auto simp: roqr_client_send_def)
qed

text \<open>A started client of a program that is handed back what it sends.\<close>

definition demo_c_client :: roqr_client where
  "demo_c_client = \<lparr>rc_client = Client_new\<lparr>qc_started := True\<rparr>, rc_on_message = Some (7, 8), rc_on_closed = None\<rparr>"

definition demo_c_frame :: roqr_frame where
  "demo_c_frame = \<lparr>rf_flow_id = 0, rf_timestamp = 40, rf_message_type = 9, rf_message_stream_id = 1, rf_chunk_stream_id = 6,
     rf_payload = Some [0x27, 1], rf_payload_len = 2\<rparr>"

theorem roqr_client_send_exact_witness:
  "\<exists>c'. roqr_client_send (Some demo_c_frame) ROQR_DELIVERY_AUTO (Some demo_c_client) = Some (ROQR_OK, c')
    \<and> map_option (\<lambda>rc. oq_items (qc_outbound (rc_client rc))) c' =
        Some [\<lparr>ob_frame = the (from_c_frame demo_c_frame), ob_mode = Mode_Auto\<rparr>]
    \<and> message_callback demo_c_client (the (from_c_frame demo_c_frame)) = Some ((7, 8), demo_c_frame)"
proof -
  have ok: "fst (the (roqr_client_send (Some demo_c_frame) ROQR_DELIVERY_AUTO (Some demo_c_client))) = ROQR_OK"
    by (simp add: roqr_client_send_def from_c_frame_def Client_send_def demo_c_frame_def demo_c_client_def Client_new_def)
  have fields: "rf_payload demo_c_frame = Some [0x27, 1]" "rf_payload_len demo_c_frame = 2"
    "rc_on_message demo_c_client = Some (7, 8)"
    by (simp_all add: demo_c_frame_def demo_c_client_def)
  have pre: "pred_option (\<lambda>fr. pred_option (\<lambda>memory. length memory = rf_payload_len fr) (rf_payload fr)) (Some demo_c_frame)"
    by (simp add: fields)
  obtain err c' where send: "roqr_client_send (Some demo_c_frame) ROQR_DELIVERY_AUTO (Some demo_c_client) = Some (err, c')"
    using roqr_client_send_exact [OF pre] by blast
  with ok have err: "err = ROQR_OK" by simp
  have queued: "\<exists>f. from_c_frame demo_c_frame = Some f
      \<and> c' = Some (demo_c_client\<lparr>rc_client := wake ((rc_client demo_c_client)\<lparr>qc_outbound :=
          outbound_push \<lparr>ob_frame = f, ob_mode = to_cpp_mode ROQR_DELIVERY_AUTO\<rparr> (qc_outbound (rc_client demo_c_client))\<rparr>)\<rparr>)
      \<and> message_callback demo_c_client f = Some ((7, 8), demo_c_frame)"
    using roqr_client_send_exact [OF pre, of ROQR_DELIVERY_AUTO "Some demo_c_client" demo_c_client] send err
    by (auto simp: fields)
  from send err queued show ?thesis
    by (auto simp: demo_c_client_def Client_new_def wake_def outbound_push_def to_cpp_mode_def
        ROQR_DELIVERY_AUTO_def ROQR_DELIVERY_DATAGRAM_def)
qed

end
