(* ===== verification/Jni.thy ===== *)
theory Jni
  imports Ffi "HOL-Library.Multiset"
begin

text \<open>
  The Java binding of \<^verbatim>\<open>jni/src/roqr_jni.cpp\<close>, over the C interface of theory \<open>Ffi\<close>.

  A Java \<^verbatim>\<open>long\<close> or \<^verbatim>\<open>int\<close> is a word of its width, whose signed value Java sees; the casts to
  unsigned types keep or cut bits. A \<^verbatim>\<open>byte[]\<close> is a list of bytes, a \<^verbatim>\<open>String\<close> a string, null is None. A native
  handle is None for 0. Objects of the virtual machine are numbers; its global references are a multiset of
  them, and deleting a reference that is not there is a fault. What \<^verbatim>\<open>GetEnv\<close> and
  \<^verbatim>\<open>AttachCurrentThread\<close> answer are parameters. The classes and methods of the Java side of the binding exist, so
  the method ids, which its classes determine, are left out.
\<close>

section \<open>The virtual machine\<close>

type_synonym jlong = "64 word"
type_synonym jint = "32 word"

datatype get_env = Env_Ok | Env_Detached bool | Env_Error

record Jvm =
  g_vm :: bool                 \<comment> \<open>the library knows the virtual machine\<close>
  vm_globals :: "nat multiset"
  vm_attached :: nat           \<comment> \<open>attaches not undone\<close>
  vm_fault :: bool

definition NewGlobalRef :: "nat \<Rightarrow> Jvm \<Rightarrow> Jvm" where
  "NewGlobalRef obj vm = vm\<lparr>vm_globals := vm_globals vm + {#obj#}\<rparr>"

definition DeleteGlobalRef :: "nat \<Rightarrow> Jvm \<Rightarrow> Jvm" where
  "DeleteGlobalRef obj vm =
     (if obj \<in># vm_globals vm then vm\<lparr>vm_globals := vm_globals vm - {#obj#}\<rparr> else vm\<lparr>vm_fault := True\<rparr>)"

definition JNI_OnLoad :: "Jvm \<Rightarrow> Jvm" where
  "JNI_OnLoad vm = vm\<lparr>g_vm := True\<rparr>"

definition RoqrNative_version :: string where
  "RoqrNative_version = roqr_version"

section \<open>Callbacks\<close>

text \<open>The constructor and the destructor of \<open>AttachedEnv\<close>; is there an environment, and was the thread attached?\<close>

definition AttachedEnv_new :: "get_env \<Rightarrow> Jvm \<Rightarrow> bool \<times> bool \<times> Jvm" where
  "AttachedEnv_new rc vm =
     (if \<not> g_vm vm then (False, False, vm)
      else case rc of
        Env_Ok \<Rightarrow> (True, False, vm)
      | Env_Detached attach_ok \<Rightarrow>
          if attach_ok then (True, True, vm\<lparr>vm_attached := Suc (vm_attached vm)\<rparr>) else (False, False, vm)
      | Env_Error \<Rightarrow> (False, False, vm))"

definition AttachedEnv_delete :: "bool \<Rightarrow> Jvm \<Rightarrow> Jvm" where
  "AttachedEnv_delete attached vm = (if attached then vm\<lparr>vm_attached := vm_attached vm - 1\<rparr> else vm)"

record JniClient =
  jc_handle :: "roqr_client option"
  jc_listener :: "nat option"
  jc_frame_class :: "nat option"

record JFrame =
  jf_flow_id :: jlong
  jf_timestamp :: jlong
  jf_message_type :: jint
  jf_message_stream_id :: jlong
  jf_chunk_stream_id :: jlong
  jf_payload :: bytes

definition new_jframe :: "roqr_frame \<Rightarrow> JFrame option" where
  "new_jframe f =
     (case rf_payload f of
        None \<Rightarrow> None
      | Some memory \<Rightarrow>
          if length memory < rf_payload_len f \<or> 2 ^ 31 \<le> rf_payload_len f then None
          else Some \<lparr>jf_flow_id = rf_flow_id f, jf_timestamp = rf_timestamp f, jf_message_type = ucast (rf_message_type f),
                 jf_message_stream_id = rf_message_stream_id f, jf_chunk_stream_id = rf_chunk_stream_id f,
                 jf_payload = take (rf_payload_len f) memory\<rparr>)"

text \<open>What the listener is called with, if it is. An exception it throws is cleared.\<close>

definition message_trampoline :: "get_env \<Rightarrow> roqr_frame \<Rightarrow> JniClient \<Rightarrow> Jvm \<Rightarrow> (nat \<times> JFrame option) option \<times> Jvm" where
  "message_trampoline rc f jc vm =
     (case jc_listener jc of
        None \<Rightarrow> (None, vm)
      | Some l \<Rightarrow>
          (case AttachedEnv_new rc vm of
             (env, attached, vm) \<Rightarrow>
               (if env then Some (l, new_jframe f) else None, AttachedEnv_delete attached vm)))"

definition closed_trampoline :: "get_env \<Rightarrow> u64 \<Rightarrow> JniClient \<Rightarrow> Jvm \<Rightarrow> (nat \<times> jlong) option \<times> Jvm" where
  "closed_trampoline rc code jc vm =
     (case jc_listener jc of
        None \<Rightarrow> (None, vm)
      | Some l \<Rightarrow>
          (case AttachedEnv_new rc vm of
             (env, attached, vm) \<Rightarrow> (if env then Some (l, code) else None, AttachedEnv_delete attached vm)))"

section \<open>The client\<close>

definition client_nativeCreate :: "bool \<Rightarrow> nat \<Rightarrow> Jvm \<Rightarrow> JniClient \<times> Jvm" where
  "client_nativeCreate allocated frame_class vm =
     (\<lparr>jc_handle = roqr_client_create allocated, jc_listener = None, jc_frame_class = Some frame_class\<rparr>,
      NewGlobalRef frame_class vm)"

text \<open>The trampolines are C functions 1 and 2, with the binding's object as their user data.\<close>

definition client_nativeSetListener ::
  "nat \<Rightarrow> nat option \<Rightarrow> JniClient option \<Rightarrow> Jvm \<Rightarrow> JniClient option \<times> Jvm" where
  "client_nativeSetListener self listener h vm =
     (case h of
        None \<Rightarrow> (None, vm)
      | Some jc \<Rightarrow>
          (case listener of
             None \<Rightarrow>
               (case jc_listener jc of
                  None \<Rightarrow> (h, vm)
                | Some l \<Rightarrow> (Some (jc\<lparr>jc_listener := None\<rparr>), DeleteGlobalRef l vm))
           | Some new \<Rightarrow>
               (let vm = (case jc_listener jc of None \<Rightarrow> vm | Some l \<Rightarrow> DeleteGlobalRef l vm);
                    vm = NewGlobalRef new vm;
                    handle = roqr_client_set_on_message (Some (1, self)) (jc_handle jc);
                    handle = roqr_client_set_on_closed (Some (2, self)) handle
                in (Some (jc\<lparr>jc_listener := Some new, jc_handle := handle\<rparr>), vm))))"

definition client_nativeConnect ::
  "connect_answers \<Rightarrow> string option \<Rightarrow> jint \<Rightarrow> bool \<Rightarrow> JniClient option \<Rightarrow> bool \<times> JniClient option" where
  "client_nativeConnect a host port insecure h =
     (case h of
        None \<Rightarrow> (False, h)
      | Some jc \<Rightarrow>
          if host = None then (False, h)
          else (case roqr_client_connect a host (ucast port) (if insecure then 1 else 0) (jc_handle jc) of
                  (rc, handle) \<Rightarrow> (rc = ROQR_OK, Some (jc\<lparr>jc_handle := handle\<rparr>))))"

definition client_nativeWaitConnected :: "bool \<Rightarrow> JniClient option \<Rightarrow> bool option" where
  "client_nativeWaitConnected timed_out h =
     (case h of None \<Rightarrow> Some False | Some jc \<Rightarrow> map_option (\<lambda>r. r \<noteq> 0) (roqr_client_wait_connected timed_out (jc_handle jc)))"

definition client_nativeDatagramsNegotiated :: "JniClient option \<Rightarrow> bool" where
  "client_nativeDatagramsNegotiated h =
     (case h of None \<Rightarrow> False | Some jc \<Rightarrow> roqr_client_datagrams_negotiated (jc_handle jc) \<noteq> 0)"

text \<open>The data pointer of an empty vector may be null.\<close>

definition client_nativeSend ::
  "bool \<Rightarrow> jlong \<Rightarrow> jlong \<Rightarrow> jint \<Rightarrow> jlong \<Rightarrow> jlong \<Rightarrow> bytes option \<Rightarrow> jint \<Rightarrow> JniClient option
    \<Rightarrow> (bool \<times> JniClient option) option" where
  "client_nativeSend empty_data_null flow_id ts type msid csid payload mode h =
     (case (h, payload) of
        (Some jc, Some bytes) \<Rightarrow>
          (let f = \<lparr>rf_flow_id = flow_id, rf_timestamp = ts, rf_message_type = ucast type,
                    rf_message_stream_id = msid, rf_chunk_stream_id = csid,
                    rf_payload = (if bytes = [] \<and> empty_data_null then None else Some bytes),
                    rf_payload_len = length bytes\<rparr>
           in map_option (\<lambda>(rc, handle). (rc = ROQR_OK, Some (jc\<lparr>jc_handle := handle\<rparr>)))
                (roqr_client_send (Some f) (sint mode) (jc_handle jc)))
      | _ \<Rightarrow> Some (False, h))"

definition on_handle :: "(roqr_client option \<Rightarrow> roqr_client option) \<Rightarrow> JniClient option \<Rightarrow> JniClient option" where
  "on_handle f h = map_option (\<lambda>jc. jc\<lparr>jc_handle := f (jc_handle jc)\<rparr>) h"

definition client_nativeBindFlow :: "jlong \<Rightarrow> JniClient option \<Rightarrow> JniClient option" where
  "client_nativeBindFlow flow_id = on_handle (roqr_client_bind_flow flow_id)"

definition client_nativeRetireFlow :: "jlong \<Rightarrow> JniClient option \<Rightarrow> JniClient option" where
  "client_nativeRetireFlow flow_id = on_handle (roqr_client_retire_flow flow_id)"

definition client_nativeClose :: "jlong \<Rightarrow> JniClient option \<Rightarrow> JniClient option" where
  "client_nativeClose code = on_handle (roqr_client_close code)"

definition client_nativeWaitClosed :: "bool \<Rightarrow> JniClient option \<Rightarrow> bool option" where
  "client_nativeWaitClosed timed_out h =
     (case h of None \<Rightarrow> Some False | Some jc \<Rightarrow> map_option (\<lambda>r. r \<noteq> 0) (roqr_client_wait_closed timed_out (jc_handle jc)))"

definition client_nativeDestroy :: "JniClient option \<Rightarrow> Jvm \<Rightarrow> Client option \<times> Jvm" where
  "client_nativeDestroy h vm =
     (case h of
        None \<Rightarrow> (None, vm)
      | Some jc \<Rightarrow>
          (let cl = roqr_client_destroy (jc_handle jc);
               vm = (case jc_listener jc of None \<Rightarrow> vm | Some l \<Rightarrow> DeleteGlobalRef l vm);
               vm = (case jc_frame_class jc of None \<Rightarrow> vm | Some c \<Rightarrow> DeleteGlobalRef c vm)
           in (cl, vm)))"

section \<open>The gateways\<close>

definition ingest_nativeCreate :: "bool \<Rightarrow> IngestGateway option" where
  "ingest_nativeCreate allocated = roqr_ingest_create allocated"

definition ingest_nativeStart ::
  "bool \<Rightarrow> bool \<Rightarrow> bool \<Rightarrow> jint \<Rightarrow> string option \<Rightarrow> jint \<Rightarrow> bool \<Rightarrow> IngestGateway option
    \<Rightarrow> bool \<times> IngestGateway option" where
  "ingest_nativeStart socket_ok bind_ok listen_ok rtmp_port host roqr_port insecure h =
     (if host = None then (False, h)
      else case roqr_ingest_start socket_ok bind_ok listen_ok (ucast rtmp_port) host (ucast roqr_port)
                  (if insecure then 1 else 0) h of
        (rc, h) \<Rightarrow> (rc = ROQR_OK, h))"

definition ingest_nativeWaitPublishing :: "bool \<Rightarrow> IngestGateway option \<Rightarrow> bool option" where
  "ingest_nativeWaitPublishing timed_out h = map_option (\<lambda>r. r \<noteq> 0) (roqr_ingest_wait_publishing timed_out h)"

definition ingest_nativeStop :: "IngestGateway option \<Rightarrow> IngestGateway option option" where
  "ingest_nativeStop h = roqr_ingest_stop h"

definition ingest_nativeDestroy :: "IngestGateway option \<Rightarrow> IngestGateway option option" where
  "ingest_nativeDestroy h = roqr_ingest_destroy h"

definition egress_nativeCreate :: "bool \<Rightarrow> EgressGateway option" where
  "egress_nativeCreate allocated = roqr_egress_create allocated"

definition egress_nativeStart ::
  "bool \<Rightarrow> bool \<Rightarrow> bool \<Rightarrow> jint \<Rightarrow> string option \<Rightarrow> jint \<Rightarrow> string option \<Rightarrow> bool \<Rightarrow> EgressGateway option
    \<Rightarrow> bool \<times> EgressGateway option" where
  "egress_nativeStart socket_ok bind_ok listen_ok rtmp_port host roqr_port stream insecure h =
     (if host = None \<or> stream = None then (False, h)
      else case roqr_egress_start socket_ok bind_ok listen_ok (ucast rtmp_port) host (ucast roqr_port) stream
                  (if insecure then 1 else 0) h of
        (rc, h) \<Rightarrow> (rc = ROQR_OK, h))"

definition egress_nativeWaitPlaying :: "bool \<Rightarrow> EgressGateway option \<Rightarrow> bool option" where
  "egress_nativeWaitPlaying timed_out h = map_option (\<lambda>r. r \<noteq> 0) (roqr_egress_wait_playing timed_out h)"

definition egress_nativeStop :: "EgressGateway option \<Rightarrow> EgressGateway option option" where
  "egress_nativeStop h = roqr_egress_stop h"

definition egress_nativeDestroy :: "EgressGateway option \<Rightarrow> EgressGateway option option" where
  "egress_nativeDestroy h = roqr_egress_destroy h"

section \<open>The life of a binding\<close>

text \<open>What can happen between \<open>nativeCreate\<close> and \<open>nativeDestroy\<close>; the other native methods do not touch references.\<close>

datatype jni_call =
    Jni_Set_Listener "nat option"
  | Jni_Message get_env roqr_frame
  | Jni_Closed get_env u64
  | Jni_Send jlong jlong jint jlong jlong "bytes option" jint
  | Jni_Bind_Flow jlong
  | Jni_Retire_Flow jlong
  | Jni_Close jlong

fun jni_do :: "nat \<Rightarrow> jni_call \<Rightarrow> JniClient option \<times> Jvm \<Rightarrow> JniClient option \<times> Jvm" where
  "jni_do self (Jni_Set_Listener l) (h, vm) = client_nativeSetListener self l h vm"
| "jni_do self (Jni_Message rc f) (h, vm) =
     (h, case h of None \<Rightarrow> vm | Some jc \<Rightarrow> snd (message_trampoline rc f jc vm))"
| "jni_do self (Jni_Closed rc code) (h, vm) =
     (h, case h of None \<Rightarrow> vm | Some jc \<Rightarrow> snd (closed_trampoline rc code jc vm))"
| "jni_do self (Jni_Send flow_id ts type msid csid payload mode) (h, vm) =
     (case client_nativeSend False flow_id ts type msid csid payload mode h of
        None \<Rightarrow> (h, vm) | Some (_, h') \<Rightarrow> (h', vm))"
| "jni_do self (Jni_Bind_Flow flow_id) (h, vm) = (client_nativeBindFlow flow_id h, vm)"
| "jni_do self (Jni_Retire_Flow flow_id) (h, vm) = (client_nativeRetireFlow flow_id h, vm)"
| "jni_do self (Jni_Close code) (h, vm) = (client_nativeClose code h, vm)"

fun last_listener :: "jni_call list \<Rightarrow> nat option" where
  "last_listener [] = None"
| "last_listener (Jni_Set_Listener l # calls) =
     (if \<exists>l'. Jni_Set_Listener l' \<in> set calls then last_listener calls else l)"
| "last_listener (_ # calls) = last_listener calls"

section \<open>Properties\<close>

text \<open>The references a binding owns: its frame class and its listener, over those the machine had before.\<close>

definition jni_owns :: "nat \<Rightarrow> Jvm \<Rightarrow> nat option \<Rightarrow> JniClient option \<times> Jvm \<Rightarrow> bool" where
  "jni_owns cls vm0 listener s \<longleftrightarrow>
     (case s of (h, vm) \<Rightarrow>
        (\<exists>jc. h = Some jc \<and> jc_frame_class jc = Some cls \<and> jc_listener jc = listener)
        \<and> vm = vm0\<lparr>vm_globals := vm_globals vm0 + {#cls#} + mset_set (set_option listener)\<rparr>)"

lemmas ref_defs = jni_owns_def NewGlobalRef_def DeleteGlobalRef_def

lemma attached_env_restores:
  "AttachedEnv_new rc vm = (env, attached, vm') \<Longrightarrow>
     AttachedEnv_delete attached vm' = vm \<and> env = (g_vm vm \<and> rc \<noteq> Env_Error \<and> rc \<noteq> Env_Detached False)"
  by (auto simp: AttachedEnv_new_def AttachedEnv_delete_def split: if_splits get_env.splits)

lemma message_trampoline_eq:
  "message_trampoline rc f jc vm =
     (if g_vm vm \<and> rc \<noteq> Env_Error \<and> rc \<noteq> Env_Detached False then map_option (\<lambda>l. (l, new_jframe f)) (jc_listener jc) else None, vm)"
  by (cases "AttachedEnv_new rc vm") (auto simp: message_trampoline_def dest!: attached_env_restores split: option.split)

lemma closed_trampoline_vm: "snd (closed_trampoline rc code jc vm) = vm"
  by (cases "AttachedEnv_new rc vm") (auto simp: closed_trampoline_def dest!: attached_env_restores split: option.split)

lemma jni_send_keeps:
  assumes "client_nativeSend n flow_id ts type msid csid payload mode (Some jc) = Some (ok, h')"
  shows "\<exists>handle. h' = Some (jc\<lparr>jc_handle := handle\<rparr>)"
proof -
  have "\<exists>handle. jc = jc\<lparr>jc_handle := handle\<rparr>" by (rule exI [of _ "jc_handle jc"]) simp
  with assms show ?thesis
    by (auto simp: client_nativeSend_def Let_def split: option.splits)
qed

lemma set_listener_owns:
  "jni_owns cls vm0 old (h, vm) \<Longrightarrow> jni_owns cls vm0 l (client_nativeSetListener self l h vm)"
  by (cases l; cases old) (auto simp: ref_defs client_nativeSetListener_def Let_def)

lemma jni_do_owns:
  assumes "jni_owns cls vm0 old s"
  shows "jni_owns cls vm0 (case call of Jni_Set_Listener l \<Rightarrow> l | _ \<Rightarrow> old) (jni_do self call s)"
proof -
  obtain h vm where s: "s = (h, vm)" by (cases s)
  with assms obtain jc where h: "h = Some jc" by (auto simp: jni_owns_def)
  show ?thesis
  proof (cases call)
    case (Jni_Set_Listener l)
    then show ?thesis using assms by (simp add: s set_listener_owns)
  next
    case (Jni_Send flow_id ts type msid csid payload mode)
    then show ?thesis using assms
      by (auto simp: s h jni_owns_def dest!: jni_send_keeps split: option.split)
  qed (use assms in \<open>auto simp: s h jni_owns_def message_trampoline_eq closed_trampoline_vm
      client_nativeBindFlow_def client_nativeRetireFlow_def client_nativeClose_def on_handle_def\<close>)
qed

lemma jni_calls_own:
  assumes "jni_owns cls vm0 old s"
  shows "jni_owns cls vm0 (if \<exists>l. Jni_Set_Listener l \<in> set calls then last_listener calls else old)
    (fold (jni_do self) calls s)"
  using assms
proof (induction calls arbitrary: s old)
  case Nil
  then show ?case by simp
next
  case (Cons call calls)
  show ?case using Cons.IH [OF jni_do_owns [OF Cons.prems, of call self]]
    by (cases call) (auto split: if_splits)
qed


lemma jframe_type_cast:
  assumes "type < 256"
  shows "ucast (ucast type :: byte) = (type :: jint)"
proof -
  have "uint type < 256" using assms by (simp add: word_less_def)
  then have "uint (ucast (ucast type :: byte) :: jint) = uint type"
    by (simp add: unsigned_ucast_eq unsigned_take_bit_eq take_bit_int_eq_self)
  then show ?thesis by (simp add: word_uint_eq_iff)
qed


definition demo_jframe :: JFrame where
  "demo_jframe = \<lparr>jf_flow_id = 3, jf_timestamp = 40, jf_message_type = 200, jf_message_stream_id = - 1,
     jf_chunk_stream_id = 6, jf_payload = [0x27, 1]\<rparr>"

definition demo_binding :: JniClient where
  "demo_binding = \<lparr>jc_handle = Some demo_c_client, jc_listener = Some 11, jc_frame_class = Some 12\<rparr>"


end
