(* ===== verification/Media_Router.thy ===== *)
theory Media_Router
  imports Interfaces
begin

text \<open>
  \<^verbatim>\<open>tools/relayd/src/media_router.cpp\<close>: which connection publishes which stream, who subscribed to it,
  and the init frames to replay to a late subscriber. A connection pointer is a number, the null
  pointer None. \<open>init_frames\<close> uses \<^verbatim>\<open>std::map::at\<close>, which throws for a missing key: then it is None.
\<close>

section \<open>The code\<close>

type_synonym conn = nat

record Stream =
  st_publisher :: "conn option"
  st_subscribers :: "conn list"
  st_init_types :: "byte list"
  st_init :: "byte \<rightharpoonup> bytes"

definition Stream_new :: Stream where
  "Stream_new = \<lparr>st_publisher = None, st_subscribers = [], st_init_types = [], st_init = Map.empty\<rparr>"

record MediaRouter =
  mr_streams :: "string \<rightharpoonup> Stream"
  mr_conn_stream :: "conn \<rightharpoonup> string"

definition MediaRouter_new :: MediaRouter where
  "MediaRouter_new = \<lparr>mr_streams = Map.empty, mr_conn_stream = Map.empty\<rparr>"

text \<open>\<^verbatim>\<open>streams_[name]\<close>, which inserts an empty stream if there is none.\<close>

definition stream_at :: "string \<Rightarrow> MediaRouter \<Rightarrow> Stream" where
  "stream_at name r = (case mr_streams r name of None \<Rightarrow> Stream_new | Some s \<Rightarrow> s)"

definition register_publisher :: "conn \<Rightarrow> string \<Rightarrow> MediaRouter \<Rightarrow> MediaRouter" where
  "register_publisher conn name r =
     r\<lparr>mr_streams := (mr_streams r)(name \<mapsto> (stream_at name r)\<lparr>st_publisher := Some conn\<rparr>),
       mr_conn_stream := (mr_conn_stream r)(conn \<mapsto> name)\<rparr>"

definition register_subscriber :: "conn \<Rightarrow> string \<Rightarrow> MediaRouter \<Rightarrow> MediaRouter" where
  "register_subscriber conn name r =
     (let s = stream_at name r;
          s = (if conn \<in> set (st_subscribers s) then s else s\<lparr>st_subscribers := st_subscribers s @ [conn]\<rparr>)
      in r\<lparr>mr_streams := (mr_streams r)(name \<mapsto> s), mr_conn_stream := (mr_conn_stream r)(conn \<mapsto> name)\<rparr>)"

definition subscribers_for_publisher :: "conn \<Rightarrow> MediaRouter \<Rightarrow> conn list" where
  "subscribers_for_publisher conn r =
     (case mr_conn_stream r conn of
        None \<Rightarrow> []
      | Some name \<Rightarrow>
          (case mr_streams r name of
             None \<Rightarrow> []
           | Some s \<Rightarrow> if st_publisher s \<noteq> Some conn then [] else st_subscribers s))"

definition is_publisher :: "conn \<Rightarrow> MediaRouter \<Rightarrow> bool" where
  "is_publisher conn r =
     (case mr_conn_stream r conn of
        None \<Rightarrow> False
      | Some name \<Rightarrow> (case mr_streams r name of None \<Rightarrow> False | Some s \<Rightarrow> st_publisher s = Some conn))"

definition stream_cache :: "byte \<Rightarrow> bytes \<Rightarrow> Stream \<Rightarrow> Stream" where
  "stream_cache message_type frame_bytes s =
     (let s = (if st_init s message_type = None then s\<lparr>st_init_types := st_init_types s @ [message_type]\<rparr> else s)
      in s\<lparr>st_init := (st_init s)(message_type \<mapsto> frame_bytes)\<rparr>)"

definition cache_init :: "string \<Rightarrow> byte \<Rightarrow> bytes \<Rightarrow> MediaRouter \<Rightarrow> MediaRouter" where
  "cache_init name message_type frame_bytes r =
     r\<lparr>mr_streams := (mr_streams r)(name \<mapsto> stream_cache message_type frame_bytes (stream_at name r))\<rparr>"

definition init_frames :: "string \<Rightarrow> MediaRouter \<Rightarrow> bytes list option" where
  "init_frames name r =
     (case mr_streams r name of
        None \<Rightarrow> Some []
      | Some s \<Rightarrow> those (map (st_init s) (st_init_types s)))"

definition router_remove :: "conn \<Rightarrow> MediaRouter \<Rightarrow> MediaRouter" where
  "router_remove conn r =
     (case mr_conn_stream r conn of
        None \<Rightarrow> r
      | Some name \<Rightarrow>
          (let r = (case mr_streams r name of
                      None \<Rightarrow> r
                    | Some s \<Rightarrow>
                        (let s = (if st_publisher s = Some conn then s\<lparr>st_publisher := None\<rparr> else s);
                             s = s\<lparr>st_subscribers := filter (\<lambda>c. c \<noteq> conn) (st_subscribers s)\<rparr>
                         in r\<lparr>mr_streams := (mr_streams r)(name \<mapsto> s)\<rparr>))
           in r\<lparr>mr_conn_stream := (mr_conn_stream r)(conn := None)\<rparr>))"

definition stream_of :: "conn \<Rightarrow> MediaRouter \<Rightarrow> string" where
  "stream_of conn r = (case mr_conn_stream r conn of None \<Rightarrow> '''' | Some name \<Rightarrow> name)"

lemmas router_ops = register_publisher_def register_subscriber_def cache_init_def router_remove_def

section \<open>Histories\<close>

datatype router_call = Publisher conn string | Subscriber conn string | Cache string byte bytes | Remove conn

fun run_router_call :: "router_call \<Rightarrow> MediaRouter \<Rightarrow> MediaRouter" where
  "run_router_call (Publisher c n) r = register_publisher c n r"
| "run_router_call (Subscriber c n) r = register_subscriber c n r"
| "run_router_call (Cache n ty bs) r = cache_init n ty bs r"
| "run_router_call (Remove c) r = router_remove c r"

fun cached_for :: "string \<Rightarrow> router_call list \<Rightarrow> (byte \<times> bytes) list" where
  "cached_for name [] = []"
| "cached_for name (Cache n ty bs # calls) = (if n = name then [(ty, bs)] else []) @ cached_for name calls"
| "cached_for name (c # calls) = cached_for name calls"

lemma cached_for_snoc:
  "cached_for name (calls @ [c]) =
     cached_for name calls @ (case c of Cache n ty bs \<Rightarrow> if n = name then [(ty, bs)] else [] | _ \<Rightarrow> [])"
  by (induction name calls rule: cached_for.induct) (cases c; simp)+

interpretation init_cache: ordered_cache stream_cache st_init_types st_init
  by unfold_locales (simp_all add: stream_cache_def Let_def)

lemma holds_init_fields [simp]:
  "init_cache.holds h (s\<lparr>st_publisher := x\<rparr>) = init_cache.holds h s"
  "init_cache.holds h (s\<lparr>st_subscribers := y\<rparr>) = init_cache.holds h s"
  by (simp_all add: init_cache.holds_def)

lemma stream_at_simps:
  "stream_at n (r\<lparr>mr_conn_stream := cs\<rparr>) = stream_at n r"
  "stream_at n (r\<lparr>mr_streams := (mr_streams r)(m \<mapsto> s)\<rparr>) = (if n = m then s else stream_at n r)"
  "stream_at n (r\<lparr>mr_streams := (mr_streams r)(m \<mapsto> s), mr_conn_stream := cs\<rparr>) = (if n = m then s else stream_at n r)"
  by (simp_all add: stream_at_def)

lemma router_holds:
  "init_cache.holds (cached_for name calls) (stream_at name (fold run_router_call calls MediaRouter_new))"
proof (induction calls rule: rev_induct)
  case Nil
  show ?case by (simp add: init_cache.holds_def stream_at_def MediaRouter_new_def Stream_new_def)
next
  case (snoc c calls)
  then show ?case
  proof (cases c)
    case (Cache n ty bs)
    with snoc show ?thesis
      by (auto simp: cached_for_snoc cache_init_def stream_at_simps init_cache.holds_put)
  next
    case (Remove c)
    with snoc show ?thesis
      by (auto simp: cached_for_snoc router_remove_def stream_at_def Let_def split: option.splits)
  qed (auto simp: cached_for_snoc router_ops stream_at_simps Let_def)
qed

section \<open>Registrations\<close>

fun registers :: "router_call \<Rightarrow> (conn \<times> string) option" where
  "registers (Publisher c n) = Some (c, n)"
| "registers (Subscriber c n) = Some (c, n)"
| "registers _ = None"

definition in_stream :: "conn \<Rightarrow> Stream \<Rightarrow> bool" where
  "in_stream c s \<longleftrightarrow> st_publisher s = Some c \<or> c \<in> set (st_subscribers s)"

lemma in_stream_simps [simp]:
  "\<not> in_stream c Stream_new"
  "in_stream c (stream_cache ty bs s) = in_stream c s"
  by (simp_all add: in_stream_def Stream_new_def stream_cache_def Let_def)

text \<open>Connection \<open>c\<close> only ever registered for the stream \<open>n\<close>.\<close>

definition only_at :: "conn \<Rightarrow> string \<Rightarrow> MediaRouter \<Rightarrow> bool" where
  "only_at c n r \<longleftrightarrow>
     (\<forall>m. in_stream c (stream_at m r) \<longrightarrow> m = n \<and> mr_conn_stream r c = Some n)
     \<and> mr_conn_stream r c \<in> {None, Some n}
     \<and> ran (mr_conn_stream r) \<subseteq> dom (mr_streams r)"

lemma remove_effect:
  assumes "ran (mr_conn_stream r) \<subseteq> dom (mr_streams r)"
  shows "in_stream c (stream_at k (router_remove d r)) =
      (in_stream c (stream_at k r) \<and> \<not> (c = d \<and> mr_conn_stream r d = Some k))"
    and "mr_conn_stream (router_remove d r) = (mr_conn_stream r)(d := None)"
    and "dom (mr_streams (router_remove d r)) = dom (mr_streams r)"
proof -
  consider "mr_conn_stream r d = None" | m s where "mr_conn_stream r d = Some m" "mr_streams r m = Some s"
    using assms by (cases "mr_conn_stream r d") (auto simp: ran_def)
  then show "in_stream c (stream_at k (router_remove d r)) =
      (in_stream c (stream_at k r) \<and> \<not> (c = d \<and> mr_conn_stream r d = Some k))"
    "mr_conn_stream (router_remove d r) = (mr_conn_stream r)(d := None)"
    "dom (mr_streams (router_remove d r)) = dom (mr_streams r)"
    by (cases; auto simp: router_remove_def stream_at_def in_stream_def Let_def fun_upd_idem)+
qed

lemma register_effect:
  assumes "\<And>d. call \<noteq> Remove d"
  shows "in_stream c (stream_at k (run_router_call call r)) \<Longrightarrow>
      in_stream c (stream_at k r) \<or> registers call = Some (c, k)"
    and "mr_conn_stream (run_router_call call r) =
      (case registers call of None \<Rightarrow> mr_conn_stream r | Some (d, m) \<Rightarrow> (mr_conn_stream r)(d \<mapsto> m))"
    and "dom (mr_streams r) \<subseteq> dom (mr_streams (run_router_call call r))"
    and "registers call = Some (d, m) \<Longrightarrow> m \<in> dom (mr_streams (run_router_call call r))"
  using assms
  by (cases call; auto simp: router_ops stream_at_simps in_stream_def stream_cache_def Let_def split: if_splits)+

lemma only_at_call:
  assumes "only_at c n r" and new: "\<And>m. registers call = Some (c, m) \<Longrightarrow> m = n"
  shows "only_at c n (run_router_call call r)"
proof -
  have ran: "ran (mr_conn_stream r) \<subseteq> dom (mr_streams r)" using assms by (simp add: only_at_def)
  consider d where "call = Remove d" | "\<And>d. call \<noteq> Remove d" by blast
  then show ?thesis
  proof cases
    case (1 d)
    have "ran ((mr_conn_stream r)(d := None)) \<subseteq> ran (mr_conn_stream r)" by (auto simp: ran_def)
    with ran have "ran ((mr_conn_stream r)(d := None)) \<subseteq> dom (mr_streams r)" by blast
    with 1 assms(1) show ?thesis
      by (auto simp: only_at_def remove_effect [OF ran])
  next
    case 2
    note e = register_effect [OF 2]
    have "ran (mr_conn_stream (run_router_call call r)) \<subseteq> dom (mr_streams (run_router_call call r))"
    proof
      fix m
      assume "m \<in> ran (mr_conn_stream (run_router_call call r))"
      then obtain d where "mr_conn_stream (run_router_call call r) d = Some m" by (auto simp: ran_def)
      then have "registers call = Some (d, m) \<or> mr_conn_stream r d = Some m"
        unfolding e(2) by (auto split: option.splits prod.splits if_splits)
      then show "m \<in> dom (mr_streams (run_router_call call r))"
        using e(3) [of r] e(4) [of d m r] ran ranI [of "mr_conn_stream r" d m] by blast
    qed
    moreover have "mr_conn_stream (run_router_call call r) c \<in> {None, Some n}"
      using assms(1) new unfolding e(2) by (auto simp: only_at_def split: option.split prod.split)
    moreover have "mr_conn_stream (run_router_call call r) c = Some n"
      if "mr_conn_stream r c = Some n \<or> registers call = Some (c, n)"
      using that new unfolding e(2) by (auto split: option.split prod.split)
    moreover have "m = n \<and> (mr_conn_stream r c = Some n \<or> registers call = Some (c, n))"
      if "in_stream c (stream_at m (run_router_call call r))" for m
      using e(1) [OF that] assms(1) new by (auto simp: only_at_def)
    ultimately show ?thesis unfolding only_at_def by blast
  qed
qed

lemma only_at_calls:
  assumes "list_all (\<lambda>call. case registers call of Some (d, m) \<Rightarrow> (if d = c then m = n else True) | None \<Rightarrow> True) calls"
  shows "only_at c n (fold run_router_call calls MediaRouter_new)"
  using assms
proof (induction calls rule: rev_induct)
  case Nil
  show ?case by (simp add: only_at_def MediaRouter_new_def stream_at_def)
next
  case (snoc call calls)
  then show ?case by (auto intro!: only_at_call)
qed

lemma removed_gone:
  assumes "only_at c n r"
  shows "\<not> in_stream c (stream_at m (router_remove c r)) \<and> mr_conn_stream (router_remove c r) c = None"
  using assms by (auto simp: only_at_def remove_effect)

lemma subscribers_in:
  "c \<in> set (subscribers_for_publisher d r) \<Longrightarrow> \<exists>k s. mr_streams r k = Some s \<and> c \<in> set (st_subscribers s)"
  by (cases "mr_conn_stream r d"; cases "mr_streams r (the (mr_conn_stream r d))")
    (auto simp: subscribers_for_publisher_def split: if_splits)

lemma router_replay:
  "init_frames name (fold run_router_call calls MediaRouter_new) = Some (latest_values (cached_for name calls))"
proof -
  let ?r = "fold run_router_call calls MediaRouter_new"
  have "those (map (st_init (stream_at name ?r)) (st_init_types (stream_at name ?r)))
      = Some (latest_values (cached_for name calls))"
    by (rule init_cache.replay [OF router_holds])
  then show ?thesis
    by (cases "mr_streams ?r name") (simp_all add: init_frames_def stream_at_def Stream_new_def)
qed

section \<open>Properties\<close>

text \<open>
  C35. Whatever registrations, removals and cache updates happened before, replaying the init
  frames of a stream never fails on a missing entry and yields, for every message type that was
  ever cached for it, the frame cached last, in the order in which the types first came.
\<close>

theorem router_init_replay:
  "init_frames name (fold run_router_call calls MediaRouter_new) = Some (latest_values (cached_for name calls))"
  by (rule router_replay)

text \<open>
  A connection that only ever registered under one stream name is forgotten completely when
  it is removed: it publishes nothing, subscribes to nothing, and is not among the subscribers of
  any publisher, so a later connection at the same address inherits no routing.
\<close>

lemma router_remove_complete:
  assumes "list_all (\<lambda>call. case registers call of Some (d, m) \<Rightarrow> (if d = c then m = n else True) | None \<Rightarrow> True) calls"
  shows "let r = fold run_router_call (calls @ [Remove c]) MediaRouter_new
    in \<not> is_publisher c r \<and> stream_of c r = '''' \<and> c \<notin> set (subscribers_for_publisher d r)
       \<and> \<not> in_stream c (stream_at m r)"
proof -
  let ?r = "fold run_router_call (calls @ [Remove c]) MediaRouter_new"
  have gone: "\<not> in_stream c (stream_at m ?r) \<and> mr_conn_stream ?r c = None" for m
    using removed_gone [OF only_at_calls [OF assms]] by simp
  moreover have "c \<notin> set (subscribers_for_publisher d ?r)"
  proof
    assume "c \<in> set (subscribers_for_publisher d ?r)"
    then obtain k s where "mr_streams ?r k = Some s" "c \<in> set (st_subscribers s)"
      using subscribers_in by blast
    then have "in_stream c (stream_at k ?r)" by (simp add: in_stream_def stream_at_def)
    with gone show False by blast
  qed
  ultimately show ?thesis by (simp add: Let_def is_publisher_def stream_of_def)
qed

text \<open>
  The condition is needed: a connection that subscribed to two streams stays a subscriber of the
  first one after it was removed.
\<close>

lemma router_remove_stale:
  "subscribers_for_publisher 2 (fold run_router_call
     [Subscriber 1 ''a'', Subscriber 1 ''b'', Remove 1, Publisher 2 ''a''] MediaRouter_new) = [1]"
  by (simp add: router_ops stream_at_def Stream_new_def MediaRouter_new_def subscribers_for_publisher_def Let_def)

end
