(* ===== verification/Relay_Server.thy ===== *)
theory Relay_Server
  imports Media_Router Client Bridge Rtmp_Commands Classify
begin

text \<open>
  \<^verbatim>\<open>tools/relayd/src/server.cpp\<close>: the reference server in its three modes.

  All of its state is touched on picoquic's network thread only, so every callback is one step.
  \<^verbatim>\<open>std::map<picoquic_cnx_t*, Conn>\<close> is iterated in the order of its keys: it is an association list
  sorted by connection. The calls on picoquic are appended to \<open>rs_log\<close>; the id of the \<open>k\<close>-th stream
  the server opens towards a connection is the parameter \<open>next\<close>. An exception leaving a callback
  would end the process: \<open>rs_aborted\<close>. The events are those of theory \<open>Client\<close>.
\<close>

section \<open>The code\<close>

datatype Mode = Echo | Relay | Media

datatype relay_effect =
    Rel_Stream conn u64 bytes      \<comment> \<open>\<^verbatim>\<open>picoquic_add_to_stream\<close>\<close>
  | Rel_Datagram conn bytes        \<comment> \<open>\<^verbatim>\<open>picoquic_queue_datagram_frame\<close>\<close>
  | Rel_Close conn u64             \<comment> \<open>\<^verbatim>\<open>picoquic_close\<close>\<close>

record Conn =
  cn_decoders :: "u64 \<rightharpoonup> FrameDecoder"
  cn_relay_streams :: "conn \<times> u64 \<rightharpoonup> u64"
  cn_opened :: nat

definition Conn_new :: Conn where
  "Conn_new = \<lparr>cn_decoders = Map.empty, cn_relay_streams = Map.empty, cn_opened = 0\<rparr>"

record ServerOptions =
  so_mode :: Mode
  so_close_after_ready :: bool

record Server =
  rs_options :: ServerOptions
  rs_quic :: bool
  rs_thread_ctx :: bool
  rs_running :: bool
  rs_router :: MediaRouter
  rs_conns :: "(conn \<times> Conn) list"
  rs_log :: "relay_effect list"
  rs_aborted :: bool

definition Server_new :: Server where
  "Server_new = \<lparr>rs_options = \<lparr>so_mode = Echo, so_close_after_ready = False\<rparr>, rs_quic = False, rs_thread_ctx = False,
     rs_running = False, rs_router = MediaRouter_new, rs_conns = [], rs_log = [], rs_aborted = False\<rparr>"

definition rs_emit :: "relay_effect list \<Rightarrow> Server \<Rightarrow> Server" where
  "rs_emit es s = s\<lparr>rs_log := rs_log s @ es\<rparr>"

definition conns_emplace :: "conn \<Rightarrow> (conn \<times> Conn) list \<Rightarrow> (conn \<times> Conn) list" where
  "conns_emplace cnx l = (if cnx \<in> fst ` set l then l else insort_key fst (cnx, Conn_new) l)"

definition conns_update :: "conn \<Rightarrow> (Conn \<Rightarrow> Conn) \<Rightarrow> (conn \<times> Conn) list \<Rightarrow> (conn \<times> Conn) list" where
  "conns_update cnx g l = map (\<lambda>(k, c). (k, if k = cnx then g c else c)) l"

definition command_stream_name :: "Command \<Rightarrow> string" where
  "command_stream_name cmd =
     (case filter (\<lambda>a. case a of Amf_String s \<Rightarrow> True | _ \<Rightarrow> False) (cmd_args cmd) of
        Amf_String s # _ \<Rightarrow> s
      | _ \<Rightarrow> '''')"

definition is_init_frame :: "RtmpMessage \<Rightarrow> bool" where
  "is_init_frame msg =
     (if m_type msg = kTypeDataAmf0 \<or> m_type msg = 15 then True
      else if m_type msg = kTypeAudio \<or> m_type msg = kTypeVideo then
        (case (if m_type msg = kTypeVideo then classify_video (m_payload msg) else classify_audio (m_payload msg)) of
           None \<Rightarrow> False
         | Some info \<Rightarrow> mi_cls info = SequenceHeader)
      else False)"

text \<open>The destination stream for frames of one source stream; it is opened at the first frame.\<close>

definition relay_stream_for :: "(conn \<Rightarrow> nat \<Rightarrow> u64) \<Rightarrow> conn \<Rightarrow> conn \<times> u64 \<Rightarrow> Conn \<Rightarrow> u64 \<times> Conn" where
  "relay_stream_for nxt cnx key c =
     (case cn_relay_streams c key of
        Some sid \<Rightarrow> (sid, c)
      | None \<Rightarrow>
          (let sid = nxt cnx (cn_opened c)
           in (sid, c\<lparr>cn_relay_streams := (cn_relay_streams c)(key \<mapsto> sid), cn_opened := Suc (cn_opened c)\<rparr>)))"

fun relay_loop :: "(conn \<Rightarrow> nat \<Rightarrow> u64) \<Rightarrow> conn \<Rightarrow> u64 \<Rightarrow> bytes \<Rightarrow> bool \<Rightarrow> (conn \<times> Conn) list
    \<Rightarrow> (conn \<times> Conn) list \<times> relay_effect list" where
  "relay_loop nxt from sid wire as_datagram [] = ([], [])"
| "relay_loop nxt from sid wire as_datagram ((cnx, c) # rest) =
     (if cnx = from then
        (case relay_loop nxt from sid wire as_datagram rest of (l, es) \<Rightarrow> ((cnx, c) # l, es))
      else if as_datagram then
        (case relay_loop nxt from sid wire as_datagram rest of (l, es) \<Rightarrow> ((cnx, c) # l, Rel_Datagram cnx wire # es))
      else
        (case relay_stream_for nxt cnx (from, sid) c of
           (dest, c) \<Rightarrow>
             (case relay_loop nxt from sid wire as_datagram rest of
                (l, es) \<Rightarrow> ((cnx, c) # l, Rel_Stream cnx dest wire # es))))"

definition forward_frame :: "(conn \<Rightarrow> nat \<Rightarrow> u64) \<Rightarrow> conn \<Rightarrow> u64 \<Rightarrow> Frame \<Rightarrow> bool \<Rightarrow> Server \<Rightarrow> Server" where
  "forward_frame nxt from sid frame as_datagram s =
     (case frame_encode frame [] of
        (False, _) \<Rightarrow> s
      | (True, wire) \<Rightarrow>
          if so_mode (rs_options s) = Echo then
            rs_emit [if as_datagram then Rel_Datagram from wire else Rel_Stream from sid wire] s
          else
            (case relay_loop nxt from sid wire as_datagram (rs_conns s) of
               (conns, es) \<Rightarrow> rs_emit es (s\<lparr>rs_conns := conns\<rparr>)))"

definition send_rtmp :: "conn \<Rightarrow> RtmpMessage \<Rightarrow> u64 \<Rightarrow> Server \<Rightarrow> Server" where
  "send_rtmp cnx msg sid s =
     (case frame_encode (to_frame msg 0) [] of
        (False, _) \<Rightarrow> s
      | (True, wire) \<Rightarrow> rs_emit [Rel_Stream cnx sid wire] s)"

text \<open>The two objects of the reply to \<open>connect\<close>; 31.0 and 1.0 as bit patterns.\<close>

definition connect_props :: Amf0Value where
  "connect_props = Amf_Object
     (set_property ''capabilities'' (Amf_Number 0x403F000000000000)
       (set_property ''fmsVer'' (Amf_String ''FMS/3,0,1,123'') []))"

definition connect_info :: Amf0Value where
  "connect_info = Amf_Object
     (set_property ''objectEncoding'' (Amf_Number 0)
       (set_property ''description'' (Amf_String ''ok'')
         (set_property ''code'' (Amf_String ''NetConnection.Connect.Success'')
           (set_property ''level'' (Amf_String ''status'') []))))"

definition handle_media_command :: "conn \<Rightarrow> u64 \<Rightarrow> Command \<Rightarrow> Server \<Rightarrow> Server" where
  "handle_media_command cnx sid cmd s =
     (if cmd_name cmd = ''connect'' then
        send_rtmp cnx (build_result_object (cmd_transaction_id cmd) connect_props connect_info) sid s
      else if cmd_name cmd = ''createStream'' then
        send_rtmp cnx (build_result_stream_id (cmd_transaction_id cmd) 0x3FF0000000000000) sid s
      else if cmd_name cmd = ''publish'' then
        send_rtmp cnx (build_on_status ''NetStream.Publish.Start'' ''publishing'') sid
          (s\<lparr>rs_router := register_publisher cnx (command_stream_name cmd) (rs_router s)\<rparr>)
      else if cmd_name cmd = ''play'' then
        (let name = command_stream_name cmd;
             s = s\<lparr>rs_router := register_subscriber cnx name (rs_router s)\<rparr>;
             s = send_rtmp cnx (build_on_status ''NetStream.Play.Start'' ''playing'') sid s
         in case init_frames name (rs_router s) of
              None \<Rightarrow> s\<lparr>rs_aborted := True\<rparr>
            | Some frames \<Rightarrow> rs_emit (map (Rel_Stream cnx sid) frames) s)
      else s)"

definition handle_media_frame :: "conn \<Rightarrow> u64 \<Rightarrow> Frame \<Rightarrow> bool \<Rightarrow> Server \<Rightarrow> Server" where
  "handle_media_frame cnx sid f as_datagram s =
     (case to_rtmp f empty_message of
        (False, _) \<Rightarrow> s
      | (True, msg) \<Rightarrow>
          if m_type msg = kTypeCommandAmf0 then
            (case parse_command msg of None \<Rightarrow> s | Some cmd \<Rightarrow> handle_media_command cnx sid cmd s)
          else
            (let s = (if is_init_frame msg \<and> is_publisher cnx (rs_router s) then
                        (case frame_encode f [] of
                           (True, bytes) \<Rightarrow>
                             s\<lparr>rs_router := cache_init (stream_of cnx (rs_router s)) (m_type msg) bytes (rs_router s)\<rparr>
                         | (False, _) \<Rightarrow> s)
                      else s)
             in case frame_encode f [] of
                  (False, _) \<Rightarrow> s
                | (True, wire) \<Rightarrow>
                    rs_emit (map (\<lambda>sub. if as_datagram then Rel_Datagram sub wire else Rel_Stream sub 0 wire)
                               (subscribers_for_publisher cnx (rs_router s))) s))"

definition purge_relay_streams :: "conn \<Rightarrow> u64 option \<Rightarrow> Server \<Rightarrow> Server" where
  "purge_relay_streams source sid s =
     s\<lparr>rs_conns := map (\<lambda>(k, c). (k, c\<lparr>cn_relay_streams := (\<lambda>key.
         if (case sid of Some i \<Rightarrow> fst key = source \<and> snd key = i | None \<Rightarrow> fst key = source)
         then None else cn_relay_streams c key)\<rparr>)) (rs_conns s)\<rparr>"

definition handle_frame :: "(conn \<Rightarrow> nat \<Rightarrow> u64) \<Rightarrow> conn \<Rightarrow> u64 \<Rightarrow> bool \<Rightarrow> Frame \<Rightarrow> Server \<Rightarrow> Server" where
  "handle_frame nxt cnx sid as_datagram frame s =
     (if so_mode (rs_options s) = Media then handle_media_frame cnx sid frame as_datagram s
      else forward_frame nxt cnx sid frame as_datagram s)"

function drain_frames :: "(conn \<Rightarrow> nat \<Rightarrow> u64) \<Rightarrow> conn \<Rightarrow> u64 \<Rightarrow> FrameDecoder \<Rightarrow> Server \<Rightarrow> FrameDecoder \<times> Server" where
  "drain_frames nxt cnx sid d s =
     (case FrameDecoder_next d of
        (None, d') \<Rightarrow> (d', s)
      | (Some frame, d') \<Rightarrow> drain_frames nxt cnx sid d' (handle_frame nxt cnx sid False frame s))"
  by pat_completeness auto
termination
  by (relation "measure (\<lambda>(nxt, cnx, sid, d, s). length (fd_ready d))")
    (auto simp: FrameDecoder_next_def split: list.splits)

declare drain_frames.simps [simp del]

definition decoder_of :: "conn \<Rightarrow> u64 \<Rightarrow> Server \<Rightarrow> FrameDecoder" where
  "decoder_of cnx sid s =
     (case map_of (rs_conns s) cnx of
        None \<Rightarrow> FrameDecoder_new kDefaultMaxPayload
      | Some c \<Rightarrow> (case cn_decoders c sid of None \<Rightarrow> FrameDecoder_new kDefaultMaxPayload | Some d \<Rightarrow> d))"

definition set_decoder :: "conn \<Rightarrow> u64 \<Rightarrow> FrameDecoder option \<Rightarrow> Server \<Rightarrow> Server" where
  "set_decoder cnx sid d s =
     s\<lparr>rs_conns := conns_update cnx (\<lambda>c. c\<lparr>cn_decoders := (cn_decoders c)(sid := d)\<rparr>) (rs_conns s)\<rparr>"

definition handle_stream_frames :: "(conn \<Rightarrow> nat \<Rightarrow> u64) \<Rightarrow> conn \<Rightarrow> u64 \<Rightarrow> bytes \<Rightarrow> Server \<Rightarrow> Server" where
  "handle_stream_frames nxt cnx sid bytes s =
     (let s = s\<lparr>rs_conns := conns_emplace cnx (rs_conns s)\<rparr>;
          d = FrameDecoder_feed bytes (decoder_of cnx sid s)
      in case drain_frames nxt cnx sid d s of (d, s) \<Rightarrow> set_decoder cnx sid (Some d) s)"

fun server_callback :: "(conn \<Rightarrow> nat \<Rightarrow> u64) \<Rightarrow> conn \<Rightarrow> cnx_event \<Rightarrow> Server \<Rightarrow> Server" where
  "server_callback nxt cnx (Ev_Ready tp) s =
     (let s = s\<lparr>rs_conns := conns_emplace cnx (rs_conns s)\<rparr>
      in if so_close_after_ready (rs_options s) then rs_emit [Rel_Close cnx 0] s else s)"
| "server_callback nxt cnx (Ev_Stream_Data sid bytes) s = handle_stream_frames nxt cnx sid bytes s"
| "server_callback nxt cnx (Ev_Stream_Fin sid bytes) s =
     purge_relay_streams cnx (Some sid) (set_decoder cnx sid None (handle_stream_frames nxt cnx sid bytes s))"
| "server_callback nxt cnx (Ev_Stream_Reset sid) s = purge_relay_streams cnx (Some sid) (set_decoder cnx sid None s)"
| "server_callback nxt cnx (Ev_Stop_Sending sid) s = purge_relay_streams cnx (Some sid) (set_decoder cnx sid None s)"
| "server_callback nxt cnx (Ev_Datagram bytes) s =
     (case datagram_decode bytes empty_frame of
        (Ok, frame) \<Rightarrow> handle_frame nxt cnx 0 True frame (s\<lparr>rs_conns := conns_emplace cnx (rs_conns s)\<rparr>)
      | _ \<Rightarrow> s)"
| "server_callback nxt cnx Ev_Close s =
     (let s = purge_relay_streams cnx None (s\<lparr>rs_conns := filter (\<lambda>e. fst e \<noteq> cnx) (rs_conns s)\<rparr>)
      in s\<lparr>rs_router := router_remove cnx (rs_router s)\<rparr>)"
| "server_callback nxt cnx (Ev_Application_Close code) s =
     (let s = purge_relay_streams cnx None (s\<lparr>rs_conns := filter (\<lambda>e. fst e \<noteq> cnx) (rs_conns s)\<rparr>)
      in s\<lparr>rs_router := router_remove cnx (rs_router s)\<rparr>)"
| "server_callback nxt cnx Ev_Other s = s"

text \<open>The callback of the packet loop has nothing to do.\<close>

definition server_loop_callback :: "Server \<Rightarrow> int \<times> Server" where
  "server_loop_callback s = (0, s)"

text \<open>What the file system and picoquic answer to \<open>start\<close>.\<close>

record start_answers =
  sa_cert_exists :: bool
  sa_key_exists :: bool
  sa_context :: bool
  sa_thread :: bool

definition Server_start :: "start_answers \<Rightarrow> ServerOptions \<Rightarrow> Server \<Rightarrow> bool \<times> Server" where
  "Server_start a options s =
     (if rs_running s then (False, s)
      else if \<not> sa_cert_exists a \<or> \<not> sa_key_exists a then (False, s)
      else let s = s\<lparr>rs_options := options, rs_quic := sa_context a\<rparr> in
        if \<not> rs_quic s then (False, s)
        else let s = s\<lparr>rs_thread_ctx := sa_thread a\<rparr> in
          if \<not> rs_thread_ctx s then (False, s\<lparr>rs_quic := False\<rparr>)
          else (True, s\<lparr>rs_running := True\<rparr>))"

text \<open>Freeing the context closes the connections picoquic still has, \<open>open\<close>.\<close>

definition Server_stop :: "(conn \<Rightarrow> nat \<Rightarrow> u64) \<Rightarrow> conn list \<Rightarrow> Server \<Rightarrow> Server" where
  "Server_stop nxt open s =
     (if \<not> rs_running s then s
      else (fold (\<lambda>cnx. server_callback nxt cnx Ev_Close) open (s\<lparr>rs_thread_ctx := False\<rparr>))
             \<lparr>rs_quic := False, rs_conns := [], rs_running := False\<rparr>)"

section \<open>Forwarding\<close>

lemma relay_stream_for_key: "relay_stream_for nxt k key c = (d, c') \<Longrightarrow> cn_relay_streams c' key = Some d"
  by (auto simp: relay_stream_for_def Let_def split: option.splits)

lemma relay_loop_effects:
  "relay_loop nxt from sid w dg l = (l', es) \<Longrightarrow>
     map fst l' = map fst l
     \<and> es = map (\<lambda>(k, c). if dg then Rel_Datagram k w else Rel_Stream k (the (cn_relay_streams c (from, sid))) w)
              (filter (\<lambda>e. fst e \<noteq> from) l')"
proof (induction l arbitrary: l' es)
  case (Cons e l)
  obtain k c where e: "e = (k, c)" by (cases e)
  obtain l1 es1 where r: "relay_loop nxt from sid w dg l = (l1, es1)" by (cases "relay_loop nxt from sid w dg l")
  obtain d c' where f: "relay_stream_for nxt k (from, sid) c = (d, c')" by (cases "relay_stream_for nxt k (from, sid) c")
  show ?case
    using Cons.prems Cons.IH [OF r] e r f relay_stream_for_key [OF f] by (auto split: if_splits)
qed simp

section \<open>Relay streams\<close>

definition conn_ok :: "(conn \<Rightarrow> nat \<Rightarrow> u64) \<Rightarrow> conn set \<Rightarrow> conn \<times> Conn \<Rightarrow> bool" where
  "conn_ok nxt live e \<longleftrightarrow>
     (case e of (k, c) \<Rightarrow>
        ran (cn_relay_streams c) \<subseteq> nxt k ` {..<cn_opened c}
        \<and> fst ` dom (cn_relay_streams c) \<subseteq> live
        \<and> (inj_on (nxt k) {..<cn_opened c} \<longrightarrow> inj_on (cn_relay_streams c) (dom (cn_relay_streams c))))"

definition live :: "Server \<Rightarrow> conn set" where
  "live s = fst ` set (rs_conns s)"

definition relay_inv :: "(conn \<Rightarrow> nat \<Rightarrow> u64) \<Rightarrow> Server \<Rightarrow> bool" where
  "relay_inv nxt s \<longleftrightarrow> list_all (conn_ok nxt (live s)) (rs_conns s)"

lemma conn_ok_new: "conn_ok nxt L (k, Conn_new)"
  by (simp add: conn_ok_def Conn_new_def)

lemma conn_ok_mono: "conn_ok nxt L e \<Longrightarrow> L \<subseteq> L' \<Longrightarrow> conn_ok nxt L' e"
  unfolding conn_ok_def by (cases e) (simp, blast)

lemma inj_on_map_upd:
  assumes "inj_on m (dom m)" and "v \<notin> ran m"
  shows "inj_on (m(k \<mapsto> v)) (dom (m(k \<mapsto> v)))"
  using assms unfolding inj_on_def by (auto simp: ran_def dom_def split: if_splits)

lemma conn_ok_stream_for:
  assumes ok: "conn_ok nxt L (k, c)" and "relay_stream_for nxt k key c = (d, c')" and "fst key \<in> L"
  shows "conn_ok nxt L (k, c')"
proof (cases "cn_relay_streams c key")
  case (Some sid)
  with assms show ?thesis by (simp add: relay_stream_for_def)
next
  case None
  let ?m = "cn_relay_streams c" and ?n = "cn_opened c"
  from None assms(2) have c': "c' = c\<lparr>cn_relay_streams := ?m(key \<mapsto> nxt k ?n), cn_opened := Suc ?n\<rparr>"
    by (auto simp: relay_stream_for_def Let_def)
  have ran: "ran ?m \<subseteq> nxt k ` {..<?n}" using ok by (simp add: conn_ok_def)
  have "inj_on (?m(key \<mapsto> nxt k ?n)) (dom (?m(key \<mapsto> nxt k ?n)))" if inj: "inj_on (nxt k) {..<Suc ?n}"
  proof (rule inj_on_map_upd)
    have "inj_on (nxt k) {..<?n}" using inj by (rule inj_on_subset) auto
    then show "inj_on ?m (dom ?m)" using ok by (simp add: conn_ok_def)
    have "nxt k ?n \<notin> nxt k ` {..<?n}"
      using inj by (auto simp: lessThan_Suc)
    then show "nxt k ?n \<notin> ran ?m" using ran by blast
  qed
  moreover have "ran (?m(key \<mapsto> nxt k ?n)) \<subseteq> nxt k ` {..<Suc ?n}"
    using ran None by (auto simp: lessThan_Suc ran_map_upd)
  ultimately show ?thesis
    using ok assms(3) unfolding c' by (auto simp: conn_ok_def)
qed

lemma conn_ok_relay_loop:
  assumes "list_all (conn_ok nxt L) l" and "from \<in> L" and "relay_loop nxt from sid w dg l = (l', es)"
  shows "list_all (conn_ok nxt L) l'"
  using assms
proof (induction l arbitrary: l' es)
  case (Cons e l)
  obtain k c where e: "e = (k, c)" by (cases e)
  obtain l1 es1 where r: "relay_loop nxt from sid w dg l = (l1, es1)" by (cases "relay_loop nxt from sid w dg l")
  obtain d c' where f: "relay_stream_for nxt k (from, sid) c = (d, c')" by (cases "relay_stream_for nxt k (from, sid) c")
  have "conn_ok nxt L (k, c')" by (rule conn_ok_stream_for [OF _ f]) (use Cons.prems e in simp_all)
  with Cons.prems Cons.IH [OF _ _ r] e r f show ?case by (auto split: if_splits)
qed simp

lemma rs_emit_fields [simp]:
  "rs_conns (rs_emit es s) = rs_conns s" "rs_router (rs_emit es s) = rs_router s"
  "rs_options (rs_emit es s) = rs_options s" "rs_aborted (rs_emit es s) = rs_aborted s"
  by (simp_all add: rs_emit_def)

lemma send_rtmp_fields [simp]:
  "rs_conns (send_rtmp c m i s) = rs_conns s" "rs_router (send_rtmp c m i s) = rs_router s"
  "rs_options (send_rtmp c m i s) = rs_options s" "rs_aborted (send_rtmp c m i s) = rs_aborted s"
  by (simp_all add: send_rtmp_def split: prod.split bool.split)

lemma media_conns [simp]:
  "rs_conns (handle_media_frame cnx sid f dg s) = rs_conns s"
  by (simp add: handle_media_frame_def handle_media_command_def Let_def split: prod.split bool.split option.split)

lemma relay_loop_live: "relay_loop nxt cnx sid w dg l = (l', es) \<Longrightarrow> fst ` set l' = fst ` set l"
  using relay_loop_effects [of nxt cnx sid w dg l l' es] by (metis list.set_map)

lemma handle_frame_live [simp]: "live (handle_frame nxt cnx sid dg f s) = live s"
proof -
  obtain ok w where e: "frame_encode f [] = (ok, w)" by (cases "frame_encode f []")
  obtain l es where r: "relay_loop nxt cnx sid w dg (rs_conns s) = (l, es)"
    by (cases "relay_loop nxt cnx sid w dg (rs_conns s)")
  show ?thesis
    using e relay_loop_live [OF r] r by (cases ok) (simp_all add: handle_frame_def live_def forward_frame_def)
qed

lemma relay_inv_frame:
  assumes "relay_inv nxt s" and "cnx \<in> live s"
  shows "relay_inv nxt (handle_frame nxt cnx sid dg f s)"
proof (cases "so_mode (rs_options s) = Media")
  case True
  with assms show ?thesis by (simp add: relay_inv_def live_def handle_frame_def)
next
  case False
  obtain ok w where e: "frame_encode f [] = (ok, w)" by (cases "frame_encode f []")
  obtain l es where r: "relay_loop nxt cnx sid w dg (rs_conns s) = (l, es)"
    by (cases "relay_loop nxt cnx sid w dg (rs_conns s)")
  have "list_all (conn_ok nxt (live s)) l"
    by (rule conn_ok_relay_loop [OF _ assms(2) r]) (use assms(1) in \<open>simp add: relay_inv_def\<close>)
  moreover have "fst ` set l = live s" using relay_loop_live [OF r] by (simp add: live_def)
  ultimately show ?thesis
    using False e r assms(1) by (cases ok) (simp_all add: relay_inv_def handle_frame_def forward_frame_def live_def)
qed

lemma drain_frames_all:
  "drain_frames nxt cnx sid d s
     = (d\<lparr>fd_ready := []\<rparr>, fold (handle_frame nxt cnx sid False) (fd_ready d) s)"
proof (induction "fd_ready d" arbitrary: d s)
  case Nil
  then show ?case by (subst drain_frames.simps) (simp add: FrameDecoder_next_def)
next
  case (Cons f fs)
  then show ?case
    by (subst drain_frames.simps) (simp add: FrameDecoder_next_def flip: Cons(2))
qed

lemma relay_inv_frames:
  "relay_inv nxt s \<Longrightarrow> cnx \<in> live s \<Longrightarrow>
     relay_inv nxt (fold (handle_frame nxt cnx sid dg) fs s) \<and> live (fold (handle_frame nxt cnx sid dg) fs s) = live s"
  by (induction fs arbitrary: s) (simp_all add: relay_inv_frame)

lemma relay_inv_emplace:
  assumes "relay_inv nxt s"
  shows "relay_inv nxt (s\<lparr>rs_conns := conns_emplace cnx (rs_conns s)\<rparr>)
    \<and> live (s\<lparr>rs_conns := conns_emplace cnx (rs_conns s)\<rparr>) = insert cnx (live s)"
proof -
  have l: "live (s\<lparr>rs_conns := conns_emplace cnx (rs_conns s)\<rparr>) = insert cnx (live s)"
    by (auto simp: live_def conns_emplace_def set_insort_key)
  have "conn_ok nxt (insert cnx (live s)) e" if "e \<in> set (rs_conns s)" for e
    using assms that by (auto simp: relay_inv_def list_all_iff intro: conn_ok_mono)
  with l show ?thesis
    by (auto simp: relay_inv_def list_all_iff conns_emplace_def set_insort_key conn_ok_new)
qed

lemma live_set_decoder [simp]: "live (set_decoder cnx sid d s) = live s"
  by (force simp: live_def set_decoder_def conns_update_def)

lemma relay_inv_set_decoder [simp]: "relay_inv nxt (set_decoder cnx sid d s) = relay_inv nxt s"
proof -
  have "conn_ok nxt L (k, if k = cnx then c\<lparr>cn_decoders := m\<rparr> else c) = conn_ok nxt L (k, c)" for L k c m
    by (simp add: conn_ok_def)
  then have "list_all (conn_ok nxt L) (rs_conns (set_decoder cnx sid d s)) = list_all (conn_ok nxt L) (rs_conns s)" for L
    by (simp add: set_decoder_def conns_update_def list_all_iff split_beta)
  then show ?thesis by (simp add: relay_inv_def)
qed

lemma handle_stream_frames_eq:
  "handle_stream_frames nxt cnx sid bs s =
     (let s = s\<lparr>rs_conns := conns_emplace cnx (rs_conns s)\<rparr>; d = FrameDecoder_feed bs (decoder_of cnx sid s)
      in set_decoder cnx sid (Some (d\<lparr>fd_ready := []\<rparr>)) (fold (handle_frame nxt cnx sid False) (fd_ready d) s))"
  by (simp add: handle_stream_frames_def drain_frames_all Let_def)

lemma relay_inv_stream_frames:
  assumes "relay_inv nxt s"
  shows "relay_inv nxt (handle_stream_frames nxt cnx sid bs s)"
  using relay_inv_emplace [OF assms, of cnx]
  by (simp add: handle_stream_frames_eq Let_def relay_inv_frames)

lemma live_purge [simp]: "live (purge_relay_streams src sid s) = live s"
  by (force simp: live_def purge_relay_streams_def)

lemma conn_ok_purge:
  assumes "conn_ok nxt L (k, c)" and "m \<subseteq>\<^sub>m cn_relay_streams c" and "fst ` dom m \<subseteq> L'"
  shows "conn_ok nxt L' (k, c\<lparr>cn_relay_streams := m\<rparr>)"
proof -
  have dom: "dom m \<subseteq> dom (cn_relay_streams c)" by (rule map_le_implies_dom_le [OF assms(2)])
  have eq: "m x = cn_relay_streams c x" if "x \<in> dom m" for x using assms(2) that by (simp add: map_le_def)
  have "inj_on m (dom m)" if "inj_on (cn_relay_streams c) (dom (cn_relay_streams c))"
    using inj_on_subset [OF that dom] inj_on_cong [of "dom m" m "cn_relay_streams c"] eq by blast
  moreover have "ran m \<subseteq> ran (cn_relay_streams c)"
  proof
    fix v assume "v \<in> ran m"
    then obtain x where "m x = Some v" by (auto simp: ran_def)
    with eq [of x] have "cn_relay_streams c x = Some v" by (metis domI)
    then show "v \<in> ran (cn_relay_streams c)" by (rule ranI)
  qed
  ultimately show ?thesis using assms(1,3) by (simp add: conn_ok_def) blast
qed

definition purge_map :: "conn \<Rightarrow> u64 option \<Rightarrow> (conn \<times> u64 \<rightharpoonup> u64) \<Rightarrow> (conn \<times> u64 \<rightharpoonup> u64)" where
  "purge_map src sid m = (\<lambda>key.
     if (case sid of Some i \<Rightarrow> fst key = src \<and> snd key = i | None \<Rightarrow> fst key = src) then None else m key)"

lemma purge_map_le: "purge_map src sid m \<subseteq>\<^sub>m m"
  by (auto simp: purge_map_def map_le_def split: if_splits)

lemma purge_map_None: "src \<notin> fst ` dom (purge_map src None m)"
  by (auto simp: purge_map_def dom_def)

lemma relay_inv_purge:
  assumes "list_all (conn_ok nxt L) (rs_conns s)" and "L \<subseteq> (case sid of None \<Rightarrow> insert src (live s) | Some i \<Rightarrow> live s)"
  shows "relay_inv nxt (purge_relay_streams src sid s)"
proof -
  have "conn_ok nxt (live s) (k, c\<lparr>cn_relay_streams := purge_map src sid (cn_relay_streams c)\<rparr>)"
    if "(k, c) \<in> set (rs_conns s)" for k c
  proof (rule conn_ok_purge [OF _ purge_map_le])
    show ok: "conn_ok nxt L (k, c)" using assms(1) that by (simp add: list_all_iff)
    have "fst ` dom (purge_map src sid (cn_relay_streams c)) \<subseteq> fst ` dom (cn_relay_streams c)"
      by (intro image_mono map_le_implies_dom_le purge_map_le)
    moreover have "fst ` dom (cn_relay_streams c) \<subseteq> L" using ok by (simp add: conn_ok_def)
    ultimately have "fst ` dom (purge_map src sid (cn_relay_streams c)) \<subseteq> L" by (rule subset_trans)
    with assms(2) purge_map_None [of src "cn_relay_streams c"]
    show "fst ` dom (purge_map src sid (cn_relay_streams c)) \<subseteq> live s"
      by (cases sid) (simp_all, blast+)
  qed
  then show ?thesis
    unfolding relay_inv_def live_purge
    by (auto simp: purge_relay_streams_def purge_map_def list_all_iff)
qed

lemma relay_inv_router [simp]: "relay_inv nxt (s\<lparr>rs_router := r\<rparr>) = relay_inv nxt s"
  by (simp add: relay_inv_def live_def)

lemma relay_inv_emit [simp]: "relay_inv nxt (rs_emit es s) = relay_inv nxt s"
  by (simp add: relay_inv_def live_def)

lemma relay_inv_fin: "relay_inv nxt s \<Longrightarrow> relay_inv nxt (purge_relay_streams src (Some i) s)"
  by (rule relay_inv_purge [where L = "live s"]) (simp_all add: relay_inv_def)

lemma relay_inv_close:
  assumes "relay_inv nxt s"
  shows "relay_inv nxt (purge_relay_streams cnx None (s\<lparr>rs_conns := filter (\<lambda>e. fst e \<noteq> cnx) (rs_conns s)\<rparr>))"
  by (rule relay_inv_purge [where L = "live s"]) (use assms in \<open>auto simp: relay_inv_def live_def list_all_iff\<close>)

lemma relay_inv_callback: "relay_inv nxt s \<Longrightarrow> relay_inv nxt (server_callback nxt cnx e s)"
proof (induction nxt cnx e s rule: server_callback.induct)
  case (6 nxt cnx bs s)
  obtain st fr where d: "datagram_decode bs empty_frame = (st, fr)" by (cases "datagram_decode bs empty_frame")
  from relay_inv_emplace [OF 6, of cnx] have "relay_inv nxt (handle_frame nxt cnx 0 True fr (s\<lparr>rs_conns := conns_emplace cnx (rs_conns s)\<rparr>))"
    by (intro relay_inv_frame) simp_all
  with d 6 show ?case by (cases st) simp_all
qed (simp_all add: Let_def relay_inv_emplace relay_inv_stream_frames relay_inv_fin relay_inv_close)

section \<open>Media mode\<close>

definition encoded_init :: "byte \<Rightarrow> bytes \<Rightarrow> bool" where
  "encoded_init ty b \<longleftrightarrow>
     (\<exists>f m. to_rtmp f empty_message = (True, m) \<and> is_init_frame m \<and> m_type m = ty \<and> frame_encode f [] = (True, b))"

fun caches_init :: "router_call \<Rightarrow> bool" where
  "caches_init (Cache n ty b) = encoded_init ty b"
| "caches_init c = True"

text \<open>The router is only ever driven by its own operations, and only init frames are cached.\<close>

definition media_inv :: "Server \<Rightarrow> bool" where
  "media_inv s \<longleftrightarrow> \<not> rs_aborted s
     \<and> (\<exists>calls. list_all caches_init calls \<and> rs_router s = fold run_router_call calls MediaRouter_new)"

lemma media_inv_router:
  assumes "media_inv s" and "caches_init call"
  shows "media_inv (s\<lparr>rs_router := run_router_call call (rs_router s)\<rparr>)"
proof -
  from assms(1) obtain calls where c: "list_all caches_init calls" "rs_router s = fold run_router_call calls MediaRouter_new"
    by (auto simp: media_inv_def)
  with assms(2) have "list_all caches_init (calls @ [call])"
    "run_router_call call (rs_router s) = fold run_router_call (calls @ [call]) MediaRouter_new" by simp_all
  moreover have "\<not> rs_aborted s" using assms(1) by (simp add: media_inv_def)
  ultimately show ?thesis unfolding media_inv_def by (intro conjI exI [of _ "calls @ [call]"]) simp_all
qed

lemma media_inv_cong: "rs_router s = rs_router s' \<Longrightarrow> rs_aborted s = rs_aborted s' \<Longrightarrow> media_inv s = media_inv s'"
  by (simp add: media_inv_def)

lemma media_inv_init_frames:
  assumes "media_inv s"
  obtains fs where "init_frames name (rs_router s) = Some fs" "list_all (\<lambda>b. \<exists>ty. encoded_init ty b) fs"
proof -
  from assms obtain calls where c: "list_all caches_init calls" "rs_router s = fold run_router_call calls MediaRouter_new"
    by (auto simp: media_inv_def)
  have "list_all (\<lambda>(ty, b). encoded_init ty b) (cached_for name calls)"
    using c(1) by (induction name calls rule: cached_for.induct) auto
  then have "list_all (\<lambda>b. \<exists>ty. encoded_init ty b) (latest_values (cached_for name calls))"
    using latest_values_sub [of "cached_for name calls"] by (fastforce simp: list_all_iff)
  moreover have "init_frames name (rs_router s) = Some (latest_values (cached_for name calls))"
    unfolding c(2) by (rule router_replay)
  ultimately show thesis using that by blast
qed

lemma media_inv_command:
  assumes "media_inv s"
  shows "media_inv (handle_media_command cnx sid cmd s)"
proof -
  let ?n = "command_stream_name cmd"
  have sent: "media_inv (send_rtmp c m i s) = media_inv s" for c m i s
    by (rule media_inv_cong) simp_all
  have pub: "media_inv (s\<lparr>rs_router := register_publisher cnx ?n (rs_router s)\<rparr>)"
    using media_inv_router [OF assms, of "Publisher cnx ?n"] by simp
  have sub: "media_inv (s\<lparr>rs_router := register_subscriber cnx ?n (rs_router s)\<rparr>)"
    using media_inv_router [OF assms, of "Subscriber cnx ?n"] by simp
  obtain fs where fs: "init_frames ?n (register_subscriber cnx ?n (rs_router s)) = Some fs"
    using media_inv_init_frames [OF sub, of ?n] by auto
  have "media_inv (rs_emit es (send_rtmp c m i s)) = media_inv s" for es c m i s
    by (rule media_inv_cong) simp_all
  with assms sent pub sub fs show ?thesis by (simp add: handle_media_command_def Let_def)
qed

lemma media_inv_media_frame:
  assumes "media_inv s"
  shows "media_inv (handle_media_frame cnx sid f dg s)"
proof -
  obtain ok m where m: "to_rtmp f empty_message = (ok, m)" by (cases "to_rtmp f empty_message")
  obtain ok' w where w: "frame_encode f [] = (ok', w)" by (cases "frame_encode f []")
  have emit: "media_inv (rs_emit es s) = media_inv s" for es s by (rule media_inv_cong) simp_all
  have cached: "media_inv (s\<lparr>rs_router := cache_init n (m_type m) w (rs_router s)\<rparr>)" if "ok" "ok'" "is_init_frame m" for n
  proof -
    have "caches_init (Cache n (m_type m) w)" using that m w by (auto simp: encoded_init_def)
    from media_inv_router [OF assms this] show ?thesis by simp
  qed
  show ?thesis
  proof (cases ok)
    case True
    with m w assms emit cached media_inv_command [OF assms] show ?thesis
      by (cases ok') (auto simp: handle_media_frame_def Let_def split: option.split)
  qed (use m assms in \<open>simp add: handle_media_frame_def\<close>)
qed

lemma forward_frame_router [simp]:
  "rs_router (forward_frame nxt cnx sid f dg s) = rs_router s" "rs_aborted (forward_frame nxt cnx sid f dg s) = rs_aborted s"
  by (simp_all add: forward_frame_def split: prod.split bool.split)

lemma media_inv_handle_frame: "media_inv s \<Longrightarrow> media_inv (handle_frame nxt cnx sid dg f s)"
  using media_inv_cong [of "forward_frame nxt cnx sid f dg s" s]
  by (simp add: handle_frame_def media_inv_media_frame)

lemma media_inv_frames: "media_inv s \<Longrightarrow> media_inv (fold (handle_frame nxt cnx sid dg) fs s)"
  by (induction fs arbitrary: s) (simp_all add: media_inv_handle_frame)

lemma media_inv_conns [simp]: "media_inv (s\<lparr>rs_conns := l\<rparr>) = media_inv s"
  by (simp add: media_inv_def)

lemma media_inv_set_decoder [simp]: "media_inv (set_decoder cnx sid d s) = media_inv s"
  by (simp add: set_decoder_def)

lemma media_inv_purge [simp]: "media_inv (purge_relay_streams src sid s) = media_inv s"
  by (simp add: purge_relay_streams_def)

lemma media_inv_stream_frames: "media_inv s \<Longrightarrow> media_inv (handle_stream_frames nxt cnx sid bs s)"
  by (simp add: handle_stream_frames_eq Let_def media_inv_frames)

lemma media_inv_close: "media_inv s \<Longrightarrow> media_inv (s\<lparr>rs_router := router_remove cnx (rs_router s)\<rparr>)"
  using media_inv_router [of s "Remove cnx"] by simp

lemma media_inv_callback: "media_inv s \<Longrightarrow> media_inv (server_callback nxt cnx e s)"
proof (induction nxt cnx e s rule: server_callback.induct)
  case (1 nxt cnx tp s)
  then show ?case using media_inv_cong [of "rs_emit es (s\<lparr>rs_conns := l\<rparr>)" s for es l] by (simp add: Let_def)
next
  case (6 nxt cnx bs s)
  obtain st fr where d: "datagram_decode bs empty_frame = (st, fr)" by (cases "datagram_decode bs empty_frame")
  then show ?case using 6 by (cases st) (simp_all add: media_inv_handle_frame)
next
  case (7 nxt cnx s)
  then show ?case using media_inv_close [of "purge_relay_streams cnx None (s\<lparr>rs_conns := filter (\<lambda>e. fst e \<noteq> cnx) (rs_conns s)\<rparr>)"]
    by (simp add: Let_def)
next
  case (8 nxt cnx code s)
  then show ?case using media_inv_close [of "purge_relay_streams cnx None (s\<lparr>rs_conns := filter (\<lambda>e. fst e \<noteq> cnx) (rs_conns s)\<rparr>)"]
    by (simp add: Let_def)
qed (simp_all add: media_inv_stream_frames)

section \<open>Properties\<close>

interpretation relay_events: guarded_ops "\<lambda>(cnx, e). server_callback nxt cnx e" "relay_inv nxt" for nxt
  by unfold_locales (auto simp: relay_inv_callback)

interpretation media_events: guarded_ops "\<lambda>(cnx, e). server_callback nxt cnx e" media_inv for nxt
  by unfold_locales (auto simp: media_inv_callback)

definition serve :: "(conn \<Rightarrow> nat \<Rightarrow> u64) \<Rightarrow> ServerOptions \<Rightarrow> (conn \<times> cnx_event) list \<Rightarrow> Server" where
  "serve nxt options events = fold (\<lambda>(cnx, e). server_callback nxt cnx e) events (Server_new\<lparr>rs_options := options\<rparr>)"

text \<open>
  C24. A frame that can be encoded is relayed to every live connection but its sender, in one
  piece each, on the carriage it came on: as a datagram, or on the stream that the destination
  keeps for this source stream afterwards. In Echo mode it goes back to the sender only; a frame
  that cannot be encoded changes nothing.
\<close>

theorem relay_forwards:
  "let s' = forward_frame nxt from sid f dg s; w = snd (frame_encode f []) in
   if fst (frame_encode f []) then
     map fst (rs_conns s') = map fst (rs_conns s)
     \<and> rs_log s' = rs_log s @
         (if so_mode (rs_options s) = Echo then [if dg then Rel_Datagram from w else Rel_Stream from sid w]
          else map (\<lambda>(k, c). if dg then Rel_Datagram k w else Rel_Stream k (the (cn_relay_streams c (from, sid))) w)
                 (filter (\<lambda>e. fst e \<noteq> from) (rs_conns s')))
   else s' = s"
proof -
  obtain ok w where e: "frame_encode f [] = (ok, w)" by (cases "frame_encode f []")
  obtain l es where r: "relay_loop nxt from sid w dg (rs_conns s) = (l, es)"
    by (cases "relay_loop nxt from sid w dg (rs_conns s)")
  show ?thesis
    using e r relay_loop_effects [OF r] by (cases ok) (auto simp: forward_frame_def rs_emit_def Let_def)
qed

text \<open>
  C25. Whatever the connections do, the frames of different source streams never share a stream
  towards one destination, provided picoquic hands out fresh stream ids there, and no stream
  mapping outlives its source: every source that a live connection has a stream for is itself
  live, so a connection that reuses a dead one's address starts with streams of its own.
\<close>

theorem relay_streams_isolated:
  assumes "map_of (rs_conns (serve nxt options events)) k = Some c"
    and "inj_on (nxt k) {..<cn_opened c}"
  shows "inj_on (cn_relay_streams c) (dom (cn_relay_streams c))
    \<and> fst ` dom (cn_relay_streams c) \<subseteq> fst ` set (rs_conns (serve nxt options events))"
proof -
  have "relay_inv nxt (serve nxt options events)"
    unfolding serve_def by (rule relay_events.ops_keep) (simp add: relay_inv_def Server_new_def)
  then have "conn_ok nxt (live (serve nxt options events)) (k, c)"
    using map_of_SomeD [OF assms(1)] by (simp add: relay_inv_def list_all_iff)
  with assms(2) show ?thesis by (simp add: conn_ok_def live_def)
qed

definition demo_next :: "conn \<Rightarrow> nat \<Rightarrow> u64" where
  "demo_next k n = word_of_nat (4 * n + 1)"

definition demo_events :: "(conn \<times> cnx_event) list" where
  "demo_events = [(1, Ev_Ready None), (2, Ev_Ready None), (1, Ev_Stream_Data 0 [7, 40, 9, 1, 6, 1]), (1, Ev_Stream_Data 0 [3])]"

lemma demo_relay:
  "map_option (\<lambda>c. (cn_opened c, cn_relay_streams c (1, 0)))
     (map_of (rs_conns (serve demo_next \<lparr>so_mode = Relay, so_close_after_ready = False\<rparr> demo_events)) 2) = Some (1, Some 1)"
  by code_simp

theorem relay_streams_isolated_witness:
  "\<exists>c. map_of (rs_conns (serve demo_next \<lparr>so_mode = Relay, so_close_after_ready = False\<rparr> demo_events)) 2 = Some c
     \<and> cn_relay_streams c (1, 0) = Some 1 \<and> inj_on (cn_relay_streams c) (dom (cn_relay_streams c))"
proof -
  obtain c where c: "map_of (rs_conns (serve demo_next \<lparr>so_mode = Relay, so_close_after_ready = False\<rparr> demo_events)) 2 = Some c"
    "cn_opened c = 1" "cn_relay_streams c (1, 0) = Some 1"
    using demo_relay by auto
  have "inj_on (demo_next 2) {..<cn_opened c}" by (simp add: c(2) lessThan_Suc)
  from relay_streams_isolated [OF c(1) this] c show ?thesis by blast
qed

text \<open>
  C26. In Media mode, after any events: replaying the init frames of a stream never throws and
  replays only encodings of metadata and sequence-header messages, and media from a connection that
  is not the publisher of its stream is ignored: it is neither cached nor forwarded.
\<close>

theorem media_init_safe:
  "let s = serve nxt options events in
   \<not> rs_aborted s
   \<and> (case init_frames name (rs_router s) of None \<Rightarrow> False | Some fs \<Rightarrow> list_all (\<lambda>b. \<exists>ty. encoded_init ty b) fs)
   \<and> (if is_publisher cnx (rs_router s) \<or> f_message_type f = kTypeCommandAmf0 then True
      else handle_media_frame cnx sid f dg s = s)"
proof -
  let ?s = "serve nxt options events"
  have inv: "media_inv ?s"
    unfolding serve_def
    by (rule media_events.ops_keep) (simp add: media_inv_def Server_new_def exI [of _ "[]"])
  then have "\<not> rs_aborted ?s" by (simp add: media_inv_def)
  moreover obtain fs where "init_frames name (rs_router ?s) = Some fs" "list_all (\<lambda>b. \<exists>ty. encoded_init ty b) fs"
    using media_inv_init_frames [OF inv, of name] by blast
  moreover have "handle_media_frame cnx sid f dg ?s = ?s"
    if "\<not> is_publisher cnx (rs_router ?s)" "f_message_type f \<noteq> kTypeCommandAmf0"
  proof -
    have "subscribers_for_publisher cnx (rs_router ?s) = []"
      using that(1) by (auto simp: is_publisher_def subscribers_for_publisher_def split: option.splits)
    moreover have "m_type (snd (to_rtmp f empty_message)) \<noteq> kTypeCommandAmf0" if "fst (to_rtmp f empty_message)"
      using that \<open>f_message_type f \<noteq> kTypeCommandAmf0\<close> by (auto simp: to_rtmp_def split: if_splits)
    ultimately show ?thesis
      using that(1) by (auto simp: handle_media_frame_def Let_def rs_emit_def split: prod.split bool.split)
  qed
  ultimately show ?thesis by (simp add: Let_def)
qed

end
