(* ===== verification/Relay_Path.thy ===== *)
theory Relay_Path
  imports Relay_Server Gateways
begin

text \<open>
  The relay server as a piece of the path from a publisher to its subscribers: in Media mode
  (\<^verbatim>\<open>tools/relayd/src/server.cpp\<close>, \<open>handle_media_frame\<close>) the frames of a publisher's stream are taken apart and written again
  towards every subscriber, and what arrives there is the publisher's bytes.
\<close>

section \<open>What is written towards a connection\<close>

definition relayed :: "conn \<Rightarrow> u64 \<Rightarrow> relay_effect list \<Rightarrow> bytes" where
  "relayed k sid log =
     concat (map (\<lambda>e. case e of Rel_Stream c i w \<Rightarrow> if c = k \<and> i = sid then w else [] | _ \<Rightarrow> []) log)"

lemma relayed_append [simp]: "relayed k sid (xs @ ys) = relayed k sid xs @ relayed k sid ys"
  by (simp add: relayed_def)

lemma relayed_fan_out:
  "distinct subs \<Longrightarrow> relayed k sid (map (\<lambda>sub. Rel_Stream sub 0 w) subs) = (if k \<in> set subs \<and> sid = 0 then w else [])"
  by (induction subs) (auto simp: relayed_def)

section \<open>Subscribers are listed once\<close>

lemma router_subscribers_distinct:
  "distinct (st_subscribers (stream_at name (fold run_router_call calls MediaRouter_new)))"
proof (induction calls rule: rev_induct)
  case Nil
  show ?case by (simp add: stream_at_def MediaRouter_new_def Stream_new_def)
next
  case (snoc c calls)
  then show ?case
    by (cases c) (auto simp: router_ops stream_at_simps stream_cache_def stream_at_def Let_def Stream_new_def
        split: option.splits if_splits)
qed

lemma subscribers_distinct:
  assumes "media_inv s"
  shows "distinct (subscribers_for_publisher cnx (rs_router s))"
proof -
  obtain calls where "rs_router s = fold run_router_call calls MediaRouter_new"
    using assms by (auto simp: media_inv_def)
  then show ?thesis
    using router_subscribers_distinct [of _ calls]
    by (auto simp: subscribers_for_publisher_def stream_at_def split: option.split)
      (metis option.simps(5))
qed

section \<open>Media frames of a publisher\<close>

definition relayable :: "Frame \<Rightarrow> bool" where
  "relayable f \<longleftrightarrow> frame_ok f \<and> fst (to_rtmp f empty_message) \<and> f_message_type f \<noteq> kTypeCommandAmf0"

definition serves_media :: "conn \<Rightarrow> conn list \<Rightarrow> Server \<Rightarrow> bool" where
  "serves_media cnx subs s \<longleftrightarrow> so_mode (rs_options s) = Media \<and> subscribers_for_publisher cnx (rs_router s) = subs"

lemma cache_keeps_subscribers:
  "subscribers_for_publisher cnx (cache_init (stream_of cnx r) ty b r) = subscribers_for_publisher cnx r"
  by (auto simp: subscribers_for_publisher_def cache_init_def stream_of_def stream_at_def stream_cache_def Let_def Stream_new_def
      split: option.split)

lemma media_frame_fans_out:
  assumes "serves_media cnx subs s" and "relayable f"
  shows "rs_log (handle_frame nxt cnx sid False f s) = rs_log s @ map (\<lambda>sub. Rel_Stream sub 0 (frame_bytes f)) subs
    \<and> rs_conns (handle_frame nxt cnx sid False f s) = rs_conns s
    \<and> serves_media cnx subs (handle_frame nxt cnx sid False f s)"
proof -
  obtain m where m: "to_rtmp f empty_message = (True, m)" using assms(2) by (metis prod.collapse relayable_def)
  then have "m_type m \<noteq> kTypeCommandAmf0" using assms(2) by (auto simp: relayable_def to_rtmp_def split: if_splits)
  moreover have "frame_encode f [] = (True, frame_bytes f)" using assms(2) by (simp add: relayable_def frame_encode_ok)
  ultimately show ?thesis
    using m assms(1) by (auto simp: serves_media_def handle_frame_def handle_media_frame_def rs_emit_def cache_keeps_subscribers Let_def)
qed

lemma media_frames_fan_out:
  assumes "serves_media cnx subs s" and "list_all relayable fs"
  shows "rs_log (fold (handle_frame nxt cnx sid False) fs s)
        = rs_log s @ concat (map (\<lambda>f. map (\<lambda>sub. Rel_Stream sub 0 (frame_bytes f)) subs) fs)
    \<and> rs_conns (fold (handle_frame nxt cnx sid False) fs s) = rs_conns s
    \<and> serves_media cnx subs (fold (handle_frame nxt cnx sid False) fs s)"
  using assms
proof (induction fs arbitrary: s)
  case (Cons f fs)
  then have "relayable f" "list_all relayable fs" by simp_all
  with media_frame_fans_out [OF Cons.prems(1) this(1), of nxt sid] Cons.IH [of "handle_frame nxt cnx sid False f s"]
  show ?case by simp
qed simp

section \<open>Pieces of a stream\<close>

interpretation frame_messages: draining FrameDecoder_feed fd_ready "\<lambda>fs. fd_ready_update (\<lambda>_. fs)"
proof
  fix b fs and d :: FrameDecoder
  show "FrameDecoder_feed b (d\<lparr>fd_ready := fs @ fd_ready d\<rparr>)
    = (FrameDecoder_feed b d)\<lparr>fd_ready := fs @ fd_ready (FrameDecoder_feed b d)\<rparr>"
    using FrameDecoder_feed_ready [of b fs d] by simp
qed simp_all

lemma map_of_conns_update:
  "map_of (conns_update cnx g l) k = map_option (if k = cnx then g else id) (map_of l k)"
  by (induction l) (auto simp: conns_update_def)

lemma live_map_of: "cnx \<in> live s \<Longrightarrow> \<exists>c. map_of (rs_conns s) cnx = Some c"
  unfolding live_def by (metis map_of_eq_None_iff not_Some_eq)

lemma decoder_of_set:
  assumes "cnx \<in> live s"
  shows "decoder_of cnx sid (set_decoder cnx sid (Some d) s) = d"
  using live_map_of [OF assms] by (auto simp: decoder_of_def set_decoder_def map_of_conns_update)

lemma map_of_emplace:
  "map_of (conns_emplace cnx l) k = (if k = cnx \<and> map_of l k = None then Some Conn_new else map_of l k)"
proof (cases "cnx \<in> fst ` set l")
  case True
  then have "map_of l cnx \<noteq> None" by (simp add: map_of_eq_None_iff)
  with True show ?thesis by (auto simp: conns_emplace_def)
next
  case False
  have "map_of (insort_key fst (cnx, v) l) k = (if k = cnx then Some v else map_of l k)" for v
    using False by (induction l) auto
  with False show ?thesis by (simp add: conns_emplace_def map_of_eq_None_iff)
qed

lemma decoder_of_emplace:
  "decoder_of cnx sid (s\<lparr>rs_conns := conns_emplace cnx (rs_conns s)\<rparr>) = decoder_of cnx sid s"
  by (simp add: decoder_of_def map_of_emplace Conn_new_def split: option.split)

text \<open>In Media mode a frame is handled without looking at the connections.\<close>

abbreviation no_conns :: "Server \<Rightarrow> Server" where
  "no_conns s \<equiv> s\<lparr>rs_conns := []\<rparr>"

lemma emit_conns: "rs_emit es (s\<lparr>rs_conns := l\<rparr>) = (rs_emit es s)\<lparr>rs_conns := l\<rparr>"
  by (simp add: rs_emit_def)

lemma send_rtmp_conns: "send_rtmp c m i (s\<lparr>rs_conns := l\<rparr>) = (send_rtmp c m i s)\<lparr>rs_conns := l\<rparr>"
  by (simp add: send_rtmp_def emit_conns split: prod.split bool.split)

lemma media_command_conns:
  "handle_media_command cnx sid cmd (s\<lparr>rs_conns := l\<rparr>) = (handle_media_command cnx sid cmd s)\<lparr>rs_conns := l\<rparr>"
proof -
  have "(send_rtmp c m i (s\<lparr>rs_conns := l, rs_router := x\<rparr>)) = (send_rtmp c m i (s\<lparr>rs_router := x\<rparr>))\<lparr>rs_conns := l\<rparr>" for c m i x
    by (simp add: send_rtmp_def rs_emit_def split: prod.split bool.split)
  then show ?thesis by (simp add: handle_media_command_def send_rtmp_conns emit_conns Let_def split: option.split)
qed

lemma media_command_options: "rs_options (handle_media_command cnx sid cmd s) = rs_options s"
  by (simp add: handle_media_command_def Let_def split: option.split)

lemma media_frame_conns:
  assumes "so_mode (rs_options s) = Media"
  shows "handle_frame nxt cnx sid dg f (s\<lparr>rs_conns := l\<rparr>) = (handle_frame nxt cnx sid dg f s)\<lparr>rs_conns := l\<rparr>"
    and "rs_options (handle_frame nxt cnx sid dg f s) = rs_options s"
    and "rs_conns (handle_frame nxt cnx sid dg f s) = rs_conns s"
proof -
  obtain okm m where m: "to_rtmp f empty_message = (okm, m)" by (cases "to_rtmp f empty_message")
  obtain ok w where w: "frame_encode f [] = (ok, w)" by (cases "frame_encode f []")
  show "handle_frame nxt cnx sid dg f (s\<lparr>rs_conns := l\<rparr>) = (handle_frame nxt cnx sid dg f s)\<lparr>rs_conns := l\<rparr>"
    using assms m w
    by (cases okm; cases ok) (simp_all add: handle_frame_def handle_media_frame_def media_command_conns rs_emit_def Let_def split: option.split)
  show "rs_options (handle_frame nxt cnx sid dg f s) = rs_options s"
    using assms m w
    by (cases okm; cases ok) (simp_all add: handle_frame_def handle_media_frame_def media_command_options Let_def split: option.split)
  show "rs_conns (handle_frame nxt cnx sid dg f s) = rs_conns s"
    using assms by (simp add: handle_frame_def)
qed

lemma media_frames_conns:
  assumes "so_mode (rs_options s) = Media"
  shows "fold (handle_frame nxt cnx sid dg) fs (s\<lparr>rs_conns := l\<rparr>) = (fold (handle_frame nxt cnx sid dg) fs s)\<lparr>rs_conns := l\<rparr>"
    and "rs_options (fold (handle_frame nxt cnx sid dg) fs s) = rs_options s"
    and "rs_conns (fold (handle_frame nxt cnx sid dg) fs s) = rs_conns s"
  using assms by (induction fs arbitrary: s) (simp_all add: media_frame_conns)

lemma stream_piece:
  assumes "so_mode (rs_options s) = Media"
  shows "let d = FrameDecoder_feed b (decoder_of cnx sid s); s' = handle_stream_frames nxt cnx sid b s in
    no_conns s' = no_conns (fold (handle_frame nxt cnx sid False) (fd_ready d) s)
    \<and> decoder_of cnx sid s' = d\<lparr>fd_ready := []\<rparr>
    \<and> ((k, i) \<noteq> (cnx, sid) \<longrightarrow> decoder_of k i s' = decoder_of k i s)"
proof -
  let ?s = "s\<lparr>rs_conns := conns_emplace cnx (rs_conns s)\<rparr>" and ?d = "FrameDecoder_feed b (decoder_of cnx sid s)"
  let ?t = "fold (handle_frame nxt cnx sid False) (fd_ready ?d) ?s"
  have t: "rs_conns ?t = conns_emplace cnx (rs_conns s)" using assms by (simp add: media_frames_conns)
  then have "cnx \<in> live ?t" by (auto simp: live_def conns_emplace_def set_insort_key)
  then have "decoder_of cnx sid (set_decoder cnx sid (Some (?d\<lparr>fd_ready := []\<rparr>)) ?t) = ?d\<lparr>fd_ready := []\<rparr>"
    by (rule decoder_of_set)
  moreover have "decoder_of k i (set_decoder cnx sid x ?t) = decoder_of k i s" if "(k, i) \<noteq> (cnx, sid)" for x
    using that t by (auto simp: decoder_of_def set_decoder_def map_of_conns_update map_of_emplace Conn_new_def split: option.split)
  moreover have "no_conns (set_decoder cnx sid x y) = no_conns y" for x y by (simp add: set_decoder_def)
  ultimately show ?thesis
    using assms by (simp add: handle_stream_frames_eq decoder_of_emplace media_frames_conns Let_def)
qed

text \<open>The frames of a stream that arrives in pieces are handled one after the other.\<close>

lemma stream_pieces:
  assumes "so_mode (rs_options s) = Media" and "fd_ready (decoder_of cnx sid s) = []"
    and "frame_messages.drain_run ds (decoder_of cnx sid s) = (fs, d)"
  shows "no_conns (fold (handle_stream_frames nxt cnx sid) ds s) = no_conns (fold (handle_frame nxt cnx sid False) fs s)
    \<and> decoder_of cnx sid (fold (handle_stream_frames nxt cnx sid) ds s) = d
    \<and> ((k, i) \<noteq> (cnx, sid) \<longrightarrow> decoder_of k i (fold (handle_stream_frames nxt cnx sid) ds s) = decoder_of k i s)"
  using assms
proof (induction ds arbitrary: s fs)
  case (Cons b ds)
  let ?d = "FrameDecoder_feed b (decoder_of cnx sid s)" and ?s = "handle_stream_frames nxt cnx sid b s"
  let ?t = "fold (handle_frame nxt cnx sid False) (fd_ready ?d) s"
  obtain gs where gs: "frame_messages.drain_run ds (?d\<lparr>fd_ready := []\<rparr>) = (gs, d)" "fs = fd_ready ?d @ gs"
    using Cons.prems(3) by (auto split: prod.splits)
  note p = stream_piece [OF Cons.prems(1), where b = b and cnx = cnx and sid = sid and nxt = nxt and k = k and i = i, unfolded Let_def]
  then have conns: "?s = ?t\<lparr>rs_conns := rs_conns ?s\<rparr>"
    by (metis (no_types, lifting) Server.surjective Server.update_convs(6))
  have opt: "so_mode (rs_options ?t) = Media" using Cons.prems(1) by (simp add: media_frames_conns)
  then have "so_mode (rs_options ?s) = Media" by (subst conns) simp
  from Cons.IH [OF this] p gs
  have ih: "no_conns (fold (handle_stream_frames nxt cnx sid) ds ?s) = no_conns (fold (handle_frame nxt cnx sid False) gs ?s)"
    "decoder_of cnx sid (fold (handle_stream_frames nxt cnx sid) ds ?s) = d"
    "(k, i) \<noteq> (cnx, sid) \<longrightarrow> decoder_of k i (fold (handle_stream_frames nxt cnx sid) ds ?s) = decoder_of k i s"
    by simp_all
  have "no_conns (fold (handle_frame nxt cnx sid False) gs ?s) = no_conns (fold (handle_frame nxt cnx sid False) gs ?t)"
    by (subst conns) (simp add: media_frames_conns [OF opt])
  with ih gs(2) show ?case by simp
qed simp

lemma fan_out_bytes:
  assumes "distinct subs"
  shows "relayed k i (concat (map (\<lambda>f. map (\<lambda>sub. Rel_Stream sub 0 (frame_bytes f)) subs) fs))
    = (if k \<in> set subs \<and> i = 0 then concat (map frame_bytes fs) else [])"
  by (induction fs) (simp_all add: relayed_fan_out [OF assms], simp add: relayed_def)

abbreviation stream_events :: "(conn \<Rightarrow> nat \<Rightarrow> u64) \<Rightarrow> conn \<Rightarrow> u64 \<Rightarrow> bytes list \<Rightarrow> Server \<Rightarrow> Server" where
  "stream_events nxt cnx sid ds s \<equiv> fold (\<lambda>b. server_callback nxt cnx (Ev_Stream_Data sid b)) ds s"

lemma media_stream:
  assumes "so_mode (rs_options s) = Media" "decoder_of cnx sid s = FrameDecoder_new kDefaultMaxPayload"
    and ok: "list_all frame_ok fs" "\<forall>f \<in> set fs. length (f_payload f) \<le> unat kDefaultMaxPayload"
    and "concat ds = concat (map frame_bytes fs)"
  shows "no_conns (stream_events nxt cnx sid ds s) = no_conns (fold (handle_frame nxt cnx sid False) fs s)"
    and "decoder_of cnx sid (stream_events nxt cnx sid ds s) = FrameDecoder_new kDefaultMaxPayload"
    and "(k, i) \<noteq> (cnx, sid) \<Longrightarrow> decoder_of k i (stream_events nxt cnx sid ds s) = decoder_of k i s"
proof -
  let ?d = "FrameDecoder_new kDefaultMaxPayload"
  have "concat ds = fold (\<lambda>f out. snd (frame_encode f out)) fs []"
    using assms(5) frame_encode_all [OF ok(1), of "[]"] by simp
  from feed_encoded_frames [OF ok this]
  have run: "frame_messages.drain_run ds (decoder_of cnx sid s) = (fs, ?d)"
    unfolding assms(2) by (subst frame_messages.drain_run_eq) (simp_all add: FrameDecoder_new_def)
  have cb: "(\<lambda>b. server_callback nxt cnx (Ev_Stream_Data sid b)) = handle_stream_frames nxt cnx sid" by (intro ext) simp
  have "fd_ready (decoder_of cnx sid s) = []" by (simp add: assms(2) FrameDecoder_new_def)
  note p = stream_pieces [OF assms(1) this run, where nxt = nxt and k = k and i = i]
  show "no_conns (stream_events nxt cnx sid ds s) = no_conns (fold (handle_frame nxt cnx sid False) fs s)"
    "decoder_of cnx sid (stream_events nxt cnx sid ds s) = ?d"
    "(k, i) \<noteq> (cnx, sid) \<Longrightarrow> decoder_of k i (stream_events nxt cnx sid ds s) = decoder_of k i s"
    unfolding cb using p by simp_all
qed

lemma no_conns_fields:
  assumes "no_conns s = no_conns t"
  shows "rs_log s = rs_log t" "rs_router s = rs_router t" "rs_options s = rs_options t" "rs_aborted s = rs_aborted t"
  using assms by (metis Server.select_convs Server.surjective Server.update_convs(6))+

lemma media_relay:
  assumes "media_inv s" "so_mode (rs_options s) = Media" "decoder_of cnx sid s = FrameDecoder_new kDefaultMaxPayload"
    and "list_all relayable fs" "\<forall>f \<in> set fs. length (f_payload f) \<le> unat kDefaultMaxPayload"
    and "concat ds = concat (map frame_bytes fs)"
  shows "relayed k i (rs_log (stream_events nxt cnx sid ds s))
      = relayed k i (rs_log s) @ (if k \<in> set (subscribers_for_publisher cnx (rs_router s)) \<and> i = 0 then concat ds else [])"
proof -
  let ?subs = "subscribers_for_publisher cnx (rs_router s)"
  have ok: "list_all frame_ok fs" using assms(4) by (simp add: list_all_iff relayable_def)
  have "serves_media cnx ?subs s" using assms(2) by (simp add: serves_media_def)
  from media_frames_fan_out [OF this assms(4), of nxt sid]
    no_conns_fields(1) [OF media_stream(1) [OF assms(2,3) ok assms(5,6), of nxt]]
  have "rs_log (stream_events nxt cnx sid ds s)
      = rs_log s @ concat (map (\<lambda>f. map (\<lambda>sub. Rel_Stream sub 0 (frame_bytes f)) ?subs) fs)" by simp
  then show ?thesis
    using fan_out_bytes [OF subscribers_distinct [OF assms(1)]] assms(6) by simp
qed

section \<open>Publishers and subscribers join\<close>

text \<open>The replies to the three commands both gateways start with.\<close>

definition status_reply :: "string \<Rightarrow> string \<Rightarrow> RtmpMessage list" where
  "status_reply code desc =
     [build_result_object 0x3FF0000000000000 connect_props connect_info,
      build_result_stream_id 0x4000000000000000 0x3FF0000000000000,
      build_on_status code desc]"

definition small_payload :: "RtmpMessage \<Rightarrow> bool" where
  "small_payload m \<longleftrightarrow> m_payload m \<noteq> [] \<and> length (m_payload m) \<le> 70000"

lemma small_payload_frame:
  assumes "small_payload m"
  shows "frame_ok (to_frame m 0)" "length (f_payload (to_frame m 0)) \<le> unat kDefaultMaxPayload"
  using assms to_frame_ok [of m 0]
  by (auto simp: small_payload_def kDefaultMaxPayload_def kVarintMax_eq to_frame_def)

lemma send_rtmp_small:
  "small_payload m \<Longrightarrow> send_rtmp cnx m sid s = rs_emit [Rel_Stream cnx sid (frame_bytes (to_frame m 0))] s"
  using small_payload_frame(1) [of m] by (simp add: send_rtmp_def frame_encode_ok)

lemmas payload_defs = small_payload_def command_builders command_message_def empty_message_def put_property_name_def
  put_u16_def put_u32_def put_f64_def string_bytes_def status_info_def connect_props_def connect_info_def

lemma small_replies:
  "list_all small_payload (status_reply ''NetStream.Publish.Start'' ''publishing'')"
  "list_all small_payload (status_reply ''NetStream.Play.Start'' ''playing'')"
  by (simp_all add: status_reply_def payload_defs)

lemma small_commands:
  "small_payload (build_connect t ''live'' ''rtmp://roqr/live'')" "small_payload (build_create_stream t)"
  "length name \<le> 65535 \<Longrightarrow> small_payload (build_publish t name)"
  "length name \<le> 65535 \<Longrightarrow> small_payload (build_play t name)"
  by (simp_all add: payload_defs)

lemma parse_preamble:
  "parse_command (build_connect t ''live'' ''rtmp://roqr/live'')
     = Some \<lparr>cmd_name = ''connect'', cmd_transaction_id = t, cmd_args = [Amf_Object
         [(''app'', Amf_String ''live''), (''tcUrl'', Amf_String ''rtmp://roqr/live''), (''type'', Amf_String ''nonprivate'')]]\<rparr>"
  "parse_command (build_create_stream t) = Some \<lparr>cmd_name = ''createStream'', cmd_transaction_id = t, cmd_args = [Amf_Null]\<rparr>"
  "length name \<le> 65535 \<Longrightarrow> parse_command (build_publish t name)
     = Some \<lparr>cmd_name = ''publish'', cmd_transaction_id = t, cmd_args = [Amf_Null, Amf_String name, Amf_String ''live'']\<rparr>"
  "length name \<le> 65535 \<Longrightarrow> parse_command (build_play t name)
     = Some \<lparr>cmd_name = ''play'', cmd_transaction_id = t, cmd_args = [Amf_Null, Amf_String name]\<rparr>"
  using commands_roundtrip [of "''live''" "''rtmp://roqr/live''" "[]" "[]" "[]" Amf_Null Amf_Null t 0]
    commands_roundtrip [of "[]" "[]" name "[]" "[]" Amf_Null Amf_Null t 0] by simp_all

lemma command_frame:
  assumes "so_mode (rs_options s) = Media" "m_type m = kTypeCommandAmf0" "parse_command m = Some cmd"
  shows "handle_frame nxt cnx sid False (to_frame m 0) s = handle_media_command cnx sid cmd s"
  using assms by (simp add: handle_frame_def handle_media_frame_def)

lemma builder_types:
  "m_type (build_connect t a u) = kTypeCommandAmf0" "m_type (build_create_stream t) = kTypeCommandAmf0"
  "m_type (build_publish t n) = kTypeCommandAmf0" "m_type (build_play t n) = kTypeCommandAmf0"
  by (simp_all add: command_builders command_message_def)

abbreviation preamble_frames :: "RtmpMessage \<Rightarrow> Frame list" where
  "preamble_frames final \<equiv> map fst (session_preamble final)"

definition reply_effects :: "conn \<Rightarrow> u64 \<Rightarrow> RtmpMessage list \<Rightarrow> relay_effect list" where
  "reply_effects cnx sid ms = map (\<lambda>m. Rel_Stream cnx sid (frame_bytes (to_frame m 0))) ms"

lemma rs_emit_emit [simp]: "rs_emit es' (rs_emit es s) = rs_emit (es @ es') s"
  by (simp add: rs_emit_def)

lemma emit_router [simp]: "(rs_emit es s)\<lparr>rs_router := r\<rparr> = rs_emit es (s\<lparr>rs_router := r\<rparr>)"
  by (simp add: rs_emit_def)

lemma publish_preamble:
  assumes media: "so_mode (rs_options s) = Media" and name: "length name \<le> 65535"
  shows "fold (handle_frame nxt cnx sid False) (preamble_frames (build_publish 0x4008000000000000 name)) s
    = rs_emit (reply_effects cnx sid (status_reply ''NetStream.Publish.Start'' ''publishing''))
        (s\<lparr>rs_router := register_publisher cnx name (rs_router s)\<rparr>)"
  using media small_replies(1)
  by (simp add: session_preamble_def command_frame [OF _ builder_types(1) parse_preamble(1)]
      command_frame [OF _ builder_types(2) parse_preamble(2)] command_frame [OF _ builder_types(3) parse_preamble(3) [OF name]]
      handle_media_command_def send_rtmp_small status_reply_def command_stream_name_def reply_effects_def)

lemma play_preamble:
  assumes media: "so_mode (rs_options s) = Media" and name: "length name \<le> 65535"
    and cached: "init_frames name (register_subscriber cnx name (rs_router s)) = Some cached"
  shows "fold (handle_frame nxt cnx sid False) (preamble_frames (build_play 0x4008000000000000 name)) s
    = rs_emit (reply_effects cnx sid (status_reply ''NetStream.Play.Start'' ''playing'') @ map (Rel_Stream cnx sid) cached)
        (s\<lparr>rs_router := register_subscriber cnx name (rs_router s)\<rparr>)"
  using media small_replies(2) cached
  by (simp add: session_preamble_def command_frame [OF _ builder_types(1) parse_preamble(1)]
      command_frame [OF _ builder_types(2) parse_preamble(2)] command_frame [OF _ builder_types(4) parse_preamble(4) [OF name]]
      handle_media_command_def send_rtmp_small status_reply_def command_stream_name_def reply_effects_def Let_def)

lemma preamble_ok:
  assumes "small_payload final"
  shows "list_all frame_ok (preamble_frames final)" "\<forall>f \<in> set (preamble_frames final). length (f_payload f) \<le> unat kDefaultMaxPayload"
  using small_payload_frame [OF assms] small_payload_frame [OF small_commands(1)] small_payload_frame [OF small_commands(2)]
  by (simp_all add: session_preamble_def)

lemma subscriber_joined:
  assumes "pub \<noteq> sub"
  shows "sub \<in> set (subscribers_for_publisher pub (register_subscriber sub name (register_publisher pub name r)))"
    and "init_frames name (register_subscriber sub name (register_publisher pub name r)) = init_frames name r"
  using assms by (auto simp: subscribers_for_publisher_def router_ops stream_at_def init_frames_def Stream_new_def Let_def split: option.split)

section \<open>Properties\<close>

lemma handle_frame_options: "rs_options (handle_frame nxt cnx sid dg f s) = rs_options s"
proof (cases "so_mode (rs_options s) = Media")
  case False
  then show ?thesis by (simp add: handle_frame_def forward_frame_def split: prod.split bool.split)
qed (rule media_frame_conns(2))

lemma stream_frames_options: "rs_options (handle_stream_frames nxt cnx sid bs s) = rs_options s"
proof -
  have "rs_options (fold (handle_frame nxt cnx sid False) fs t) = rs_options t" for fs t
    by (induction fs arbitrary: t) (simp_all add: handle_frame_options)
  then show ?thesis by (simp add: handle_stream_frames_eq set_decoder_def Let_def)
qed

lemma callback_options: "rs_options (server_callback nxt cnx e s) = rs_options s"
proof (cases e)
  case (Ev_Datagram bs)
  obtain st f where "datagram_decode bs empty_frame = (st, f)" by (cases "datagram_decode bs empty_frame")
  with Ev_Datagram show ?thesis by (cases st) (simp_all add: handle_frame_options)
qed (simp_all add: stream_frames_options purge_relay_streams_def set_decoder_def Let_def)

lemma serve_options: "rs_options (serve nxt options events) = options"
proof -
  have "rs_options (fold (\<lambda>(cnx, e). server_callback nxt cnx e) events s) = rs_options s" for s
    by (induction events arbitrary: s) (auto simp: callback_options)
  then show ?thesis by (simp add: serve_def)
qed

lemma serve_media_inv: "media_inv (serve nxt options events)"
  unfolding serve_def by (rule media_events.ops_keep) (simp add: media_inv_def Server_new_def exI [of _ "[]"])

lemma stream_events_media_inv: "media_inv s \<Longrightarrow> media_inv (stream_events nxt cnx sid ds s)"
  by (induction ds arbitrary: s) (simp_all add: media_inv_stream_frames)

lemma relayed_streams:
  "relayed k i (map (\<lambda>x. Rel_Stream cnx sid (g x)) xs) = (if k = cnx \<and> i = sid then concat (map g xs) else [])"
  by (induction xs) (auto simp: relayed_def)

text \<open>
  C2. What a subscriber of the relay server gets. In Media mode and after any events: a connection publishes a stream with the
  commands an ingest gateway starts with, another one plays it with those of an egress gateway, both on
  QUIC streams that are between two frames, and the publisher then sends media frames. However the bytes
  are cut into pieces, exactly the following is written to the subscriber's stream 0: the replies to its commands, the init frames cached
  for the stream, and the publisher's bytes, unchanged.
\<close>

theorem relay_serves:
  assumes "so_mode options = Media" "pub \<noteq> sub" "length name \<le> 65535"
    and "decoder_of pub sid (serve nxt options events) = FrameDecoder_new kDefaultMaxPayload"
    and "decoder_of sub 0 (serve nxt options events) = FrameDecoder_new kDefaultMaxPayload"
    and "concat ps = concat (map (frame_bytes \<circ> fst) (session_preamble (build_publish 0x4008000000000000 name)))"
    and "concat qs = concat (map (frame_bytes \<circ> fst) (egress_preamble name))"
    and "list_all relayable fs" "\<forall>f \<in> set fs. length (f_payload f) \<le> unat kDefaultMaxPayload"
    and "concat ds = concat (map frame_bytes fs)"
  shows "let s0 = serve nxt options events; s1 = stream_events nxt pub sid ps s0; s2 = stream_events nxt sub 0 qs s1;
             s3 = stream_events nxt pub sid ds s2
    in \<exists>cached. init_frames name (rs_router s0) = Some cached
      \<and> relayed sub 0 (rs_log s3) = relayed sub 0 (rs_log s0)
          @ concat (map (\<lambda>m. frame_bytes (to_frame m 0)) (status_reply ''NetStream.Play.Start'' ''playing''))
          @ concat cached @ concat ds"
proof -
  define s0 where "s0 = serve nxt options events"
  define s1 where "s1 = stream_events nxt pub sid ps s0"
  define s2 where "s2 = stream_events nxt sub 0 qs s1"
  have s0: "so_mode (rs_options s0) = Media" "media_inv s0" using assms(1) by (simp_all add: s0_def serve_options serve_media_inv)
  obtain cached where cached: "init_frames name (rs_router s0) = Some cached" using media_inv_init_frames [OF s0(2)] by blast
  have ps: "concat ps = concat (map frame_bytes (preamble_frames (build_publish 0x4008000000000000 name)))"
    and qs: "concat qs = concat (map frame_bytes (preamble_frames (build_play 0x4008000000000000 name)))"
    using assms(6,7) by (simp_all add: egress_preamble_def)
  note pub = media_stream [OF s0(1) assms(4) [folded s0_def] preamble_ok [OF small_commands(3) [OF assms(3)]] ps, where nxt = nxt, folded s1_def]
  note e1 = no_conns_fields [OF pub(1), unfolded publish_preamble [OF s0(1) assms(3)], simplified]
  have s1: "so_mode (rs_options s1) = Media" "decoder_of sub 0 s1 = FrameDecoder_new kDefaultMaxPayload"
    using e1 s0 pub(3) [of sub 0] assms(2,5) by (simp_all add: s0_def)
  have join: "init_frames name (register_subscriber sub name (rs_router s1)) = Some cached"
    "sub \<in> set (subscribers_for_publisher pub (register_subscriber sub name (rs_router s1)))"
    using subscriber_joined [OF assms(2), of name "rs_router s0"] cached e1(2) by simp_all
  note sub = media_stream [OF s1 preamble_ok [OF small_commands(4) [OF assms(3)]] qs, where nxt = nxt, folded s2_def]
  note e2 = no_conns_fields [OF sub(1), unfolded play_preamble [OF s1(1) assms(3) join(1)], simplified]
  have s2: "so_mode (rs_options s2) = Media" "decoder_of pub sid s2 = FrameDecoder_new kDefaultMaxPayload" "media_inv s2"
    using e2(3) s1 sub(3) [of pub sid] pub(2) assms(2) s0(2) by (simp_all add: s1_def s2_def stream_events_media_inv)
  have log: "rs_log s1 = rs_log s0 @ reply_effects pub sid (status_reply ''NetStream.Publish.Start'' ''publishing'')"
    "rs_log s2 = rs_log s1 @ reply_effects sub 0 (status_reply ''NetStream.Play.Start'' ''playing'') @ map (Rel_Stream sub 0) cached"
    using e1(1) e2(1) by (simp_all add: rs_emit_def)
  have "relayed sub 0 (rs_log (stream_events nxt pub sid ds s2)) = relayed sub 0 (rs_log s2) @ concat ds"
    using media_relay [OF s2(3,1,2) assms(8,9,10), where k = sub and i = 0 and nxt = nxt] join(2) e2(2) by simp
  with log cached assms(2) show ?thesis
    unfolding Let_def s0_def [symmetric] s1_def [symmetric] s2_def [symmetric]
    by (simp add: reply_effects_def relayed_streams relayed_streams [where g = "\<lambda>x. x", simplified])
qed

theorem relay_serves_witness:
  "let options = \<lparr>so_mode = Media, so_close_after_ready = False\<rparr>;
       publish = concat (map (frame_bytes \<circ> fst) (session_preamble (build_publish 0x4008000000000000 ''cam'')));
       play = concat (map (frame_bytes \<circ> fst) (egress_preamble ''cam''));
       s1 = stream_events demo_next 1 0 [publish] (serve demo_next options []); s2 = stream_events demo_next 2 0 [play] s1;
       s3 = stream_events demo_next 1 0 [frame_bytes demo_audio] s2
   in relayed 2 0 (rs_log s3)
        = concat (map (\<lambda>m. frame_bytes (to_frame m 0)) (status_reply ''NetStream.Play.Start'' ''playing''))
          @ frame_bytes demo_audio"
proof -
  let ?options = "\<lparr>so_mode = Media, so_close_after_ready = False\<rparr>"
  have new: "rs_conns (serve demo_next ?options []) = []" "rs_log (serve demo_next ?options []) = []"
    "init_frames ''cam'' (rs_router (serve demo_next ?options [])) = Some []"
    by (simp_all add: serve_def Server_new_def init_frames_def MediaRouter_new_def)
  have dec: "decoder_of k i (serve demo_next ?options []) = FrameDecoder_new kDefaultMaxPayload" for k i
    by (simp add: decoder_of_def new)
  have audio: "list_all relayable [demo_audio]" "\<forall>f \<in> set [demo_audio]. length (f_payload f) \<le> unat kDefaultMaxPayload"
    by (simp_all add: relayable_def demo_audio_def frame_ok_def to_rtmp_def kU32Max_def kVarintMax_eq message_types kDefaultMaxPayload_def)
  show ?thesis
    using relay_serves [of ?options 1 2 "''cam''" 0 demo_next "[]"
        "[concat (map (frame_bytes \<circ> fst) (session_preamble (build_publish 0x4008000000000000 ''cam'')))]"
        "[concat (map (frame_bytes \<circ> fst) (egress_preamble ''cam''))]" "[demo_audio]" "[frame_bytes demo_audio]", OF _ _ _ dec dec _ _ audio]
    by (simp add: new Let_def relayed_def)
qed

end
