(* ===== verification/Player_Path.thy ===== *)
theory Player_Path
  imports Egress_Gateway Chunk_Roundtrip
begin

text \<open>
  The last stretch of the path to a player: the egress gateway's writer thread (\<^verbatim>\<open>gateway/src/egress.cpp\<close>) takes the
  queued messages, the player's session cuts them into chunks, and the player's chunk reader puts
  them together again.
\<close>

section \<open>From the queue to the socket\<close>

text \<open>A number of steps of the writer thread with nothing in between.\<close>

fun writer_run :: "nat \<Rightarrow> (nat \<Rightarrow> int) \<Rightarrow> EgressGateway \<Rightarrow> EgressGateway option" where
  "writer_run 0 sock g = Some g"
| "writer_run (Suc n) sock g =
     (case writer_step (gw_writer g) sock g of None \<Rightarrow> None | Some g \<Rightarrow> writer_run n sock g)"

lemma writer_run_add:
  "writer_run (m + n) sock g = (case writer_run m sock g of None \<Rightarrow> None | Some g \<Rightarrow> writer_run n sock g)"
  by (induction m arbitrary: g) (simp_all split: option.split)

lemma send_all_writes:
  assumes "\<forall>k. 0 < sock k"
  shows "fst (snd (send_all sock data k)) = data"
proof (induction data arbitrary: k rule: length_induct)
  case (1 data)
  show ?case
  proof (cases "data = []")
    case False
    then have "length (drop (nat (sock k)) data) < length data" using assms by simp
    with 1 have "fst (snd (send_all sock (drop (nat (sock k)) data) (Suc k))) = drop (nat (sock k)) data" by blast
    moreover have "\<not> sock k \<le> 0" using assms by (simp add: not_le)
    ultimately show ?thesis
      by (subst send_all.simps) (cases "send_all sock (drop (nat (sock k)) data) (Suc k)", simp add: Let_def)
  qed (simp add: send_all.simps)
qed

lemma session_sends:
  assumes "\<forall>k. 0 < sock k" "writer_inv (ss_writer s)" "writable m"
  shows "ss_wire (snd (ServerSession_send sock m s)) = ss_wire s @ message_bytes (cw_chunk_size (ss_writer s)) m"
    and "ss_writer (snd (ServerSession_send sock m s)) = ss_writer s"
  using assms(2,3) send_all_writes [OF assms(1), of "message_bytes (cw_chunk_size (ss_writer s)) m" "ss_sends s"]
  by (auto simp: ServerSession_send_def send_message_def write_bytes socket_write_def split: prod.split)

text \<open>One message: three steps of the thread.\<close>

lemma writer_sends_one:
  assumes "\<forall>k. 0 < sock k" "gw_writer g = Wr_Pop" "writer_player (gw_core g) = Some p"
    and "pq_queue (eg_queue (gw_core g)) = (m, k) # es" "slot_at p (gw_listener g) = Some sl"
    and "writer_inv (ss_writer (sl_session sl))" "writable m"
  shows "\<exists>g' sl'. writer_run 3 sock g = Some g' \<and> gw_writer g' = Wr_Pop
    \<and> gw_core g' = (gw_core g)\<lparr>eg_queue := (eg_queue (gw_core g))\<lparr>pq_queue := es\<rparr>\<rparr>
    \<and> slot_at p (gw_listener g') = Some sl' \<and> ss_writer (sl_session sl') = ss_writer (sl_session sl)
    \<and> ss_wire (sl_session sl') = ss_wire (sl_session sl) @ message_bytes (cw_chunk_size (ss_writer (sl_session sl))) m"
proof -
  let ?core = "(gw_core g)\<lparr>eg_queue := (eg_queue (gw_core g))\<lparr>pq_queue := es\<rparr>\<rparr>"
  let ?l = "session_call p (\<lambda>s. snd (ServerSession_send sock m s)) (gw_listener g)"
  have "writer_pop (gw_core g) = Some (Some m, ?core)"
    using assms(4) by (simp add: writer_pop_def PlayerQueue_pop_def)
  moreover have "writer_player ?core = Some p" using assms(3) by (simp add: writer_player_def split: if_splits)
  ultimately have run: "writer_run 3 sock g = Some (g\<lparr>gw_core := ?core, gw_listener := ?l, gw_writer := Wr_Pop\<rparr>)"
    using assms(2) by (simp add: eval_nat_numeral)
  have "p \<in> set (pointers (gw_listener g))" using assms(5) slot_at_iff by blast
  then have "slot_at p ?l = Some (sl_session_update (\<lambda>s. snd (ServerSession_send sock m s)) sl)"
    using assms(5) by (simp add: session_call_def slot_at_map)
  with run session_sends [OF assms(1,6,7)] show ?thesis by simp
qed

lemma writer_sends:
  assumes "\<forall>k. 0 < sock k" "gw_writer g = Wr_Pop" "writer_player (gw_core g) = Some p"
    and "slot_at p (gw_listener g) = Some sl" "writer_inv (ss_writer (sl_session sl))"
    and "pq_queue (eg_queue (gw_core g)) = es" "list_all (\<lambda>(m, k). writable m) es"
  shows "\<exists>g' sl'. writer_run (3 * length es) sock g = Some g' \<and> pq_queue (eg_queue (gw_core g')) = []
    \<and> slot_at p (gw_listener g') = Some sl'
    \<and> ss_wire (sl_session sl') = ss_wire (sl_session sl)
        @ concat (map (message_bytes (cw_chunk_size (ss_writer (sl_session sl)))) (map fst es))"
  using assms(2-7)
proof (induction es arbitrary: g sl)
  case (Cons e es)
  obtain m k where e: "e = (m, k)" by (cases e)
  with Cons.prems have "writable m" "pq_queue (eg_queue (gw_core g)) = (m, k) # es" by simp_all
  from writer_sends_one [OF assms(1) Cons.prems(1,2) this(2) Cons.prems(3,4) this(1)]
  obtain g' sl' where g': "writer_run 3 sock g = Some g'" "gw_writer g' = Wr_Pop"
      "gw_core g' = (gw_core g)\<lparr>eg_queue := (eg_queue (gw_core g))\<lparr>pq_queue := es\<rparr>\<rparr>"
    and sl': "slot_at p (gw_listener g') = Some sl'" "ss_writer (sl_session sl') = ss_writer (sl_session sl)"
      "ss_wire (sl_session sl') = ss_wire (sl_session sl) @ message_bytes (cw_chunk_size (ss_writer (sl_session sl))) m"
    by auto
  have "writer_player (gw_core g') = Some p" using Cons.prems(2) g'(3) by (simp add: writer_player_def split: if_splits)
  with Cons.IH [OF g'(2) this sl'(1)] Cons.prems g'(3) sl'(2,3)
  obtain g'' sl'' where "writer_run (3 * length es) sock g' = Some g''" "pq_queue (eg_queue (gw_core g'')) = []"
    "slot_at p (gw_listener g'') = Some sl''"
    "ss_wire (sl_session sl'') = ss_wire (sl_session sl) @ message_bytes (cw_chunk_size (ss_writer (sl_session sl))) m
        @ concat (map (message_bytes (cw_chunk_size (ss_writer (sl_session sl)))) (map fst es))"
    by auto
  with g'(1) e writer_run_add [of 3 "3 * length es" sock g] show ?case by simp
qed auto

section \<open>From the socket to the player\<close>

text \<open>A player's reader that has read everything so far and knows the chunk size.\<close>

definition caught_up :: "ChunkReader \<Rightarrow> ChunkWriter \<Rightarrow> bool" where
  "caught_up r w \<longleftrightarrow> reader_idle r \<and> cr_buffer r = [] \<and> cr_ready r = [] \<and> cr_chunk_size r = unat (cw_chunk_size w)"

lemma run_writer_messages:
  assumes "writer_inv w" "list_all writable ms"
  shows "run_writer (map Write ms) w out = Some (w, out @ concat (map (message_bytes (cw_chunk_size w)) ms))"
  using assms by (induction ms arbitrary: out) (simp_all add: write_bytes)

lemma player_reads:
  assumes "caught_up r w" "writer_inv w" "list_all (\<lambda>m. call_ok (Write m)) ms"
    and "ds \<noteq> []" "concat ds = concat (map (message_bytes (cw_chunk_size w)) ms)"
  shows "cr_ready (fold ChunkReader_feed ds r) = ms \<and> caught_up ((fold ChunkReader_feed ds r)\<lparr>cr_ready := []\<rparr>) w"
proof -
  have r: "reader_idle r" "cr_buffer r = []" "cr_ready r = []" "cr_chunk_size r = unat (cw_chunk_size w)"
    using assms(1) by (simp_all add: caught_up_def)
  have ok: "list_all call_ok (map Write ms)" "list_all writable ms"
    using assms(3) by (simp_all add: list_all_iff deliverable_def)
  have "concat (map expected_messages (map Write ms)) = ms" by (induction ms) simp_all
  with run_writer_parse [OF ok(1) assms(2) r(1,4), of "[]"] run_writer_messages [OF assms(2) ok(2), of "[]"] assms(5)
  have p: "cr_ready (ChunkReader_parse (r\<lparr>cr_buffer := concat ds\<rparr>)) = ms"
    "cr_buffer (ChunkReader_parse (r\<lparr>cr_buffer := concat ds\<rparr>)) = []"
    "reader_idle (ChunkReader_parse (r\<lparr>cr_buffer := concat ds\<rparr>))"
    "cr_chunk_size (ChunkReader_parse (r\<lparr>cr_buffer := concat ds\<rparr>)) = unat (cw_chunk_size w)"
    using r(3) by auto
  have feed: "ChunkReader_feed (concat ds) r = ChunkReader_parse (r\<lparr>cr_buffer := concat ds\<rparr>)"
    using r(1,2) by (simp add: ChunkReader_feed_def reader_idle_def)
  have "ChunkReader_view (fold ChunkReader_feed ds r) = ChunkReader_view (ChunkReader_feed (concat ds) r)"
    using chunk_reader.feed_fragments [of ds r] assms(4) by simp
  moreover have "\<not> cr_failed (ChunkReader_feed (concat ds) r)" using p(3) feed by (simp add: reader_idle_def)
  ultimately have "fold ChunkReader_feed ds r = ChunkReader_feed (concat ds) r" by (rule view_alive)
  then show ?thesis
    using p feed by (simp add: caught_up_def reader_idle_def csid_state_def)
qed

end
