(* ===== verification/Programs.thy ===== *)
theory Programs
  imports Relay_Server Ingest_Gateway Egress_Gateway
begin

text \<open>
  The command lines and \<open>main\<close> functions of the programs: the relay server (\<^verbatim>\<open>tools/relayd/src/main.cpp\<close>) and the three example
  gateways (\<^verbatim>\<open>examples/\<close>).

  \<^verbatim>\<open>argv\<close> is the list of its strings after the program's name. Parsing ends with the options or with an
  exit code; \<^verbatim>\<open>std::atoi\<close> is undefined for a number that is no \<^verbatim>\<open>int\<close>, and then the result is None. A \<open>main\<close> that got as far as
  its loop is \<open>Running\<close>, with what it started; the loop ends when a signal has set \<^verbatim>\<open>g_stop\<close>, and the rest of \<open>main\<close>
  is the \<open>stop\<close> of what runs. Messages on the console are left out.
\<close>

section \<open>Numbers\<close>

definition c_isspace :: "char \<Rightarrow> bool" where
  "c_isspace c \<longleftrightarrow> of_char c \<in> {32 :: nat, 9, 10, 11, 12, 13}"

definition c_isdigit :: "char \<Rightarrow> bool" where
  "c_isdigit c \<longleftrightarrow> 48 \<le> (of_char c :: nat) \<and> (of_char c :: nat) \<le> 57"

fun atoi_digits :: "nat \<Rightarrow> string \<Rightarrow> nat" where
  "atoi_digits n [] = n"
| "atoi_digits n (c # s) = (if c_isdigit c then atoi_digits (10 * n + (of_char c - 48)) s else n)"

definition atoi :: "string \<Rightarrow> int option" where
  "atoi s =
     (let s = dropWhile c_isspace s;
          neg = (s \<noteq> [] \<and> hd s = CHR ''-'');
          s = (if s \<noteq> [] \<and> hd s \<in> {CHR ''-'', CHR ''+''} then tl s else s);
          n = int (atoi_digits 0 s);
          n = (if neg then - n else n)
      in if - (2 ^ 31) \<le> n \<and> n < 2 ^ 31 then Some n else None)"

section \<open>Command lines\<close>

datatype 'o arg = Unknown | Undefined | Known 'o

definition port_arg :: "string \<Rightarrow> (u16 \<Rightarrow> 'o) \<Rightarrow> 'o arg" where
  "port_arg v f = (case atoi v of None \<Rightarrow> Undefined | Some n \<Rightarrow> Known (f (word_of_int n)))"

record RelaydOptions = ServerOptions +
  ro_port :: u16
  ro_cert_file :: string
  ro_key_file :: string

definition default_relayd_options :: RelaydOptions where
  "default_relayd_options = \<lparr>so_mode = Echo, so_close_after_ready = False, ro_port = 4443, ro_cert_file = [], ro_key_file = []\<rparr>"

definition relayd_arg :: "string \<Rightarrow> string \<Rightarrow> RelaydOptions \<Rightarrow> RelaydOptions arg" where
  "relayd_arg a v opt =
     (if a = ''--port'' then port_arg v (\<lambda>p. opt\<lparr>ro_port := p\<rparr>)
      else if a = ''--cert'' then Known (opt\<lparr>ro_cert_file := v\<rparr>)
      else if a = ''--key'' then Known (opt\<lparr>ro_key_file := v\<rparr>)
      else if a = ''--mode'' then
        Known (opt\<lparr>so_mode := if v = ''relay'' then Relay else if v = ''media'' then Media else Echo\<rparr>)
      else Unknown)"

fun relayd_args :: "string list \<Rightarrow> RelaydOptions \<Rightarrow> (int + RelaydOptions) option" where
  "relayd_args [] opt = Some (Inr opt)"
| "relayd_args [a] opt = Some (Inl 2)"
| "relayd_args (a # v # argv) opt =
     (case relayd_arg a v opt of Unknown \<Rightarrow> Some (Inl 2) | Undefined \<Rightarrow> None | Known opt \<Rightarrow> relayd_args argv opt)"

definition ingest_arg :: "string \<Rightarrow> string \<Rightarrow> IngestOptions \<Rightarrow> IngestOptions arg" where
  "ingest_arg a v opt =
     (if a = ''--rtmp-port'' then port_arg v (\<lambda>p. opt\<lparr>io_rtmp_port := p\<rparr>)
      else if a = ''--roqr-host'' then Known (opt\<lparr>io_roqr_host := v\<rparr>)
      else if a = ''--roqr-port'' then port_arg v (\<lambda>p. opt\<lparr>io_roqr_port := p\<rparr>)
      else Unknown)"

fun ingest_args :: "string list \<Rightarrow> IngestOptions \<Rightarrow> (int + IngestOptions) option" where
  "ingest_args [] opt = Some (Inr opt)"
| "ingest_args [a] opt = Some (Inl 2)"
| "ingest_args (a # v # argv) opt =
     (case ingest_arg a v opt of Unknown \<Rightarrow> Some (Inl 2) | Undefined \<Rightarrow> None | Known opt \<Rightarrow> ingest_args argv opt)"

definition egress_arg :: "string \<Rightarrow> string \<Rightarrow> EgressOptions \<Rightarrow> EgressOptions arg" where
  "egress_arg a v opt =
     (if a = ''--rtmp-port'' then port_arg v (\<lambda>p. opt\<lparr>eo_rtmp_port := p\<rparr>)
      else if a = ''--roqr-host'' then Known (opt\<lparr>eo_roqr_host := v\<rparr>)
      else if a = ''--roqr-port'' then port_arg v (\<lambda>p. opt\<lparr>eo_roqr_port := p\<rparr>)
      else if a = ''--stream'' then Known (opt\<lparr>eo_stream_name := v\<rparr>)
      else Unknown)"

fun egress_args :: "string list \<Rightarrow> EgressOptions \<Rightarrow> (int + EgressOptions) option" where
  "egress_args [] opt = Some (Inr opt)"
| "egress_args [a] opt = Some (Inl 2)"
| "egress_args (a # v # argv) opt =
     (case egress_arg a v opt of Unknown \<Rightarrow> Some (Inl 2) | Undefined \<Rightarrow> None | Known opt \<Rightarrow> egress_args argv opt)"

type_synonym duplex_options = "IngestOptions \<times> EgressOptions"

fun duplex_arg :: "string \<Rightarrow> string \<Rightarrow> duplex_options \<Rightarrow> duplex_options arg" where
  "duplex_arg a v (i, e) =
     (if a = ''--roqr-host'' then Known (i\<lparr>io_roqr_host := v\<rparr>, e\<lparr>eo_roqr_host := v\<rparr>)
      else if a = ''--roqr-port'' then port_arg v (\<lambda>p. (i\<lparr>io_roqr_port := p\<rparr>, e\<lparr>eo_roqr_port := p\<rparr>))
      else if a = ''--stream'' then Known (i, e\<lparr>eo_stream_name := v\<rparr>)
      else Unknown)"

fun duplex_args :: "string list \<Rightarrow> duplex_options \<Rightarrow> (int + duplex_options) option" where
  "duplex_args [] opt = Some (Inr opt)"
| "duplex_args [a] opt = Some (Inl 2)"
| "duplex_args (a # v # argv) opt =
     (case duplex_arg a v opt of Unknown \<Rightarrow> Some (Inl 2) | Undefined \<Rightarrow> None | Known opt \<Rightarrow> duplex_args argv opt)"

section \<open>The programs\<close>

definition version :: string where "version = ''0.1.0''"

datatype 's outcome = Exit int | Running 's

definition with_options :: "(int + 'o) option \<Rightarrow> ('o \<Rightarrow> 's outcome) \<Rightarrow> 's outcome option" where
  "with_options r f = (case r of None \<Rightarrow> None | Some (Inl code) \<Rightarrow> Some (Exit code) | Some (Inr opt) \<Rightarrow> Some (f opt))"

definition relayd_main :: "start_answers \<Rightarrow> string list \<Rightarrow> Server outcome option" where
  "relayd_main a argv =
     with_options (relayd_args argv default_relayd_options)
       (\<lambda>opt. if ro_cert_file opt = [] \<or> ro_key_file opt = [] then Exit 2
            else case Server_start a (ServerOptions.truncate opt) Server_new of
              (False, _) \<Rightarrow> Exit 1
            | (True, s) \<Rightarrow> Running s)"

text \<open>One round of the loop, with the flag that a signal sets, and what follows it.\<close>

definition relayd_main_end :: "bool \<Rightarrow> (conn \<Rightarrow> nat \<Rightarrow> u64) \<Rightarrow> conn list \<Rightarrow> Server \<Rightarrow> int option \<times> Server" where
  "relayd_main_end g_stop nxt open s = (if \<not> g_stop then (None, s) else (Some 0, Server_stop nxt open s))"

text \<open>What the operating system answers to the listener: \<^verbatim>\<open>socket\<close>, \<^verbatim>\<open>bind\<close>, \<^verbatim>\<open>listen\<close>.\<close>

type_synonym listen_answers = "bool \<times> bool \<times> bool"

fun ingest_main :: "listen_answers \<Rightarrow> string list \<Rightarrow> IngestGateway outcome option" where
  "ingest_main (socket_ok, bind_ok, listen_ok) argv =
     with_options (ingest_args argv default_ingest_options)
       (\<lambda>opt. case IngestGateway_start opt socket_ok bind_ok listen_ok IngestGateway_new of
              (False, _) \<Rightarrow> Exit 1
            | (True, g) \<Rightarrow> Running g)"

fun egress_main :: "listen_answers \<Rightarrow> string list \<Rightarrow> EgressGateway outcome option" where
  "egress_main (socket_ok, bind_ok, listen_ok) argv =
     with_options (egress_args argv default_egress_options)
       (\<lambda>opt. case EgressGateway_start opt socket_ok bind_ok listen_ok EgressGateway_new of
              (False, _) \<Rightarrow> Exit 1
            | (True, g) \<Rightarrow> Running g)"

fun duplex_main :: "listen_answers \<Rightarrow> listen_answers \<Rightarrow> string list \<Rightarrow> (IngestGateway \<times> EgressGateway) outcome option" where
  "duplex_main (s1, b1, l1) (s2, b2, l2) argv =
     with_options (duplex_args argv (default_ingest_options\<lparr>io_rtmp_port := 1935\<rparr>, default_egress_options\<lparr>eo_rtmp_port := 1936\<rparr>))
       (\<lambda>(i, e). case IngestGateway_start i s1 b1 l1 IngestGateway_new of
              (False, _) \<Rightarrow> Exit 1
            | (True, ingest) \<Rightarrow>
                (case EgressGateway_start e s2 b2 l2 EgressGateway_new of
                   (False, _) \<Rightarrow> Exit 1
                 | (True, egress) \<Rightarrow> Running (ingest, egress)))"

text \<open>A round of the loop, or one step of the \<open>stop\<close> after it; the exit code once that has returned.\<close>

definition ingest_main_end :: "bool \<Rightarrow> IngestGateway \<Rightarrow> (int + IngestGateway) option" where
  "ingest_main_end g_stop g =
     (if \<not> g_stop then Some (Inr g)
      else map_option (\<lambda>g. if ig_stop g = Is_Idle then Inl 0 else Inr g) (IngestGateway_stop_at (ig_stop g) g))"

definition egress_main_end :: "bool \<Rightarrow> EgressGateway \<Rightarrow> (int + EgressGateway) option" where
  "egress_main_end g_stop g =
     (if \<not> g_stop then Some (Inr g)
      else map_option (\<lambda>g. if gw_stop g = Es_Idle then Inl 0 else Inr g) (EgressGateway_stop_at (gw_stop g) g))"

text \<open>The ingest gateway is stopped before the egress gateway; None in the first place says that it was.\<close>

fun duplex_main_end ::
  "bool \<Rightarrow> IngestGateway option \<times> EgressGateway \<Rightarrow> (int + IngestGateway option \<times> EgressGateway) option" where
  "duplex_main_end g_stop (Some i, e) =
     map_option (\<lambda>r. case r of Inl _ \<Rightarrow> Inr (None, e) | Inr i \<Rightarrow> Inr (Some i, e)) (ingest_main_end g_stop i)"
| "duplex_main_end g_stop (None, e) = map_option (map_sum id (\<lambda>e. (None, e))) (egress_main_end g_stop e)"

section \<open>What all command lines have in common\<close>

text \<open>Options with a value each, taken one after the other.\<close>

locale command_line =
  fixes arg :: "string \<Rightarrow> string \<Rightarrow> 'o \<Rightarrow> 'o arg"
    and args :: "string list \<Rightarrow> 'o \<Rightarrow> (int + 'o) option"
  assumes args_Nil: "args [] opt = Some (Inr opt)"
    and args_odd: "args [a] opt = Some (Inl 2)"
    and args_step: "args (a # v # argv) opt =
      (case arg a v opt of Unknown \<Rightarrow> Some (Inl 2) | Undefined \<Rightarrow> None | Known opt \<Rightarrow> args argv opt)"
begin

fun apply_args :: "(string \<times> string) list \<Rightarrow> 'o \<Rightarrow> 'o option" where
  "apply_args [] opt = Some opt"
| "apply_args ((a, v) # pairs) opt = (case arg a v opt of Known opt \<Rightarrow> apply_args pairs opt | _ \<Rightarrow> None)"

abbreviation flat :: "(string \<times> string) list \<Rightarrow> string list" where
  "flat pairs \<equiv> concat (map (\<lambda>(a, v). [a, v]) pairs)"

lemma args_append: "apply_args pairs opt = Some opt' \<Longrightarrow> args (flat pairs @ argv) opt = args argv opt'"
  by (induction pairs opt rule: apply_args.induct) (auto simp: args_step split: arg.splits)

lemma args_flat: "apply_args pairs opt = Some opt' \<Longrightarrow> args (flat pairs) opt = Some (Inr opt')"
  using args_append [of pairs opt opt' "[]"] by (simp add: args_Nil)

text \<open>Nothing but a sequence of known options is accepted, and the only exit code is 2.\<close>

lemma args_sound:
  "args argv opt = Some r \<Longrightarrow> (case r of Inl code \<Rightarrow> code = 2 | Inr opt' \<Rightarrow> \<exists>pairs. argv = flat pairs \<and> apply_args pairs opt = Some opt')"
proof (induction "length argv" arbitrary: argv opt rule: less_induct)
  case less
  consider "argv = []" | a where "argv = [a]" | a v rest where "argv = a # v # rest" by (metis neq_Nil_conv)
  then show ?case
  proof cases
    case 1
    then have "r = Inr opt" using less.prems by (simp add: args_Nil)
    with 1 show ?thesis by (auto intro!: exI [of _ "[]"] simp del: concat_eq_Nil_conv Nil_eq_concat_conv)
  next
    case 2
    then show ?thesis using less.prems by (auto simp: args_odd)
  next
    case 3
    show ?thesis
    proof (cases "arg a v opt")
      case (Known opt1)
      with 3 less.prems have "args rest opt1 = Some r" by (simp add: args_step)
      with less.hyps [of rest opt1] 3 have "case r of Inl code \<Rightarrow> code = 2
          | Inr opt' \<Rightarrow> \<exists>pairs. rest = flat pairs \<and> apply_args pairs opt1 = Some opt'" by simp
      then show ?thesis
        using 3 Known by (auto split: sum.splits intro: exI [of _ "(a, v) # pairs" for pairs])
    qed (use 3 less.prems in \<open>auto simp: args_step\<close>)
  qed
qed

end

interpretation relayd_cl: command_line relayd_arg relayd_args
  by unfold_locales simp_all

interpretation ingest_cl: command_line ingest_arg ingest_args
  by unfold_locales simp_all

interpretation egress_cl: command_line egress_arg egress_args
  by unfold_locales simp_all

interpretation duplex_cl: command_line duplex_arg duplex_args
  by unfold_locales simp_all

section \<open>Decimal numbers\<close>

fun decimal :: "nat \<Rightarrow> string" where
  "decimal n = (if n < 10 then [char_of (48 + n)] else decimal (n div 10) @ [char_of (48 + n mod 10)])"

declare decimal.simps [simp del]

lemma digit_char: "d < 10 \<Longrightarrow> (of_char (char_of (48 + d) :: char) :: nat) = 48 + d"
  by (simp add: of_char_of take_bit_nat_eq_self)

lemma atoi_digits_decimal: "atoi_digits 0 (decimal n @ rest) = atoi_digits n rest"
proof (induction n arbitrary: rest rule: decimal.induct)
  case (1 n)
  show ?case
  proof (cases "n < 10")
    case True
    then show ?thesis by (simp add: decimal.simps [of n] c_isdigit_def digit_char)
  next
    case False
    have "atoi_digits 0 (decimal n @ rest) = atoi_digits (n div 10) (char_of (48 + n mod 10) # rest)"
      using 1 [OF False, of "char_of (48 + n mod 10) # rest"] False by (simp add: decimal.simps [of n])
    also have "\<dots> = atoi_digits n rest"
    proof -
      have "n mod 10 < 10" by simp
      then have "n mod 10 \<le> 9" by linarith
      then show ?thesis by (simp add: c_isdigit_def digit_char)
    qed
    finally show ?thesis .
  qed
qed

lemma decimal_head: "\<exists>c s. decimal n = c # s \<and> c_isdigit c"
proof (induction n rule: decimal.induct)
  case (1 n)
  then show ?case
    by (cases "n < 10") (auto simp: decimal.simps [of n] c_isdigit_def digit_char)
qed

lemma atoi_decimal:
  assumes "n < 2 ^ 31"
  shows "atoi (decimal n) = Some (int n)"
proof -
  obtain c s where c: "decimal n = c # s" "c_isdigit c" using decimal_head by blast
  then have "\<not> c_isspace c" "c \<notin> {CHR ''-'', CHR ''+''}" by (auto simp: c_isdigit_def c_isspace_def)
  moreover have "atoi_digits 0 (decimal n) = n" using atoi_digits_decimal [of n "[]"] by simp
  ultimately show ?thesis using c assms by (auto simp: atoi_def Let_def)
qed

section \<open>Properties\<close>

text \<open>The settings of the relay server, and how they are written on its command line.\<close>

datatype setting = Port nat | Cert string | Key string | Use_Mode Mode

fun setting_ok :: "setting \<Rightarrow> bool" where
  "setting_ok (Port n) = (n < 2 ^ 31)"
| "setting_ok _ = True"

fun write_setting :: "setting \<Rightarrow> string \<times> string" where
  "write_setting (Port n) = (''--port'', decimal n)"
| "write_setting (Cert f) = (''--cert'', f)"
| "write_setting (Key f) = (''--key'', f)"
| "write_setting (Use_Mode Echo) = (''--mode'', ''echo'')"
| "write_setting (Use_Mode Relay) = (''--mode'', ''relay'')"
| "write_setting (Use_Mode Media) = (''--mode'', ''media'')"

fun apply_setting :: "setting \<Rightarrow> RelaydOptions \<Rightarrow> RelaydOptions" where
  "apply_setting (Port n) opt = opt\<lparr>ro_port := word_of_nat n\<rparr>"
| "apply_setting (Cert f) opt = opt\<lparr>ro_cert_file := f\<rparr>"
| "apply_setting (Key f) opt = opt\<lparr>ro_key_file := f\<rparr>"
| "apply_setting (Use_Mode m) opt = opt\<lparr>so_mode := m\<rparr>"

definition write_settings :: "setting list \<Rightarrow> string list" where
  "write_settings ss = concat (map (\<lambda>s. [fst (write_setting s), snd (write_setting s)]) ss)"

lemma relayd_arg_setting:
  "setting_ok s \<Longrightarrow> relayd_arg (fst (write_setting s)) (snd (write_setting s)) opt = Known (apply_setting s opt)"
  by (induction s rule: write_setting.induct) (simp_all add: relayd_arg_def port_arg_def atoi_decimal)

lemma apply_settings:
  "list_all setting_ok ss \<Longrightarrow> relayd_cl.apply_args (map write_setting ss) opt = Some (fold apply_setting ss opt)"
proof (induction ss arbitrary: opt)
  case (Cons s ss)
  then show ?case using relayd_arg_setting [of s opt] by (cases "write_setting s") simp
qed simp

lemma relayd_args_settings:
  assumes "list_all setting_ok ss"
  shows "relayd_args (write_settings ss @ argv) opt = relayd_args argv (fold apply_setting ss opt)"
  using relayd_cl.args_append [OF apply_settings [OF assms], where argv = argv]
  by (simp add: write_settings_def comp_def split_beta)

lemma relayd_unknown:
  "x \<notin> {''--port'', ''--cert'', ''--key'', ''--mode''} \<Longrightarrow> relayd_args (x # argv) opt = Some (Inl 2)"
  by (cases argv) (simp_all add: relayd_arg_def)

definition relayd_started :: "RelaydOptions \<Rightarrow> Server" where
  "relayd_started opt =
     Server_new\<lparr>rs_options := ServerOptions.truncate opt, rs_quic := True, rs_thread_ctx := True, rs_running := True\<rparr>"

lemma relayd_start:
  "Server_start a opts Server_new = (ok, s) \<Longrightarrow>
     ok = (sa_cert_exists a \<and> sa_key_exists a \<and> sa_context a \<and> sa_thread a)
     \<and> (ok \<longrightarrow> s = Server_new\<lparr>rs_options := opts, rs_quic := True, rs_thread_ctx := True, rs_running := True\<rparr>)"
  by (auto simp: Server_start_def Server_new_def Let_def split: if_splits)



text \<open>Conversely, the relay server runs only after such a command line.\<close>

lemma relayd_running:
  assumes "relayd_main a argv = Some (Running s)"
  obtains pairs opt where "argv = concat (map (\<lambda>(a, v). [a, v]) pairs)"
    "relayd_cl.apply_args pairs default_relayd_options = Some opt" "s = relayd_started opt"
proof -
  obtain opt where opt: "relayd_args argv default_relayd_options = Some (Inr opt)"
    and st: "Server_start a (ServerOptions.truncate opt) Server_new = (True, s)"
    using assms by (auto simp: relayd_main_def with_options_def split: option.splits sum.splits if_splits prod.splits bool.splits)
  then have "s = relayd_started opt" using relayd_start [OF st] by (simp add: relayd_started_def)
  moreover obtain pairs where "argv = concat (map (\<lambda>(a, v). [a, v]) pairs)"
    "relayd_cl.apply_args pairs default_relayd_options = Some opt"
    using relayd_cl.args_sound [OF opt] by auto
  ultimately show thesis using that by blast
qed

text \<open>A port beyond 65535 is not refused.\<close>

lemma relayd_port_wraps:
  "relayd_args [''--port'', ''70000''] default_relayd_options = Some (Inr (default_relayd_options\<lparr>ro_port := 4464\<rparr>))"
  by (simp add: relayd_arg_def port_arg_def atoi_def c_isspace_def c_isdigit_def)

end
