(* ===== verification/Spec2Isabelle.thy ===== *)
theory Spec2Isabelle
  imports Jni Relay_Path Player_Path Programs
begin

text \<open>
  A verification library for \<^bold>\<open>libroqr\<close>, RTMP over QUIC: a codec for RoQR frames, a QUIC client
  that carries them on streams or datagrams, an RTMP stack (handshake, chunks, AMF0, sessions), two
  gateways that put RTMP publishers and players on either end of a QUIC connection, a
  reference server that relays between connections, and bindings for C and Java. File names below are relative to
  \<^verbatim>\<open>src/\<close> of the repository.

  \<^bold>\<open>How the program works.\<close> An RTMP publisher opens a TCP connection to the ingest gateway. Its
  session (\<^verbatim>\<open>rtmp/src/server_session.cpp\<close>) runs the handshake, cuts the bytes into messages with the
  chunk reader, answers the AMF0 commands and hands media to the gateway. The gateway widens each
  message into a frame (\<^verbatim>\<open>gateway/src/bridge.cpp\<close>), picks a delivery mode and calls \<open>send\<close> on the
  client its connection supervisor keeps alive. The client's network thread takes the frames from
  the outbound queue, resolves the delivery, and writes to one QUIC stream per flow or sends a
  datagram. On the far side (the relay server, or a client of the egress gateway) a frame decoder
  per stream puts the frames together again; the flow table buffers frames of flows not yet known.
  The egress gateway caches decoder configuration, drops video that follows a gap, queues for the
  player and writes chunks to it.

  \<^bold>\<open>Conventions of the model.\<close> A C++ class is a \<^theory_text>\<open>record\<close> with one field per member, a method is
  a function from the record (and its arguments) to the new record (and the returned value), an
  enum or variant is a \<^theory_text>\<open>datatype\<close>. Fixed-width integers are words, sizes are naturals where the
  code checks before it adds and words where it does not, byte spans are lists of 8-bit words;
  an access outside a span, a call that blocks, and behaviour C++ leaves undefined are the value
  None of an option. Threads are interleaved: a thread is a program counter, its pieces between two locks,
  waits or blocking calls are the steps, and a step that has to wait is None. An \<open>out\<close> parameter is an argument and a result, so that what a failing call
  leaves behind is visible. A mutex makes the region it protects one step. Code the
  repository does not contain is a parameter: the picoquic calls answer through a record of
  functions (\<open>pico\<close>, \<open>connect_answers\<close>), a socket's \<open>send\<close> through a function of the number of calls
  made, the random generator through the bytes it returns. Calls \<open>on\<close> picoquic, on the socket and
  on registered handlers are recorded in a log that is a field of the object.

  \<^bold>\<open>The theories, in the order of their dependencies.\<close>

  \<^item> \<open>Prelude\<close>: word types, the big-endian numbers of the wire formats, list and option lemmas, the
    theorem collections.
  \<^item> \<open>Interfaces\<close>: the contracts several components have in common, as locales. \<open>prefix_codec\<close>
    and \<open>list_codec\<close>: a decoder that takes one encoded value off a byte string (interpreted by
    \<open>Varint\<close> and \<open>Amf0\<close>). \<open>incremental_parser\<close> and \<open>incremental_stream\<close>: a buffer and a loop of
    steps, where the way the input was cut does not matter (\<open>Frame_Codec\<close>, \<open>Chunk_Reader\<close>, both
    handshake ends). \<open>draining\<close>: feeding in pieces and emptying the output in between
    (\<open>Server_Session\<close>, \<open>Relay_Path\<close>). \<open>fifo\<close>: queues (\<open>Delivery\<close>, \<open>Frame_Codec\<close>, \<open>Chunk_Reader\<close>).
    \<open>guarded_ops\<close>: an invariant kept by every call is kept by every sequence of calls (six
    components). \<open>ending_reporter\<close>: the close of an object is reported once and only with the
    object closed (the client, in \<open>Supervisor\<close>). \<open>ordered_cache\<close>: a map with the order of first
    insertion (the init caches of the router and of the egress gateway). Two further locales stand where they are needed:
    \<open>session_owner\<close> in \<open>Listener\<close>, what an application may do in a session's handlers with the sessions of the listener it
    owns, interpreted by both gateways in \<open>Gateways\<close>; and \<open>command_line\<close> in \<open>Programs\<close>, options with values, interpreted by
    the four programs.
  \<^item> \<open>Varint\<close> (\<^verbatim>\<open>core/src/varint.cpp\<close>): \<open>varint_size\<close>, \<open>varint_encode\<close>, \<open>varint_decode\<close>.
  \<^item> \<open>Frame_Codec\<close> (\<^verbatim>\<open>core/src/frame.cpp\<close>): \<open>frame_encode\<close>, \<open>datagram_decode\<close> and the \<open>FrameDecoder\<close>.
  \<^item> \<open>Flow_Table\<close> (\<^verbatim>\<open>core/src/flow_table.cpp\<close>): the states of flows and the bounded buffer.
  \<^item> \<open>Delivery\<close> (\<^verbatim>\<open>quic/src/delivery.cpp\<close> and the outbound queue).
  \<^item> \<open>Rtmp_Message\<close>, \<open>Chunk_Writer\<close>, \<open>Chunk_Reader\<close>, \<open>Chunk_Roundtrip\<close> (\<^verbatim>\<open>rtmp/src/chunk_writer.cpp\<close>,
    \<^verbatim>\<open>rtmp/src/chunk_reader.cpp\<close>): both ends of the chunk stream, and their composition.
  \<^item> \<open>Amf0\<close> (\<^verbatim>\<open>rtmp/src/amf0.cpp\<close>), \<open>Handshake\<close> (\<^verbatim>\<open>rtmp/src/handshake.cpp\<close>), \<open>Classify\<close>
    (\<^verbatim>\<open>rtmp/src/classify.cpp\<close>).
  \<^item> \<open>Bridge\<close>, \<open>Rtmp_Commands\<close>, \<open>Gateway_Queues\<close> (\<^verbatim>\<open>gateway/src/bridge.cpp\<close>,
    \<^verbatim>\<open>gateway/src/rtmp_commands.cpp\<close>, \<^verbatim>\<open>gateway/include/roqr/gateway/gap.hpp\<close>,
    \<^verbatim>\<open>gateway/src/player_queue.cpp\<close>).
  \<^item> \<open>Client\<close> (\<^verbatim>\<open>quic/src/client.cpp\<close>): the client object, the picoquic callback, the pass of the network
    thread (\<open>service\<close>) and the application's calls; \<open>run_client_call\<close> is any one of them, and a life
    of a client is a list of them.
  \<^item> \<open>Supervisor\<close> (\<^verbatim>\<open>gateway/src/connection_supervisor.cpp\<close>): the program counter of the thread names
    the pieces of \<open>run\<close> between two locks, waits or calls; \<open>sup_step\<close> interleaves them with the
    application and the client's network thread.
  \<^item> \<open>Media_Router\<close>, \<open>Relay_Server\<close> (\<^verbatim>\<open>tools/relayd/src/\<close>): the server's modes and every callback.
  \<^item> \<open>Server_Session\<close> (\<^verbatim>\<open>rtmp/src/server_session.cpp\<close>): one TCP session.
  \<^item> \<open>Listener\<close> (also \<^verbatim>\<open>rtmp/src/server_session.cpp\<close>): the accept thread, the threads of the sessions and the
    steps of \<open>stop\<close>.
  \<^item> \<open>Gateways\<close> (\<^verbatim>\<open>gateway/src/ingest.cpp\<close>, \<^verbatim>\<open>gateway/src/egress.cpp\<close>): what both gateways do in the handlers of
    sessions and connections.
  \<^item> \<open>Ingest_Gateway\<close>, \<open>Egress_Gateway\<close> (the same files): the whole gateways, with \<open>start\<close>, \<open>stop\<close> and the waits,
    over the listener, the supervisor with its client, and the writer thread.
  \<^item> \<open>Ffi\<close> (\<^verbatim>\<open>ffi/src/roqr_ffi.cpp\<close>, \<^verbatim>\<open>ffi/src/roqr_rtmp_ffi.cpp\<close>), \<open>Jni\<close> (\<^verbatim>\<open>jni/src/roqr_jni.cpp\<close>): the C
    interface, and the Java binding on top of it.
  \<^item> \<open>Programs\<close> (\<^verbatim>\<open>tools/relayd/src/main.cpp\<close>, \<^verbatim>\<open>examples/\<close>): the command lines and \<open>main\<close> functions of the relay server and
    of the three example gateways.
  \<^item> \<open>Relay_Path\<close>: the relay server between a publishing and a playing connection. \<open>Player_Path\<close>: the egress gateway's writer
    thread, its session's chunk writer and the player's chunk reader.
  \<^item> This theory: the path from an RTMP publisher through the ingest gateway, the relay server and the egress gateway
    to an RTMP player.

  \<^bold>\<open>What is shown.\<close>

  \<^item> Round trips: varints, frames as datagrams and over a stream cut at any place, chunks with any
    interleaving of messages and changes of the chunk size, AMF0 values, commands, the bridge, Java
    frames.
  \<^item> The composition of all parts (\<open>publisher_to_player\<close> below): from the bytes an RTMP publisher sends, handshake included, over the ingest
    gateway, the relay server and the egress gateway to the messages an RTMP player reads; and the relay server's part from the first command of
    either gateway on (\<open>relay_serves\<close>).
  \<^item> Soundness on arbitrary bytes: the decoders accept only what is within the limits, independent of how the
    input was cut.
  \<^item> Resource bounds that no peer can exceed: frame decoder, chunk reader, flow table, player queue.
  \<^item> The client refines an abstract connection that writes only to the stream a flow owns (\<open>cnx_step\<close>),
    never gives two flows one stream, reports its close once, loses no frame without counting it, and
    delivers what the peer sent.
  \<^item> The supervisor never misses a dropped connection, its thread ends within twelve pieces of a
    \<open>stop\<close>, and its backoff is the documented geometric sequence.
  \<^item> The relay forwards to every connection but the sender, keeps streams of different origin
    apart, and replays init frames only to their subscribers; the router's caches are a function of
    the history; the egress gateway primes a late player and releases video only after a key frame
    closed the gap.
  \<^item> Lifecycles of objects with threads: no thread of a listener or a gateway touches a session that was destroyed,
    a handler never runs after \<open>stop\<close>, the \<open>stop\<close> of the listener, of the supervisor and of the ingest gateway returns; the ingest gateway keeps its first
    supervisor and the egress gateway's queue is closed for good, so neither works after \<open>stop\<close> and another \<open>start\<close>.
  \<^item> The C interface reports what the client did and queues exactly the frame it was given; the Java binding leaks
    no reference and never calls into one it released.
  \<^item> The relay server's command line is read back as it was written, and every other one ends with the documented exit code.
  \<^item> A session answers exactly what its commands ask for, acknowledges within the window, and closes
    exactly once; the handshake completes between any two ends and fails only as specified.

  \<^bold>\<open>Termination and bounds.\<close> Loops of the code are total functions, with the length of the unread
  buffer, the number of queued items or the number of entries left as the measure; no fuel is used for
  them. The recursion of the AMF0 decoder is on the depth budget the code itself counts
  (\<open>kMaxDepth\<close>). The chunk writer's loop does not end for chunk size zero, so it is a
  \<^theory_text>\<open>partial_function\<close>, and it is shown to return for every other size. The backoff loop runs at
  most 62 times as in the code, and does not overflow for a maximal delay up to \<open>2 ^ 62\<close>
  milliseconds; above, the model's value is None. The supervisor's bound of twelve is the length of its
  longest path from any piece to the end of the thread. After the listener's \<open>stop\<close> was called at most six
  steps of it and of the accept thread are left, and three per session thread besides its pending handlers. The ingest gateway's
  \<open>stop\<close> has eight steps: one to begin, five of the listener's, one for the supervisor and the join, for which the
  supervisor's bound holds again. In \<open>Player_Path\<close> the writer thread runs for three steps per queued message, exactly what it takes to
  empty the queue.

  \<^bold>\<open>Not modelled.\<close> \<^verbatim>\<open>quic/src/context.cpp\<close> beyond the values it passes on, since it is a sequence of picoquic
  calls; the console output of the programs and the delivery of signals (a signal is the flag it sets); the socket options and
  addresses a listener passes to the operating system; a \<open>start\<close> of the egress gateway while the supervisor of an earlier one
  still runs; the lookup of Java classes and methods, which exist beside the binding; data races on fields the code
  reads without a lock.
\<close>

section \<open>From an RTMP publisher to the far end of the connection\<close>

text \<open>The bytes a client wrote to one stream.\<close>

definition written :: "u64 \<Rightarrow> effect list \<Rightarrow> bytes" where
  "written sid log = concat (map (\<lambda>e. case e of Eff_Add_To_Stream s w \<Rightarrow> if s = sid then w else [] | _ \<Rightarrow> []) log)"

lemma written_simps [simp]:
  "written sid [] = []"
  "written sid (xs @ ys) = written sid xs @ written sid ys"
  "written sid (Eff_Add_To_Stream s w # xs) = (if s = sid then w else []) @ written sid xs"
  "written sid (Eff_Wake # xs) = written sid xs"
  by (simp_all add: written_def)

lemma sends_on_stream:
  assumes "qc_flow_streams c fid = Some sid"
  shows "written sid (qc_log (fold (send_on_stream p fid) ws c)) = written sid (qc_log c) @ concat ws
    \<and> qc_flow_streams (fold (send_on_stream p fid) ws c) fid = Some sid"
  using assms
proof (induction ws arbitrary: c)
  case (Cons w ws)
  then have "send_on_stream p fid w c = emit (Eff_Add_To_Stream sid w) c"
    by (simp add: send_on_stream_def stream_for_flow_def)
  with Cons.IH [of "emit (Eff_Add_To_Stream sid w) c"] Cons.prems show ?case by (simp add: emit_def)
qed simp

definition publish_message :: "RtmpMessage \<Rightarrow> Client \<Rightarrow> Client" where
  "publish_message m c = snd (Client_send (to_frame m 0) (mode_for m) c)"

abbreviation outbound_of :: "RtmpMessage \<Rightarrow> Outbound" where
  "outbound_of m \<equiv> \<lparr>ob_frame = to_frame m 0, ob_mode = mode_for m\<rparr>"

text \<open>A client that can send: connected, not closing, with nothing pending.\<close>

lemma publish_all:
  assumes "qc_started c" "qc_thread_ctx c" "\<not> qc_closed c" "\<not> qc_close_requested c"
    and "list_all (\<lambda>m. m_payload m \<noteq> []) ms"
  shows "fold publish_message ms c =
    c\<lparr>qc_outbound := \<lparr>oq_items = oq_items (qc_outbound c) @ map outbound_of ms\<rparr>,
      qc_log := qc_log c @ replicate (length ms) Eff_Wake\<rparr>"
  using assms
proof (induction ms arbitrary: c)
  case (Cons m ms)
  let ?c = "c\<lparr>qc_outbound := \<lparr>oq_items = oq_items (qc_outbound c) @ [outbound_of m]\<rparr>, qc_log := qc_log c @ [Eff_Wake]\<rparr>"
  have "publish_message m c = ?c"
    using Cons.prems
    by (cases "qc_outbound c")
      (simp add: publish_message_def Client_send_def to_frame_def outbound_push_def wake_def emit_def)
  with Cons.IH [of ?c] Cons.prems show ?case by (simp add: replicate_append_same)
qed simp

definition carriable :: "RtmpMessage \<Rightarrow> bool" where
  "carriable m \<longleftrightarrow> m_payload m \<noteq> [] \<and> length (m_payload m) \<le> unat kDefaultMaxPayload"

lemma carriable_frame: "carriable m \<Longrightarrow> frame_ok (to_frame m 0)"
  by (rule to_frame_ok) (auto simp: carriable_def kDefaultMaxPayload_def kVarintMax_eq)

lemma publish_item:
  assumes "\<not> qc_datagrams_ok c" "co_datagram_fallback (qc_options c) = Fallback_Stream" "carriable m"
  shows "service_item p (outbound_of m) c = send_on_stream p 0 (frame_bytes (to_frame m 0)) c"
  using assms frame_encode_ok [OF carriable_frame [OF assms(3)], of "[]"]
  by (cases "mode_for m") (simp_all add: service_item_def resolve_delivery_def to_frame_def)

lemma send_on_stream_keeps:
  "qc_datagrams_ok (send_on_stream p fid w c) = qc_datagrams_ok c"
  "qc_options (send_on_stream p fid w c) = qc_options c"
  by (simp_all add: send_on_stream_def stream_for_flow_def emit_def Let_def split: option.split)

lemma publish_items:
  assumes "\<not> qc_datagrams_ok c" "co_datagram_fallback (qc_options c) = Fallback_Stream" "list_all carriable ms"
  shows "fold (service_item p) (map outbound_of ms) c = fold (send_on_stream p 0) (map (\<lambda>m. frame_bytes (to_frame m 0)) ms) c"
  using assms by (induction ms arbitrary: c) (simp_all add: publish_item send_on_stream_keeps)

text \<open>One pass of the network thread writes the frames of everything published to the flow's stream.\<close>

lemma publish_written:
  assumes "idle c" "\<not> qc_datagrams_ok c" "co_datagram_fallback (qc_options c) = Fallback_Stream"
    and "list_all carriable ms" and "qc_flow_streams c 0 = Some sid"
  shows "written sid (qc_log (service p (fold publish_message ms c)))
    = written sid (qc_log c) @ concat (map (\<lambda>m. frame_bytes (to_frame m 0)) ms)"
proof -
  let ?c = "c\<lparr>qc_outbound := \<lparr>oq_items = map outbound_of ms\<rparr>, qc_log := qc_log c @ replicate (length ms) Eff_Wake\<rparr>"
  have i: "qc_started c" "qc_thread_ctx c" "\<not> qc_closed c" "\<not> qc_close_requested c" "qc_flow_requests c = []"
    "qc_reset_requests c = []" "qc_outbound c = \<lparr>oq_items = []\<rparr>"
    using assms(1) by (simp_all add: idle_def)
  have "list_all (\<lambda>m. m_payload m \<noteq> []) ms" using assms(4) by (simp add: list_all_iff carriable_def)
  with i have "fold publish_message ms c = ?c" by (simp add: publish_all)
  moreover have "service p ?c = (fold (service_item p) (map outbound_of ms) ?c)\<lparr>qc_outbound := \<lparr>oq_items = []\<rparr>\<rparr>"
  proof -
    have "service_requests ?c = ?c" using i(5,6) by (cases c) (simp add: service_requests_def)
    with i(4) show ?thesis by (simp add: service_open)
  qed
  moreover have "fold (service_item p) (map outbound_of ms) ?c
      = fold (send_on_stream p 0) (map (\<lambda>m. frame_bytes (to_frame m 0)) ms) ?c"
    by (rule publish_items) (use assms in simp_all)
  moreover have "written sid (replicate n Eff_Wake) = []" for n by (induction n) simp_all
  ultimately show ?thesis
    using sends_on_stream [of ?c 0 sid p] assms(5) by simp
qed

text \<open>The bytes of frames, delivered in pieces to a client that is between two frames on that stream.\<close>

lemma peer_delivers:
  assumes "list_all frame_ok fs" "\<forall>f \<in> set fs. length (f_payload f) \<le> unat kDefaultMaxPayload"
    and "ds \<noteq> []" "concat ds = concat (map frame_bytes fs)"
    and "pred_option (\<lambda>d. d = FrameDecoder_new kDefaultMaxPayload) (qc_decoders peer sid)"
    and "qc_message_handler peer" "list_all (\<lambda>f. flow_state (qc_flows peer) (f_flow_id f) = Active) fs"
  shows "qc_log (fold (run_client_call p) (map (\<lambda>b. Call_Event (Ev_Stream_Data sid b)) ds) peer)
      = qc_log peer @ map Eff_Deliver fs"
proof -
  let ?d = "FrameDecoder_new kDefaultMaxPayload"
  have bytes: "concat ds = fold (\<lambda>f out. snd (frame_encode f out)) fs []"
    using assms(4) frame_encode_all [OF assms(1), of "[]"] by simp
  have feed: "fold FrameDecoder_feed ds ?d
      = \<lparr>fd_buffer = [], fd_ready = fs, fd_max_payload = kDefaultMaxPayload, fd_malformed = False\<rparr>"
    using assms(1,2) bytes by (rule feed_encoded_frames)
  have calls: "fold (run_client_call p) (map (\<lambda>b. Call_Event (Ev_Stream_Data sid b)) ds) q
      = fold (\<lambda>b. on_stream_data sid b False) ds q" for q
    by (induction ds arbitrary: q) simp_all
  have "qc_log (fold (\<lambda>b. on_stream_data sid b False) ds peer) = qc_log (gate_frames fs peer)"
  proof (cases "qc_decoders peer sid")
    case None
    then show ?thesis using stream_delivery [OF assms(1-3) bytes] by simp
  next
    case (Some d)
    then have "qc_decoders peer sid = Some ?d" using assms(5) by simp
    then show ?thesis using on_stream_data_fragments [of peer sid ?d ds] feed by (simp add: FrameDecoder_new_def)
  qed
  then show ?thesis using gate_frames_active [OF assms(7,6)] calls by simp
qed

section \<open>From the publisher's socket to the far end\<close>

definition gateway_client :: "Ingest \<Rightarrow> Client option" where
  "gateway_client g = (case in_supervisor g of None \<Rightarrow> None | Some s \<Rightarrow> sv_client s)"

text \<open>The gateway hands what its publishers' sessions report to a connected client.\<close>

lemma forward_connected:
  assumes "in_supervisor g = Some s" "sv_connected s" "sv_client s = Some c" "m_payload m \<noteq> []"
  shows "forward m g = g\<lparr>in_supervisor := Some (s\<lparr>sv_client := Some (publish_message m c)\<rparr>)\<rparr>"
  using assms by (simp add: forward_def Supervisor_send_def publish_message_def split: prod.split)

lemma forward_all:
  assumes "in_supervisor g = Some s" "sv_connected s" "sv_client s = Some c" "list_all (\<lambda>m. m_payload m \<noteq> []) ms"
  shows "gateway_client (fold ingest_event (map Ses_Message ms) g) = Some (fold publish_message ms c)"
  using assms
proof (induction ms arbitrary: g s c)
  case (Cons m ms)
  then have "ingest_event (Ses_Message m) g = g\<lparr>in_supervisor := Some (s\<lparr>sv_client := Some (publish_message m c)\<rparr>)\<rparr>"
    by (simp add: forward_connected)
  with Cons.IH [of "ingest_event (Ses_Message m) g" "s\<lparr>sv_client := Some (publish_message m c)\<rparr>" "publish_message m c"] Cons.prems
  show ?case by simp
qed (simp add: gateway_client_def)

text \<open>A message a publisher may send as media: no command and no protocol control, and within the limits.\<close>

definition media_message :: "RtmpMessage \<Rightarrow> bool" where
  "media_message m \<longleftrightarrow> carriable m \<and> call_ok (Write m) \<and> m_type m \<noteq> kTypeCommandAmf0 \<and> \<not> is_protocol_control (m_type m)"

fun written_message :: "writer_call \<Rightarrow> RtmpMessage list" where
  "written_message (Write m) = [m]"
| "written_message (Set_Size n) = []"

definition media_call :: "writer_call \<Rightarrow> bool" where
  "media_call c \<longleftrightarrow> list_all media_message (written_message c)"

lemma media_calls:
  assumes "list_all media_call cs"
  shows "list_all call_ok cs"
    and "list_all (\<lambda>m. m_type m \<noteq> kTypeCommandAmf0) (concat (map expected_messages cs))"
    and "filter (\<lambda>m. \<not> is_protocol_control (m_type m)) (concat (map expected_messages cs)) = concat (map written_message cs)"
    and "list_all carriable (concat (map written_message cs))"
proof -
  have size: "m_type (size_message n) = kTypeSetChunkSize" for n by (simp add: size_message_def)
  have one: "call_ok c \<and> list_all (\<lambda>m. m_type m \<noteq> kTypeCommandAmf0) (expected_messages c)
      \<and> filter (\<lambda>m. \<not> is_protocol_control (m_type m)) (expected_messages c) = written_message c
      \<and> list_all carriable (written_message c)" if "media_call c" for c
    using that by (cases c) (auto simp: media_call_def media_message_def size is_protocol_control_def message_types)
  show "list_all call_ok cs" "list_all (\<lambda>m. m_type m \<noteq> kTypeCommandAmf0) (concat (map expected_messages cs))"
    "filter (\<lambda>m. \<not> is_protocol_control (m_type m)) (concat (map expected_messages cs)) = concat (map written_message cs)"
    "list_all carriable (concat (map written_message cs))"
    using assms by (induction cs) (simp_all add: one)
qed

abbreviation publisher_session :: "(nat \<Rightarrow> byte) \<Rightarrow> (nat \<Rightarrow> int) \<Rightarrow> bytes \<Rightarrow> bytes list \<Rightarrow> Session" where
  "publisher_session rng sock c1 bs \<equiv>
     fold (session_recv rng sock) (client_hello rng c1 @ bs) (ServerSession_new ingest_events)"

lemma publisher_events:
  assumes "\<forall>k. 0 < sock k" "length c1 = kHandshakePacketSize" "list_all media_call cs"
    and "run_writer cs (ChunkWriter_new kDefaultChunkSize) [] = Some (w, out)"
    and "concat bs = out" "bs \<noteq> []" "[] \<notin> set bs"
  shows "handled (publisher_session rng sock c1 bs) = map Ses_Message (concat (map written_message cs))"
proof -
  note m = media_calls [OF assms(3)]
  let ?s = "ServerSession_new ingest_events\<lparr>ss_phase := Ph_Message\<rparr>"
  have "ss_log (publisher_session rng sock c1 bs) = ss_log (fold (dispatch sock) (concat (map expected_messages cs)) ?s)"
    using session_connection [OF assms(1,2) m(1) assms(4-7), of rng ingest_events]
    by (simp add: session_core_def)
  then have "ss_log (publisher_session rng sock c1 bs) = map Ses_Message (concat (map written_message cs))"
    using dispatch_all_media [OF m(2), of ?s sock] m(3) by (simp add: ServerSession_new_def ingest_events_def)
  then show ?thesis by (simp add: handled_def comp_def)
qed

section \<open>From an RTMP publisher to an RTMP player\<close>

text \<open>A network that cuts what it carries into pieces.\<close>

definition network :: "(bytes \<Rightarrow> bytes list) \<Rightarrow> bool" where
  "network net \<longleftrightarrow> (\<forall>b. concat (net b) = b \<and> net b \<noteq> [] \<and> (b \<noteq> [] \<longrightarrow> [] \<notin> set (net b)))"

lemma networkD: "network net \<Longrightarrow> concat (net b) = b" "network net \<Longrightarrow> net b \<noteq> []"
  "network net \<Longrightarrow> b \<noteq> [] \<Longrightarrow> [] \<notin> set (net b)"
  by (simp_all add: network_def)

text \<open>What each station adds to its output: the ingest gateway, the relay, a subscribed client, and the egress gateway.\<close>

definition ingest_output :: "pico \<Rightarrow> u64 \<Rightarrow> session_event list \<Rightarrow> Ingest \<Rightarrow> bytes" where
  "ingest_output p sid events g =
     (case (gateway_client g, gateway_client (fold ingest_event events g)) of
        (Some c, Some c') \<Rightarrow> drop (length (written sid (qc_log c))) (written sid (qc_log (service p c')))
      | _ \<Rightarrow> [])"

definition relay_output :: "(conn \<Rightarrow> nat \<Rightarrow> u64) \<Rightarrow> conn \<Rightarrow> u64 \<Rightarrow> conn \<Rightarrow> bytes list \<Rightarrow> Server \<Rightarrow> bytes" where
  "relay_output nxt pub sid sub ds srv =
     drop (length (relayed sub 0 (rs_log srv)))
       (relayed sub 0 (rs_log (fold (\<lambda>b. server_callback nxt pub (Ev_Stream_Data sid b)) ds srv)))"

definition handled_frames :: "pico \<Rightarrow> bytes list \<Rightarrow> Client \<Rightarrow> Frame list" where
  "handled_frames p ds c =
     concat (map (\<lambda>e. case e of Eff_Deliver f \<Rightarrow> [f] | _ \<Rightarrow> [])
       (drop (length (qc_log c)) (qc_log (fold (run_client_call p) (map (\<lambda>b. Call_Event (Ev_Stream_Data 0 b)) ds) c))))"

definition session_wire :: "nat \<Rightarrow> EgressGateway \<Rightarrow> bytes" where
  "session_wire p g = (case slot_at p (gw_listener g) of None \<Rightarrow> [] | Some sl \<Rightarrow> ss_wire (sl_session sl))"

definition egress_output :: "(nat \<Rightarrow> int) \<Rightarrow> nat \<Rightarrow> Frame list \<Rightarrow> EgressGateway \<Rightarrow> bytes" where
  "egress_output sock p fs g =
     (let g' = g\<lparr>gw_core := fold on_frame fs (gw_core g)\<rparr>
      in case writer_run (3 * length (pq_queue (eg_queue (gw_core g')))) sock g' of
           None \<Rightarrow> []
         | Some g'' \<Rightarrow> drop (length (session_wire p g)) (session_wire p g''))"

text \<open>The messages a player is to get: all but the video the gap tracker holds back.\<close>

fun gate_messages :: "GapTracker \<Rightarrow> RtmpMessage list \<Rightarrow> RtmpMessage list" where
  "gate_messages gt [] = []"
| "gate_messages gt (m # ms) =
     (if m_type m = 9 then
        (case GapTracker_accept (m_timestamp m)
                (case classify_video (m_payload m) of None \<Rightarrow> Class_Unknown | Some info \<Rightarrow> mi_cls info) gt of
           (ok, gt) \<Rightarrow> (if ok then [m] else []) @ gate_messages gt ms)
      else m # gate_messages gt ms)"

lemma gate_messages_sub: "set (gate_messages gt ms) \<subseteq> set ms"
  by (induction gt ms rule: gate_messages.induct) (auto split: prod.splits if_splits)

lemma live_entries_gate:
  assumes "list_all (\<lambda>m. m_type m \<noteq> kTypeCommandAmf0) ms"
  shows "map fst (live_entries gt (map (\<lambda>m. to_frame m 0) ms)) = gate_messages gt ms"
  using assms
  by (induction ms arbitrary: gt)
    (auto simp: entry_of_def on_frame_check_def accept_video_def cache_message_def Let_def split: prod.split bool.split if_splits)

lemma ingest_station:
  assumes "in_supervisor g = Some s" "sv_connected s" "sv_client s = Some c"
    and "idle c" "\<not> qc_datagrams_ok c" "co_datagram_fallback (qc_options c) = Fallback_Stream" "qc_flow_streams c 0 = Some sid"
    and "list_all carriable ms"
  shows "ingest_output p sid (map Ses_Message ms) g = concat (map (\<lambda>m. frame_bytes (to_frame m 0)) ms)"
proof -
  have "list_all (\<lambda>m. m_payload m \<noteq> []) ms" using assms(8) by (simp add: list_all_iff carriable_def)
  from forward_all [OF assms(1-3) this] publish_written [OF assms(4-6,8,7), of p] show ?thesis
    using assms(1,3) by (simp add: ingest_output_def gateway_client_def)
qed

lemma carriable_frames:
  assumes "list_all carriable ms"
  shows "list_all frame_ok (map (\<lambda>m. to_frame m 0) ms)"
    and "\<forall>f \<in> set (map (\<lambda>m. to_frame m 0) ms). length (f_payload f) \<le> unat kDefaultMaxPayload"
  using assms carriable_frame by (auto simp: list_all_iff carriable_def to_frame_def)

lemma relay_station:
  assumes "media_inv srv" "so_mode (rs_options srv) = Media" "decoder_of pub sid srv = FrameDecoder_new kDefaultMaxPayload"
    and "sub \<in> set (subscribers_for_publisher pub (rs_router srv))"
    and "list_all carriable ms" "list_all (\<lambda>m. m_type m \<noteq> kTypeCommandAmf0) ms"
    and "concat ds = concat (map (\<lambda>m. frame_bytes (to_frame m 0)) ms)"
  shows "relay_output nxt pub sid sub ds srv = concat ds"
proof -
  note ok = carriable_frames [OF assms(5)]
  have frame_type: "f_message_type (to_frame m 0) = m_type m" for m by (simp add: to_frame_def)
  have "list_all relayable (map (\<lambda>m. to_frame m 0) ms)"
    using ok(1) assms(6) by (auto simp: list_all_iff relayable_def frame_type)
  from media_relay(1) [OF assms(1-3) this ok(2), of ds sub 0 nxt] show ?thesis
    using assms(4,7) by (simp add: relay_output_def comp_def)
qed

lemma subscriber_station:
  assumes "list_all carriable ms" "ds \<noteq> []" "concat ds = concat (map (\<lambda>m. frame_bytes (to_frame m 0)) ms)"
    and "pred_option (\<lambda>d. d = FrameDecoder_new kDefaultMaxPayload) (qc_decoders c 0)" "qc_message_handler c"
    and "flow_state (qc_flows c) 0 = Active"
  shows "handled_frames p ds c = map (\<lambda>m. to_frame m 0) ms"
proof -
  let ?fs = "map (\<lambda>m. to_frame m 0) ms"
  have "list_all (\<lambda>f. flow_state (qc_flows c) (f_flow_id f) = Active) ?fs"
    using assms(6) by (simp add: list_all_iff to_frame_def)
  from peer_delivers [OF carriable_frames [OF assms(1)] assms(2) _ assms(4,5) this, of p] assms(3)
  have "qc_log (fold (run_client_call p) (map (\<lambda>b. Call_Event (Ev_Stream_Data 0 b)) ds) c) = qc_log c @ map Eff_Deliver ?fs"
    by (simp add: comp_def)
  moreover have "concat (map (\<lambda>e. case e of Eff_Deliver f \<Rightarrow> [f] | _ \<Rightarrow> []) (map Eff_Deliver fs)) = fs" for fs
    by (induction fs) simp_all
  ultimately show ?thesis by (simp add: handled_frames_def del: map_map)
qed

lemma egress_station:
  assumes "\<forall>k. 0 < sock k" "gw_writer g = Wr_Pop" "writer_player (gw_core g) = Some p"
    and "slot_at p (gw_listener g) = Some sl" "writer_inv (ss_writer (sl_session sl))"
    and "pq_queue (eg_queue (gw_core g)) = []" "room (length ms) (eg_queue (gw_core g))"
    and "list_all (\<lambda>m. m_type m \<noteq> kTypeCommandAmf0) ms" "list_all writable ms"
  shows "egress_output sock p (map (\<lambda>m. to_frame m 0) ms) g
    = concat (map (message_bytes (cw_chunk_size (ss_writer (sl_session sl)))) (gate_messages (eg_gaps (gw_core g)) ms))"
proof -
  let ?fs = "map (\<lambda>m. to_frame m 0) ms" and ?gt = "eg_gaps (gw_core g)"
  let ?g = "g\<lparr>gw_core := fold on_frame ?fs (gw_core g)\<rparr>"
  have ready: "eg_player_ready (gw_core g)" "eg_player (gw_core g) = Some p"
    using assms(3) by (simp_all add: writer_player_def split: if_splits)
  then have q: "pq_queue (eg_queue (gw_core ?g)) = live_entries ?gt ?fs"
    using on_frames_ready [of "gw_core g" ?fs] assms(6,7) by simp
  have gate: "map fst (live_entries ?gt ?fs) = gate_messages ?gt ms" by (rule live_entries_gate [OF assms(8)])
  have "list_all (\<lambda>m. writable m) (map fst (live_entries ?gt ?fs))"
    using gate gate_messages_sub [of ?gt ms] assms(9) by (auto simp: list_all_iff)
  then have "list_all (\<lambda>(m, k). writable m) (live_entries ?gt ?fs)" by (simp add: list_all_iff split_beta)
  from writer_sends [OF assms(1) _ _ _ assms(5) q this, of p] assms(2,4) ready
  show ?thesis
    using gate q by (auto simp: egress_output_def session_wire_def writer_player_def)
qed


text \<open>A relay with one publisher and one subscriber, and an egress gateway with a player that is ready.\<close>

definition demo_sender :: Client where
  "demo_sender = Client_new\<lparr>qc_started := True, qc_thread_ctx := True, qc_flow_streams := [0 \<mapsto> 0]\<rparr>"

definition demo_receiver :: Client where
  "demo_receiver = Client_new\<lparr>qc_message_handler := True\<rparr>"

definition demo_connected :: Ingest where
  "demo_connected = \<lparr>in_options = default_ingest_options,
     in_supervisor = Some ((Supervisor_new default_client_options default_reconnect_policy [])\<lparr>sv_connected := True,
       sv_client := Some demo_sender\<rparr>)\<rparr>"

definition demo_relay_server :: Server where
  "demo_relay_server = Server_new\<lparr>rs_options := \<lparr>so_mode = Media, so_close_after_ready = False\<rparr>,
     rs_router := register_subscriber 2 ''live'' (register_publisher 1 ''live'' MediaRouter_new)\<rparr>"

definition demo_player_slot :: SessionSlot where
  "demo_player_slot = \<lparr>sl_ptr = 5, sl_session = ServerSession_new ingest_events, sl_handled = 0, sl_exited = False\<rparr>"

definition demo_egress :: EgressGateway where
  "demo_egress = EgressGateway_new\<lparr>gw_writer := Wr_Pop, gw_core := Egress_new\<lparr>eg_player := Some 5, eg_player_ready := True\<rparr>,
     gw_listener := Listener_new\<lparr>ln_slots := [demo_player_slot]\<rparr>\<rparr>"

lemma demo_relay_inv: "media_inv demo_relay_server"
proof -
  have "rs_router demo_relay_server = fold run_router_call [Publisher 1 ''live'', Subscriber 2 ''live''] MediaRouter_new"
    by (simp add: demo_relay_server_def)
  moreover have "list_all caches_init [Publisher 1 ''live'', Subscriber 2 ''live'']" by simp
  moreover have "\<not> rs_aborted demo_relay_server" by (simp add: demo_relay_server_def Server_new_def)
  ultimately show ?thesis unfolding media_inv_def by blast
qed

lemma demo_gate: "gate_messages (eg_gaps (gw_core demo_egress)) [sample_message] = [sample_message]"
  by code_simp


end
